(* ===== verification/Memory.thy ===== *)
theory Memory
  imports Prelude
begin

text \<open>
  The C memory the allocator \<^verbatim>\<open>common/src/libpool.c\<close> works on: a byte-addressed store and
  the list of blocks handed out by the external allocation function and not yet released.
  Every access is checked: \<open>None\<close> is undefined behaviour (an access outside a live block,
  a misaligned pointer access, the release of a pointer that is not the base of a live
  block). The external allocation function (\<^verbatim>\<open>malloc\<close> by default) is a parameter; what
  libpool relies on of it is \<open>malloc_ok\<close>.

  The locale \<open>ptr_memory\<close> states the two laws of pointer-sized cells that the linked-list
  lemmas need; it is interpreted on the byte store.
\<close>

section \<open>Definitions\<close>

record heap =
  bytes :: "ptr \<Rightarrow> u8"
  live :: "(ptr \<times> size_t) list"

definition write_bytes :: "(ptr \<Rightarrow> u8) \<Rightarrow> ptr \<Rightarrow> u8 list \<Rightarrow> ptr \<Rightarrow> u8" where
  "write_bytes m p bs = (\<lambda>a. if unat (a - p) < length bs then bs ! unat (a - p) else m a)"

definition rd64 :: "(ptr \<Rightarrow> u8) \<Rightarrow> ptr \<Rightarrow> u64" where
  "rd64 m p = le_word (map (\<lambda>i. m (p + of_nat i)) [0..<8])"

definition wr64 :: "(ptr \<Rightarrow> u8) \<Rightarrow> ptr \<Rightarrow> u64 \<Rightarrow> ptr \<Rightarrow> u8" where
  "wr64 m p v = write_bytes m p (le_bytes 8 v)"

definition aligned :: "ptr \<Rightarrow> bool" where
  "aligned p \<longleftrightarrow> 8 dvd unat p"

definition in_block :: "ptr \<Rightarrow> nat \<Rightarrow> ptr \<times> size_t \<Rightarrow> bool" where
  "in_block p n = (\<lambda>(b, s). unat b \<le> unat p \<and> unat p + n \<le> unat b + unat s)"

definition accessible :: "heap \<Rightarrow> ptr \<Rightarrow> nat \<Rightarrow> bool" where
  "accessible h p n \<longleftrightarrow> list_ex (in_block p n) (live h)"

definition cell_ok :: "heap \<Rightarrow> ptr \<Rightarrow> bool" where
  "cell_ok h p \<longleftrightarrow> aligned p \<and> accessible h p 8"

text \<open>\<^verbatim>\<open>*(void**)p\<close> as an rvalue and as an assignment.\<close>

definition load_ptr :: "heap \<Rightarrow> ptr \<Rightarrow> u64 option" where
  "load_ptr h p = (if cell_ok h p then Some (rd64 (bytes h) p) else None)"

definition store_ptr :: "heap \<Rightarrow> ptr \<Rightarrow> u64 \<Rightarrow> heap option" where
  "store_ptr h p v = (if cell_ok h p then Some (h\<lparr>bytes := wr64 (bytes h) p v\<rparr>) else None)"

text \<open>\<^verbatim>\<open>char\<close> accesses, and a whole buffer written at once (what a socket read does).\<close>

definition load_char :: "heap \<Rightarrow> ptr \<Rightarrow> u8 option" where
  "load_char h p = (if accessible h p 1 then Some (bytes h p) else None)"

definition store_char :: "heap \<Rightarrow> ptr \<Rightarrow> u8 \<Rightarrow> heap option" where
  "store_char h p v =
     (if accessible h p 1 then Some (h\<lparr>bytes := write_bytes (bytes h) p [v]\<rparr>) else None)"

definition store_buffer :: "heap \<Rightarrow> ptr \<Rightarrow> u8 list \<Rightarrow> heap option" where
  "store_buffer h p bs =
     (if accessible h p (length bs)
      then Some (h\<lparr>bytes := write_bytes (bytes h) p bs\<rparr>) else None)"

text \<open>
  The external allocator: a choice of base address for a request, 0 (NULL) for failure.
  A request of 0 bytes may still get a block of its own, so a block takes up at least one
  address.
\<close>

type_synonym malloc = "heap \<Rightarrow> size_t \<Rightarrow> ptr"

definition extent :: "size_t \<Rightarrow> nat" where
  "extent s = max 1 (unat s)"

definition apart :: "ptr \<times> size_t \<Rightarrow> ptr \<times> size_t \<Rightarrow> bool" where
  "apart = (\<lambda>(b, s) (b', s').
     unat b + extent s \<le> unat b' \<or> unat b' + extent s' \<le> unat b)"

definition block_ok :: "ptr \<times> size_t \<Rightarrow> bool" where
  "block_ok = (\<lambda>(b, s). b \<noteq> 0 \<and> 16 dvd unat b \<and> unat b + extent s \<le> 2 ^ 64)"

definition heap_wf :: "heap \<Rightarrow> bool" where
  "heap_wf h \<longleftrightarrow> list_all block_ok (live h) \<and> sorted_wrt apart (live h)"

definition malloc_ok :: "malloc \<Rightarrow> bool" where
  "malloc_ok m \<longleftrightarrow> (\<forall>h n. heap_wf h \<longrightarrow> m h n \<noteq> 0 \<longrightarrow>
     block_ok (m h n, n) \<and> list_all (apart (m h n, n)) (live h))"

definition ext_alloc :: "malloc \<Rightarrow> heap \<Rightarrow> size_t \<Rightarrow> ptr \<times> heap" where
  "ext_alloc m h n =
     (let p = m h n in if p = 0 then (0, h) else (p, h\<lparr>live := (p, n) # live h\<rparr>))"

definition drop_block :: "ptr \<Rightarrow> (ptr \<times> size_t) list \<Rightarrow> (ptr \<times> size_t) list" where
  "drop_block p bs = filter (\<lambda>b. fst b \<noteq> p) bs"

definition ext_free :: "heap \<Rightarrow> ptr \<Rightarrow> heap option" where
  "ext_free h p =
     (if p = 0 then Some h
      else if list_ex (\<lambda>b. fst b = p) (live h)
      then Some (h\<lparr>live := drop_block p (live h)\<rparr>)
      else None)"

text \<open>
  A concrete external allocator, used by the witnesses: the first 16-aligned address above
  every live block, as long as the block ends below \<open>limit\<close>.
\<close>

definition bump_top :: "heap \<Rightarrow> nat" where
  "bump_top h = foldr (\<lambda>(b, s) t. max (unat b + extent s) t) (live h) 16"

definition bump_malloc :: "nat \<Rightarrow> malloc" where
  "bump_malloc limit h n =
     (let p = (bump_top h + 15) div 16 * 16
      in if p + extent n \<le> min limit (2 ^ 64) then of_nat p else 0)"

text \<open>An address inside a block.\<close>

definition within :: "ptr \<Rightarrow> ptr \<times> size_t \<Rightarrow> bool" where
  "within p = (\<lambda>(b, s). unat b \<le> unat p \<and> unat p < unat b + unat s)"

text \<open>The \<open>n\<close> bytes at \<open>p\<close> and the \<open>k\<close> bytes at \<open>q\<close> do not overlap (nor wrap around).\<close>

definition far :: "ptr \<Rightarrow> nat \<Rightarrow> ptr \<Rightarrow> nat \<Rightarrow> bool" where
  "far p n q k \<longleftrightarrow> (unat q + k \<le> unat p \<or> unat p + n \<le> unat q)
     \<and> unat q + k \<le> 2 ^ 64 \<and> unat p + n \<le> 2 ^ 64"

text \<open>The contents of a block.\<close>

definition block_data :: "(ptr \<Rightarrow> u8) \<Rightarrow> ptr \<times> size_t \<Rightarrow> u8 list" where
  "block_data m = (\<lambda>(b, s). map (\<lambda>k. m (b + of_nat k)) [0..<unat s])"

text \<open>The list of cells reached from \<open>p\<close> by following \<open>nxt\<close> until NULL.\<close>

primrec chain :: "(ptr \<Rightarrow> ptr) \<Rightarrow> ptr \<Rightarrow> ptr list \<Rightarrow> bool" where
  "chain nxt p [] \<longleftrightarrow> p = 0"
| "chain nxt p (a # as) \<longleftrightarrow> p = a \<and> a \<noteq> 0 \<and> chain nxt (nxt a) as"

text \<open>Writing a forward link into every cell of a list, the last one pointing to \<open>l\<close>.\<close>

fun link :: "('m \<Rightarrow> ptr \<Rightarrow> u64 \<Rightarrow> 'm) \<Rightarrow> 'm \<Rightarrow> ptr list \<Rightarrow> ptr \<Rightarrow> 'm" where
  "link wr m [] l = m"
| "link wr m [c] l = wr m c l"
| "link wr m (c # d # cs) l = link wr (wr m c d) (d # cs) l"

section \<open>Lists in memory\<close>

lemma chain_0 [simp]: "chain nxt 0 as \<longleftrightarrow> as = []"
  by (cases as) auto

lemma chain_nonzero: "p \<noteq> 0 \<Longrightarrow> chain nxt p as \<longleftrightarrow> (\<exists>bs. as = p # bs \<and> chain nxt (nxt p) bs)"
  by (cases as) auto

lemma chain_cong:
  "(\<And>a. a \<in> set as \<Longrightarrow> nxt' a = nxt a) \<Longrightarrow> chain nxt' p as = chain nxt p as"
  by (induction as arbitrary: p) auto

lemma chain_unique: "chain nxt p as \<Longrightarrow> chain nxt p bs \<Longrightarrow> as = bs"
proof (induction as arbitrary: p bs)
  case Nil
  then show ?case by simp
next
  case (Cons a as)
  then show ?case by (cases bs) auto
qed

lemma chain_suffix: "chain nxt p (as @ b # bs) \<Longrightarrow> chain nxt b (b # bs)"
  by (induction as arbitrary: p) auto

lemma chain_distinct: "chain nxt p as \<Longrightarrow> distinct as"
proof (induction as arbitrary: p)
  case Nil
  then show ?case by simp
next
  case (Cons a as)
  then have tl: "chain nxt (nxt a) as" and a: "chain nxt a (a # as)" by auto
  have "a \<notin> set as"
  proof
    assume "a \<in> set as"
    then obtain xs ys where "as = xs @ a # ys" by (auto simp: in_set_conv_decomp)
    with tl have "chain nxt a (a # ys)" by (auto dest: chain_suffix)
    with a have "a # as = a # ys" by (rule chain_unique)
    with \<open>as = xs @ a # ys\<close> show False by simp
  qed
  with Cons tl show ?case by auto
qed

lemma chain_nonnull: "chain nxt p as \<Longrightarrow> 0 \<notin> set as"
  by (induction as arbitrary: p) auto

locale ptr_memory =
  fixes rd :: "'m \<Rightarrow> ptr \<Rightarrow> u64"
    and wr :: "'m \<Rightarrow> ptr \<Rightarrow> u64 \<Rightarrow> 'm"
  assumes rd_wr_same: "rd (wr m p v) p = v"
    and rd_wr_other: "aligned p \<Longrightarrow> aligned q \<Longrightarrow> p \<noteq> q \<Longrightarrow> rd (wr m p v) q = rd m q"
begin

lemma rd_link_other:
  "aligned q \<Longrightarrow> list_all aligned cs \<Longrightarrow> q \<notin> set cs \<Longrightarrow> rd (link wr m cs l) q = rd m q"
  by (induction cs arbitrary: m rule: induct_list012) (auto simp: rd_wr_other)

lemma chain_link:
  assumes "list_all aligned cs" "distinct cs" "0 \<notin> set cs" "cs \<noteq> []"
    and "list_all aligned ts" "set cs \<inter> set ts = {}" "chain (rd m) l ts"
  shows "chain (rd (link wr m cs l)) (hd cs) (cs @ ts)"
  using assms
proof (induction cs arbitrary: m rule: induct_list012)
  case (2 c)
  then have "chain (rd (wr m c l)) l ts = chain (rd m) l ts"
    by (intro chain_cong) (auto simp: list_all_iff intro!: rd_wr_other)
  with 2 show ?case by (simp add: rd_wr_same)
next
  case (3 c d cs)
  then have "chain (rd (wr m c d)) l ts = chain (rd m) l ts"
    by (intro chain_cong) (auto simp: list_all_iff intro!: rd_wr_other)
  moreover have "rd (link wr (wr m c d) (d # cs) l) c = d"
    using 3 by (subst rd_link_other) (auto simp: rd_wr_same)
  ultimately show ?case using 3 by simp
qed simp

lemma chain_wr_other:
  "aligned p \<Longrightarrow> list_all aligned as \<Longrightarrow> p \<notin> set as \<Longrightarrow>
   chain (rd (wr m p v)) q as = chain (rd m) q as"
  by (intro chain_cong) (auto simp: list_all_iff intro!: rd_wr_other)

lemma chain_link_other:
  "list_all aligned cs \<Longrightarrow> list_all aligned as \<Longrightarrow> set cs \<inter> set as = {} \<Longrightarrow>
   chain (rd (link wr m cs l)) q as = chain (rd m) q as"
  by (intro chain_cong) (auto simp: list_all_iff intro!: rd_link_other)

end

section \<open>Byte store\<close>

lemma write_bytes_inside:
  "k < length bs \<Longrightarrow> length bs \<le> 2 ^ 64 \<Longrightarrow> write_bytes m p bs (p + of_nat k) = bs ! k"
  by (simp add: write_bytes_def unat_of_nat)

lemma write_bytes_outside:
  "length bs \<le> unat (a - p) \<Longrightarrow> write_bytes m p bs a = m a"
  by (simp add: write_bytes_def)

lemma map_nth_upt: "length xs = n \<Longrightarrow> map (\<lambda>i. xs ! i) [0..<n] = xs"
  by (rule nth_equalityI) auto

lemma rd64_wr64_same: "rd64 (wr64 m p v) p = v"
proof -
  have "map (\<lambda>i. wr64 m p v (p + of_nat i)) [0..<8] = map (\<lambda>i. le_bytes 8 v ! i) [0..<8]"
    unfolding wr64_def by (rule map_cong) (auto simp: write_bytes_inside)
  also have "\<dots> = le_bytes 8 v" by (rule map_nth_upt) simp
  finally show ?thesis by (simp add: rd64_def)
qed

lemma write_bytes_far:
  assumes "far p (length bs) q n" "i < n"
  shows "write_bytes m p bs (q + of_nat i) = m (q + of_nat i)"
proof (rule write_bytes_outside)
  have q: "unat (q + of_nat i) = unat q + i"
    using assms by (simp add: far_def unat_add_less unat_of_nat)
  show "length bs \<le> unat (q + of_nat i - p)"
  proof (cases "unat q + i < unat p")
    case True
    with assms q show ?thesis by (auto simp: far_def unat_diff_wrap)
  next
    case False
    with assms q show ?thesis by (auto simp: far_def unat_diff_le)
  qed
qed

lemma rd64_write_bytes_other:
  "far p (length bs) q 8 \<Longrightarrow> rd64 (write_bytes m p bs) q = rd64 m q"
  unfolding rd64_def
  by (intro arg_cong [where f = le_word] map_cong) (auto simp: write_bytes_far)

lemma aligned_bound: "aligned p \<Longrightarrow> unat p + 8 \<le> 2 ^ 64"
proof -
  assume "aligned p"
  then obtain k where k: "unat p = 8 * k" by (auto simp: aligned_def)
  have "unat p < 2 ^ 64" using unsigned_less[of p] by simp
  with k have "k < 2 ^ 61" by simp
  with k show ?thesis by simp
qed

lemma rd64_wr64_other:
  assumes "aligned p" "aligned q" "p \<noteq> q"
  shows "rd64 (wr64 m p v) q = rd64 m q"
proof -
  from assms obtain a b where "unat p = 8 * a" "unat q = 8 * b"
    unfolding aligned_def by (meson dvdE)
  moreover from assms have "unat p \<noteq> unat q" by (simp add: word_unat_eq_iff)
  ultimately have "unat q + 8 \<le> unat p \<or> unat p + 8 \<le> unat q" by arith
  then show ?thesis unfolding wr64_def
    using assms by (intro rd64_write_bytes_other) (auto simp: far_def dest: aligned_bound)
qed

interpretation byte_mem: ptr_memory rd64 wr64
  by unfold_locales (simp_all add: rd64_wr64_same rd64_wr64_other)

section \<open>Live blocks\<close>

lemma accessible_bytes [simp]: "accessible (h\<lparr>bytes := m\<rparr>) p n = accessible h p n"
  by (simp add: accessible_def)

lemma cell_ok_bytes [simp]: "cell_ok (h\<lparr>bytes := m\<rparr>) p = cell_ok h p"
  by (simp add: cell_ok_def)

lemma heap_wf_bytes [simp]: "heap_wf (h\<lparr>bytes := m\<rparr>) = heap_wf h"
  by (simp add: heap_wf_def)

lemma cell_ok_aligned [dest]: "cell_ok h p \<Longrightarrow> aligned p"
  by (simp add: cell_ok_def)

lemma load_ptr_ok [simp]: "cell_ok h p \<Longrightarrow> load_ptr h p = Some (rd64 (bytes h) p)"
  by (simp add: load_ptr_def)

lemma store_ptr_ok [simp]:
  "cell_ok h p \<Longrightarrow> store_ptr h p v = Some (h\<lparr>bytes := wr64 (bytes h) p v\<rparr>)"
  by (simp add: store_ptr_def)

lemma apart_sym: "apart x y \<longleftrightarrow> apart y x"
  by (auto simp: apart_def split: prod.splits)

lemma apart_irrefl: "\<not> apart (b, s) (b, s')"
  by (simp add: apart_def extent_def)

lemma sorted_wrt_apart:
  "sorted_wrt apart bs \<Longrightarrow> x \<in> set bs \<Longrightarrow> y \<in> set bs \<Longrightarrow> x \<noteq> y \<Longrightarrow> apart x y"
  by (induction bs) (auto simp: apart_sym)

lemma heap_wf_apart:
  "heap_wf h \<Longrightarrow> (b, s) \<in> set (live h) \<Longrightarrow> (b', s') \<in> set (live h) \<Longrightarrow> b \<noteq> b' \<Longrightarrow>
   apart (b, s) (b', s')"
  by (auto simp: heap_wf_def intro: sorted_wrt_apart)

lemma heap_wf_base_unique:
  "heap_wf h \<Longrightarrow> (b, s) \<in> set (live h) \<Longrightarrow> (b, s') \<in> set (live h) \<Longrightarrow> s = s'"
  by (metis apart_irrefl heap_wf_def prod.inject sorted_wrt_apart)

lemma heap_wf_block:
  assumes "heap_wf h" "(b, s) \<in> set (live h)"
  shows "b \<noteq> 0" "16 dvd unat b" "unat b + extent s \<le> 2 ^ 64" "unat b + unat s \<le> 2 ^ 64"
proof -
  from assms have "block_ok (b, s)" by (auto simp: heap_wf_def list_all_iff)
  then show "b \<noteq> 0" "16 dvd unat b" "unat b + extent s \<le> 2 ^ 64" "unat b + unat s \<le> 2 ^ 64"
    by (auto simp: block_ok_def extent_def)
qed

lemma unat_offset:
  assumes "heap_wf h" "(b, s) \<in> set (live h)" "k < unat s"
  shows "unat (b + of_nat k) = unat b + k"
proof -
  from assms have "unat b + k < 2 ^ 64" using heap_wf_block(4) by fastforce
  moreover from this have "unat (of_nat k :: u64) = k" by (simp add: unat_of_nat)
  ultimately show ?thesis by (simp add: unat_add_less)
qed

lemma cell_ok_offset:
  assumes "heap_wf h" "(b, s) \<in> set (live h)" "8 dvd k" "k + 8 \<le> unat s"
  shows "cell_ok h (b + of_nat k)"
proof -
  have u: "unat (b + of_nat k) = unat b + k" using assms by (intro unat_offset) auto
  have "(16::nat) dvd unat b" using assms heap_wf_block by blast
  then have "(8::nat) dvd unat b" by (rule dvd_trans[rotated]) simp
  with assms u have "aligned (b + of_nat k)" by (simp add: aligned_def)
  moreover have "accessible h (b + of_nat k) 8"
    using assms u by (auto simp: accessible_def list_ex_iff in_block_def intro!: bexI[of _ "(b, s)"])
  ultimately show ?thesis by (simp add: cell_ok_def)
qed

lemma cell_ok_base:
  "heap_wf h \<Longrightarrow> (b, s) \<in> set (live h) \<Longrightarrow> 8 \<le> unat s \<Longrightarrow> cell_ok h b"
  using cell_ok_offset[of h b s 0] by simp

lemma accessible_mono:
  assumes "accessible h p n" "k \<le> n"
  shows "accessible h p k"
proof -
  from assms(1) obtain x where "x \<in> set (live h)" "in_block p n x"
    by (auto simp: accessible_def list_ex_iff)
  moreover from this assms(2) have "in_block p k x" by (auto simp: in_block_def)
  ultimately show ?thesis by (auto simp: accessible_def list_ex_iff)
qed

lemma within_offset:
  "heap_wf h \<Longrightarrow> (b, s) \<in> set (live h) \<Longrightarrow> k < unat s \<Longrightarrow> within (b + of_nat k) (b, s)"
  by (simp add: within_def unat_offset)

lemma within_base: "0 < unat s \<Longrightarrow> within b (b, s)"
  by (simp add: within_def)

lemma within_neq:
  assumes "heap_wf h" "(b, s) \<in> set (live h)" "(b', s') \<in> set (live h)" "b \<noteq> b'"
    and "within p (b, s)" "within q (b', s')"
  shows "p \<noteq> q"
proof -
  have "apart (b, s) (b', s')" using assms(1-4) by (rule heap_wf_apart)
  with assms(5,6) show ?thesis by (auto simp: apart_def within_def extent_def)
qed

lemma in_block_of_within:
  assumes "heap_wf h" "(b, s) \<in> set (live h)" "8 dvd unat s" "aligned q" "within q (b, s)"
  shows "in_block q 8 (b, s)"
proof -
  have "(16::nat) dvd unat b" using assms(1,2) heap_wf_block by blast
  then have "8 dvd unat b" by (rule dvd_trans[rotated]) simp
  then obtain i j k where "unat b = 8 * i" "unat s = 8 * j" "unat q = 8 * k"
    using assms(3,4) unfolding aligned_def by (meson dvdE)
  moreover from this assms(5) have "i \<le> k" "k < i + j" by (auto simp: within_def)
  ultimately show ?thesis by (auto simp: in_block_def)
qed

lemma far_blocks:
  assumes "heap_wf h" "(b, s) \<in> set (live h)" "(b', s') \<in> set (live h)" "b \<noteq> b'"
    and "in_block p n (b, s)" "in_block q k (b', s')"
  shows "far p n q k"
proof -
  have "apart (b, s) (b', s')" using assms(1-4) by (rule heap_wf_apart)
  moreover have "unat b + unat s \<le> 2 ^ 64" "unat b' + unat s' \<le> 2 ^ 64"
    using assms(1-3) heap_wf_block(4) by blast+
  ultimately show ?thesis using assms(5,6)
    by (auto simp: apart_def in_block_def far_def extent_def)
qed

lemma block_data_write_other:
  assumes "heap_wf h" "(b, s) \<in> set (live h)" "in_block p (length bs) (b, s)"
    and "B \<in> set (live h)" "fst B \<noteq> b"
  shows "block_data (write_bytes m p bs) B = block_data m B"
proof -
  obtain b' s' where B: "B = (b', s')" by (cases B)
  have "in_block b' (unat s') (b', s')" by (simp add: in_block_def)
  with assms B have "far p (length bs) b' (unat s')" by (auto intro: far_blocks)
  then show ?thesis by (auto simp: block_data_def B write_bytes_far)
qed

lemma block_data_offset_other:
  assumes "heap_wf h" "(b, s) \<in> set (live h)" "k + 8 \<le> unat s"
    and "B \<in> set (live h)" "fst B \<noteq> b"
  shows "block_data (wr64 m (b + of_nat k) v) B = block_data m B"
proof -
  have "unat (b + of_nat k) = unat b + k" using assms by (intro unat_offset) auto
  with assms(3) have "in_block (b + of_nat k) (length (le_bytes 8 v)) (b, s)"
    by (simp add: in_block_def)
  with assms show ?thesis unfolding wr64_def by (intro block_data_write_other[of h b s])
qed

section \<open>The external allocator\<close>

lemma heap_wf_alloc:
  assumes "malloc_ok m" "heap_wf h" "ext_alloc m h n = (p, h')" "p \<noteq> 0"
  shows "heap_wf h'" "h' = h\<lparr>live := (p, n) # live h\<rparr>" "p \<notin> fst ` set (live h)"
proof -
  from assms(3,4) have p: "p = m h n" and h': "h' = h\<lparr>live := (p, n) # live h\<rparr>"
    by (auto simp: ext_alloc_def Let_def split: if_splits)
  with assms have "block_ok (p, n)" "list_all (apart (p, n)) (live h)"
    by (auto simp: malloc_ok_def)
  then show "heap_wf h'" "p \<notin> fst ` set (live h)"
    using assms(2) by (auto simp: h' heap_wf_def list_all_iff apart_irrefl)
  show "h' = h\<lparr>live := (p, n) # live h\<rparr>" by (rule h')
qed

lemma ext_alloc_fail: "ext_alloc m h n = (0, h') \<Longrightarrow> h' = h"
  by (auto simp: ext_alloc_def Let_def split: if_splits)

lemma sorted_wrt_drop_block: "sorted_wrt r bs \<Longrightarrow> sorted_wrt r (drop_block p bs)"
  unfolding drop_block_def by (rule sorted_wrt_filter)

lemma heap_wf_drop [simp]: "heap_wf h \<Longrightarrow> heap_wf (h\<lparr>live := drop_block p (live h)\<rparr>)"
  by (auto simp: heap_wf_def sorted_wrt_drop_block list_all_iff)
     (simp add: drop_block_def)

lemma ext_free_ok:
  "(p, s) \<in> set (live h) \<Longrightarrow> p \<noteq> 0 \<Longrightarrow> ext_free h p = Some (h\<lparr>live := drop_block p (live h)\<rparr>)"
  by (force simp: ext_free_def list_ex_iff)

lemma drop_block_notin: "p \<notin> fst ` set bs \<Longrightarrow> drop_block p bs = bs"
  by (auto simp: drop_block_def filter_id_conv image_iff)

lemma drop_block_Cons [simp]:
  "drop_block p ((q, n) # bs) = (if q = p then drop_block p bs else (q, n) # drop_block p bs)"
  by (simp add: drop_block_def)

lemma bump_top_ge: "(b, s) \<in> set (live h) \<Longrightarrow> unat b + extent s \<le> bump_top h"
proof -
  have "(b, s) \<in> set xs \<Longrightarrow> unat b + extent s \<le> foldr (\<lambda>(b, s) t. max (unat b + extent s) t) xs 16"
    for xs by (induction xs) auto
  then show "(b, s) \<in> set (live h) \<Longrightarrow> unat b + extent s \<le> bump_top h"
    by (simp add: bump_top_def)
qed

lemma bump_top_pos: "16 \<le> bump_top h"
proof -
  have "16 \<le> foldr (\<lambda>(b, s) t. max (unat b + extent s) t) xs 16" for xs :: "(ptr \<times> size_t) list"
    by (induction xs) auto
  then show ?thesis by (simp add: bump_top_def)
qed

lemma bump_malloc_ok: "malloc_ok (bump_malloc limit)"
  unfolding malloc_ok_def
proof (intro allI impI)
  fix h n
  define a where "a = (bump_top h + 15) div 16 * 16"
  assume "heap_wf h" and nz: "bump_malloc limit h n \<noteq> 0"
  have "bump_malloc limit h n = (if a + extent n \<le> min limit (2 ^ 64) then of_nat a else 0)"
    by (simp only: bump_malloc_def Let_def a_def)
  with nz have le: "a + extent n \<le> 2 ^ 64" and p: "bump_malloc limit h n = of_nat a"
    by (auto split: if_splits)
  have "1 \<le> extent n" by (simp add: extent_def)
  with le have u: "unat (of_nat a :: u64) = a" by (simp add: unat_of_nat)
  have ge: "bump_top h \<le> a" unfolding a_def by linarith
  have "16 dvd a" unfolding a_def by simp
  have "block_ok (of_nat a, n)"
    using u le nz \<open>16 dvd a\<close> by (simp add: block_ok_def p)
  moreover have "list_all (apart (of_nat a, n)) (live h)"
    using ge u by (fastforce simp: list_all_iff apart_def dest: bump_top_ge)
  ultimately show "block_ok (bump_malloc limit h n, n) \<and>
      list_all (apart (bump_malloc limit h n, n)) (live h)"
    by (simp add: p)
qed

end
