(* ===== verification/Libpool.thy ===== *)
theory Libpool
  imports Memory
begin

text \<open>
  The pool allocator of \<^verbatim>\<open>common/src/libpool.c\<close>, over the checked byte memory of theory
  \<open>Memory\<close>. The \<^verbatim>\<open>Pool\<close> and \<^verbatim>\<open>ArrayStart\<close> structures live in that memory at the offsets
  the compiler gives them on a 64-bit host; a field access is a checked load or store, and
  \<open>None\<close> is undefined behaviour (or, for the two list traversals, a loop that never ends).

  The build defines none of \<^verbatim>\<open>LIBPOOL_NO_STDLIB\<close>, \<^verbatim>\<open>LIBPOOL_THREAD_SAFE\<close> and
  \<^verbatim>\<open>LIBPOOL_NO_ALIGNMENT\<close> for this file (\<^verbatim>\<open>common/CMakeLists.txt\<close>), so the branches modelled are
  the ones compiled; the logging and valgrind macros do not change the state.
\<close>

section \<open>Definitions\<close>

definition sizeof_ptr :: size_t where "sizeof_ptr = 8"
definition sizeof_ArrayStart :: size_t where "sizeof_ArrayStart = 16"
definition sizeof_Pool :: size_t where "sizeof_Pool = 24"

text \<open>Addresses of the structure fields.\<close>

definition ArrayStart_next :: "ptr \<Rightarrow> ptr" where "ArrayStart_next p = p"
definition ArrayStart_arr :: "ptr \<Rightarrow> ptr" where "ArrayStart_arr p = p + 8"
definition Pool_free_chunk :: "ptr \<Rightarrow> ptr" where "Pool_free_chunk p = p"
definition Pool_array_starts :: "ptr \<Rightarrow> ptr" where "Pool_array_starts p = p + 8"
definition Pool_chunk_sz :: "ptr \<Rightarrow> ptr" where "Pool_chunk_sz p = p + 16"

text \<open>The external function pointers; \<open>None\<close> is a null pointer, and calling it is undefined.\<close>

record ext_funcs =
  pool_ext_alloc :: "malloc option"
  pool_ext_free :: "(heap \<Rightarrow> ptr \<Rightarrow> heap option) option"

definition pool_assert_ext_funcs :: "ext_funcs \<Rightarrow> bool" where
  "pool_assert_ext_funcs e \<longleftrightarrow> \<not> (pool_ext_alloc e = None \<or> pool_ext_free e = None)"

definition call_alloc :: "ext_funcs \<Rightarrow> heap \<Rightarrow> size_t \<Rightarrow> (ptr \<times> heap) option" where
  "call_alloc e h n = map_option (\<lambda>m. ext_alloc m h n) (pool_ext_alloc e)"

definition call_free :: "ext_funcs \<Rightarrow> heap \<Rightarrow> ptr \<Rightarrow> heap option" where
  "call_free e h p = (case pool_ext_free e of None \<Rightarrow> None | Some f \<Rightarrow> f h p)"

definition align2boundary :: "size_t \<Rightarrow> size_t \<Rightarrow> size_t" where
  "align2boundary sz boundary = (sz + boundary - 1) AND NOT (boundary - 1)"

text \<open>\<^verbatim>\<open>for (i = 0; i < pool_sz - 1; i++) *(void**)(arr + i * chunk_sz) = arr + (i + 1) * chunk_sz;\<close>\<close>

function link_chunks :: "heap \<Rightarrow> ptr \<Rightarrow> size_t \<Rightarrow> size_t \<Rightarrow> size_t \<Rightarrow> heap option" where
  "link_chunks h arr chunk_sz i n =
     (if i < n
      then do {
        h \<leftarrow> store_ptr h (arr + i * chunk_sz) (arr + (i + 1) * chunk_sz);
        link_chunks h arr chunk_sz (i + 1) n
      }
      else Some h)"
  by pat_completeness auto
termination
  by (relation "measure (\<lambda>(h, arr, chunk_sz, i, n). unat n - unat i)")
     (auto simp: unat_Suc_less word_less_nat_alt)

declare link_chunks.simps [simp del]

text \<open>The last part of \<^verbatim>\<open>pool_new\<close>: the list is built and the structures are filled.\<close>

definition new_fill :: "heap \<Rightarrow> ptr \<Rightarrow> ptr \<Rightarrow> size_t \<Rightarrow> size_t \<Rightarrow> heap option" where
  "new_fill h pool arr pool_sz chunk_sz = do {
     h \<leftarrow> link_chunks h arr chunk_sz 0 (pool_sz - 1);
     h \<leftarrow> store_ptr h (arr + (pool_sz - 1) * chunk_sz) 0;
     h \<leftarrow> store_ptr h (Pool_free_chunk pool) arr;
     starts \<leftarrow> load_ptr h (Pool_array_starts pool);
     h \<leftarrow> store_ptr h (ArrayStart_next starts) 0;
     starts \<leftarrow> load_ptr h (Pool_array_starts pool);
     h \<leftarrow> store_ptr h (ArrayStart_arr starts) arr;
     store_ptr h (Pool_chunk_sz pool) chunk_sz
   }"

definition pool_new :: "ext_funcs \<Rightarrow> heap \<Rightarrow> size_t \<Rightarrow> size_t \<Rightarrow> (ptr \<times> heap) option" where
  "pool_new e h pool_sz chunk_sz =
     (if pool_sz = 0 then Some (0, h)
      else let chunk_sz = align2boundary chunk_sz sizeof_ptr in
      if \<not> pool_assert_ext_funcs e then Some (0, h)
      else do {
        (pool, h) \<leftarrow> call_alloc e h sizeof_Pool;
        if pool = 0 then Some (0, h)
        else do {
          (start, h) \<leftarrow> call_alloc e h sizeof_ArrayStart;
          h \<leftarrow> store_ptr h (Pool_array_starts pool) start;
          starts \<leftarrow> load_ptr h (Pool_array_starts pool);
          if starts = 0
          then do {
            h \<leftarrow> call_free e h pool;
            Some (0, h)
          }
          else do {
            (arr, h) \<leftarrow> call_alloc e h (pool_sz * chunk_sz);
            if arr = 0
            then do {
              starts \<leftarrow> load_ptr h (Pool_array_starts pool);
              h \<leftarrow> call_free e h starts;
              h \<leftarrow> call_free e h pool;
              Some (0, h)
            }
            else do {
              h \<leftarrow> new_fill h pool arr pool_sz chunk_sz;
              Some (pool, h)
            }
          }
        }
      })"

text \<open>The same loop in \<^verbatim>\<open>pool_expand\<close>, which reads \<^verbatim>\<open>pool->chunk_sz\<close> in every iteration.\<close>

function link_extra :: "heap \<Rightarrow> ptr \<Rightarrow> ptr \<Rightarrow> size_t \<Rightarrow> size_t \<Rightarrow> heap option" where
  "link_extra h pool extra_arr i n =
     (if i < n
      then do {
        chunk_sz \<leftarrow> load_ptr h (Pool_chunk_sz pool);
        h \<leftarrow> store_ptr h (extra_arr + i * chunk_sz) (extra_arr + (i + 1) * chunk_sz);
        link_extra h pool extra_arr (i + 1) n
      }
      else Some h)"
  by pat_completeness auto
termination
  by (relation "measure (\<lambda>(h, pool, extra_arr, i, n). unat n - unat i)")
     (auto simp: unat_Suc_less word_less_nat_alt)

declare link_extra.simps [simp del]

definition pool_expand :: "ext_funcs \<Rightarrow> heap \<Rightarrow> ptr \<Rightarrow> size_t \<Rightarrow> (bool \<times> heap) option" where
  "pool_expand e h pool extra_sz =
     (if pool = 0 \<or> extra_sz \<le> 0 then Some (False, h)
      else do {
        (array_start, h) \<leftarrow> call_alloc e h sizeof_ArrayStart;
        if array_start = 0 then Some (False, h)
        else do {
          chunk_sz \<leftarrow> load_ptr h (Pool_chunk_sz pool);
          (extra_arr, h) \<leftarrow> call_alloc e h (extra_sz * chunk_sz);
          if extra_arr = 0
          then do {
            h \<leftarrow> call_free e h array_start;
            Some (False, h)
          }
          else do {
            h \<leftarrow> link_extra h pool extra_arr 0 (extra_sz - 1);
            chunk_sz \<leftarrow> load_ptr h (Pool_chunk_sz pool);
            fc \<leftarrow> load_ptr h (Pool_free_chunk pool);
            h \<leftarrow> store_ptr h (extra_arr + (extra_sz - 1) * chunk_sz) fc;
            h \<leftarrow> store_ptr h (Pool_free_chunk pool) extra_arr;
            h \<leftarrow> store_ptr h (ArrayStart_arr array_start) extra_arr;
            starts \<leftarrow> load_ptr h (Pool_array_starts pool);
            h \<leftarrow> store_ptr h (ArrayStart_next array_start) starts;
            h \<leftarrow> store_ptr h (Pool_array_starts pool) array_start;
            Some (True, h)
          }
        }
      })"

partial_function (option) destroy_loop :: "ext_funcs \<Rightarrow> heap \<Rightarrow> ptr \<Rightarrow> heap option" where
  "destroy_loop e h array_start =
     (if array_start = 0 then Some h
      else do {
        nxt \<leftarrow> load_ptr h (ArrayStart_next array_start);
        arr \<leftarrow> load_ptr h (ArrayStart_arr array_start);
        h \<leftarrow> call_free e h arr;
        h \<leftarrow> call_free e h array_start;
        destroy_loop e h nxt
      })"

declare destroy_loop.simps [code]

definition pool_destroy :: "ext_funcs \<Rightarrow> heap \<Rightarrow> ptr \<Rightarrow> heap option" where
  "pool_destroy e h pool =
     (if pool = 0 then Some h
      else do {
        array_start \<leftarrow> load_ptr h (Pool_array_starts pool);
        h \<leftarrow> destroy_loop e h array_start;
        call_free e h pool
      })"

definition pool_alloc :: "heap \<Rightarrow> ptr \<Rightarrow> (ptr \<times> heap) option" where
  "pool_alloc h pool =
     (if pool = 0 then Some (0, h)
      else do {
        fc \<leftarrow> load_ptr h (Pool_free_chunk pool);
        if fc = 0 then Some (0, h)
        else do {
          nxt \<leftarrow> load_ptr h fc;
          h \<leftarrow> store_ptr h (Pool_free_chunk pool) nxt;
          Some (fc, h)
        }
      })"

definition pool_free :: "heap \<Rightarrow> ptr \<Rightarrow> ptr \<Rightarrow> heap option" where
  "pool_free h pool p =
     (if pool = 0 \<or> p = 0 then Some h
      else do {
        fc \<leftarrow> load_ptr h (Pool_free_chunk pool);
        h \<leftarrow> store_ptr h p fc;
        store_ptr h (Pool_free_chunk pool) p
      })"

partial_function (option) available_loop :: "heap \<Rightarrow> ptr \<Rightarrow> size_t \<Rightarrow> size_t option" where
  "available_loop h free_chunk available =
     (if free_chunk = 0 then Some available
      else do {
        nxt \<leftarrow> load_ptr h free_chunk;
        available_loop h nxt (available + 1)
      })"

declare available_loop.simps [code]

definition pool_available :: "heap \<Rightarrow> ptr \<Rightarrow> size_t option" where
  "pool_available h p =
     (if p = 0 then Some 0
      else do {
        free_chunk \<leftarrow> load_ptr h (Pool_free_chunk p);
        available_loop h free_chunk 0
      })"

end
