(* ===== verification/Pool_Rep.thy ===== *)
theory Pool_Rep
  imports Libpool
begin

text \<open>
  The abstract view of a libpool pool and what it means for the memory to represent it:
  the blocks the pool owns, its chunk arrays, its free list. The lemmas show which cells
  and chunks are distinct, so that the operations can be verified one store at a time.
\<close>

section \<open>Definitions\<close>

text \<open>
  The abstract state of a pool: the free chunks in the order they will be handed out, the
  chunk arrays (their \<^verbatim>\<open>ArrayStart\<close> node, base address and number of chunks, most recent
  first) and the aligned chunk size. \<open>pool_rep h pool V\<close> says that the memory at \<open>pool\<close>
  represents \<open>V\<close>. The size of the \<^verbatim>\<open>Pool\<close> structure is part of the view, because it depends on the build:
  with \<^verbatim>\<open>LIBPOOL_THREAD_SAFE\<close> the structure has a fourth member.
\<close>

record pool_view =
  v_free :: "ptr list"
  v_arrays :: "(ptr \<times> ptr \<times> nat) list"
  v_chunk_sz :: size_t
  v_pool_sz :: size_t

definition array_chunks :: "size_t \<Rightarrow> ptr \<Rightarrow> nat \<Rightarrow> ptr list" where
  "array_chunks csz a n = map (\<lambda>i. a + of_nat i * csz) [0..<n]"

definition all_chunks :: "pool_view \<Rightarrow> ptr list" where
  "all_chunks V = concat (map (\<lambda>(s, a, n). array_chunks (v_chunk_sz V) a n) (v_arrays V))"

definition pool_blocks :: "ptr \<Rightarrow> pool_view \<Rightarrow> (ptr \<times> size_t) list" where
  "pool_blocks pool V = (pool, v_pool_sz V)
     # map (\<lambda>(s, a, n). (s, sizeof_ArrayStart)) (v_arrays V)
     @ map (\<lambda>(s, a, n). (a, of_nat n * v_chunk_sz V)) (v_arrays V)"

definition array_ok :: "heap \<Rightarrow> size_t \<Rightarrow> ptr \<times> ptr \<times> nat \<Rightarrow> bool" where
  "array_ok h csz = (\<lambda>(s, a, n). 0 < n \<and> n * unat csz < 2 ^ 64
     \<and> rd64 (bytes h) (ArrayStart_arr s) = a)"

definition pool_rep :: "heap \<Rightarrow> ptr \<Rightarrow> pool_view \<Rightarrow> bool" where
  "pool_rep h pool V \<longleftrightarrow>
     heap_wf h
   \<and> distinct (map fst (pool_blocks pool V))
   \<and> set (pool_blocks pool V) \<subseteq> set (live h)
   \<and> unat sizeof_Pool \<le> unat (v_pool_sz V) \<and> 8 dvd unat (v_pool_sz V)
   \<and> 8 dvd unat (v_chunk_sz V) \<and> v_chunk_sz V \<noteq> 0
   \<and> list_all (array_ok h (v_chunk_sz V)) (v_arrays V)
   \<and> rd64 (bytes h) (Pool_chunk_sz pool) = v_chunk_sz V
   \<and> chain (rd64 (bytes h)) (rd64 (bytes h) (Pool_array_starts pool)) (map fst (v_arrays V))
   \<and> chain (rd64 (bytes h)) (rd64 (bytes h) (Pool_free_chunk pool)) (v_free V)
   \<and> set (v_free V) \<subseteq> set (all_chunks V)"

definition used_chunks :: "pool_view \<Rightarrow> ptr set" where
  "used_chunks V = set (all_chunks V) - set (v_free V)"

text \<open>A chunk array that has just been allocated: what the linking loops rely on.\<close>

definition array_block :: "heap \<Rightarrow> size_t \<Rightarrow> ptr \<Rightarrow> nat \<Rightarrow> bool" where
  "array_block h csz a n \<longleftrightarrow> heap_wf h \<and> (a, of_nat n * csz) \<in> set (live h)
     \<and> 0 < n \<and> n * unat csz < 2 ^ 64 \<and> 8 dvd unat csz \<and> csz \<noteq> 0"

text \<open>The pointer cells of a pool other than its free list and its \<^verbatim>\<open>free_chunk\<close> field.\<close>

definition meta_cells :: "ptr \<Rightarrow> pool_view \<Rightarrow> ptr set" where
  "meta_cells pool V = {Pool_array_starts pool, Pool_chunk_sz pool}
     \<union> fst ` set (v_arrays V) \<union> (\<lambda>x. ArrayStart_arr (fst x)) ` set (v_arrays V)"

text \<open>The contents of a chunk.\<close>

definition chunk_data :: "heap \<Rightarrow> size_t \<Rightarrow> ptr \<Rightarrow> u8 list" where
  "chunk_data h csz c = map (\<lambda>k. bytes h (c + of_nat k)) [0..<unat csz]"

text \<open>The functions the default build binds: \<^verbatim>\<open>malloc\<close> and \<^verbatim>\<open>free\<close>.\<close>

definition ext_ok :: "ext_funcs \<Rightarrow> bool" where
  "ext_ok e \<longleftrightarrow> (\<exists>m. pool_ext_alloc e = Some m \<and> malloc_ok m) \<and> pool_ext_free e = Some ext_free"

lemmas field_defs = ArrayStart_next_def ArrayStart_arr_def Pool_free_chunk_def
  Pool_array_starts_def Pool_chunk_sz_def

lemmas sizeof_defs = sizeof_ptr_def sizeof_ArrayStart_def sizeof_Pool_def

section \<open>Alignment\<close>

lemma and_not_mask: "x AND NOT (mask n) = push_bit n (drop_bit n x)"
  for x :: "'a::len word"
  by (rule bit_eqI) (auto simp: bit_simps)

lemma unat_push_drop: "unat (push_bit n (drop_bit n x)) = unat x div 2 ^ n * 2 ^ n"
  for x :: "'a::len word"
proof -
  have "unat x div 2 ^ n * 2 ^ n < 2 ^ LENGTH('a)"
    by (rule le_less_trans[OF div_times_less_eq_dividend]) simp
  then have "take_bit LENGTH('a) (push_bit n (drop_bit n (unat x))) = unat x div 2 ^ n * 2 ^ n"
    by (simp add: push_bit_eq_mult drop_bit_eq_div take_bit_nat_eq_self)
  then show ?thesis by (simp only: unsigned_push_bit_eq unat_drop_bit_eq)
qed

lemma unat_align2boundary:
  assumes "unat n + 7 < 2 ^ 64"
  shows "unat (align2boundary n sizeof_ptr) = (unat n + 7) div 8 * 8"
proof -
  have "align2boundary n sizeof_ptr = push_bit 3 (drop_bit 3 (n + 7))"
    using and_not_mask[of "n + 7" 3] by (simp add: align2boundary_def sizeof_ptr_def mask_numeral add.commute)
  moreover have "unat (n + 7) = unat n + 7" using assms by (simp add: unat_add_less)
  ultimately show ?thesis by (simp only: unat_push_drop) simp
qed

lemma align2boundary_ok:
  assumes "unat n + 7 < 2 ^ 64" "n \<noteq> 0"
  shows "8 dvd unat (align2boundary n sizeof_ptr)" "align2boundary n sizeof_ptr \<noteq> 0"
    "unat n \<le> unat (align2boundary n sizeof_ptr)"
proof -
  have u: "unat (align2boundary n sizeof_ptr) = (unat n + 7) div 8 * 8"
    using assms(1) by (rule unat_align2boundary)
  then show "8 dvd unat (align2boundary n sizeof_ptr)" by simp
  show "unat n \<le> unat (align2boundary n sizeof_ptr)" unfolding u by linarith
  with assms(2) show "align2boundary n sizeof_ptr \<noteq> 0"
    by (metis le_zero_eq unat_eq_zero unsigned_0)
qed

section \<open>Chunk arrays\<close>

lemma length_array_chunks [simp]: "length (array_chunks csz a n) = n"
  by (simp add: array_chunks_def)

lemma array_chunks_nth [simp]: "i < n \<Longrightarrow> array_chunks csz a n ! i = a + of_nat i * csz"
  by (simp add: array_chunks_def)

lemma unat_array_block:
  "n * unat csz < 2 ^ 64 \<Longrightarrow> unat (of_nat n * csz :: size_t) = n * unat csz"
proof (cases "csz = 0")
  case False
  assume b: "n * unat csz < 2 ^ 64"
  from False have "1 \<le> unat csz" by (metis One_nat_def Suc_leI neq0_conv unat_eq_zero)
  then have "n * 1 \<le> n * unat csz" by (rule mult_le_mono2)
  with b have "n < 2 ^ 64" by linarith
  then have "unat (of_nat n :: size_t) = n" by (simp add: unat_of_nat)
  with b show ?thesis by (simp add: unat_mult_less)
qed simp

lemma chunk_cell:
  assumes "heap_wf h" "(a, of_nat n * csz) \<in> set (live h)" "n * unat csz < 2 ^ 64" "i < n"
    "8 dvd unat csz" "csz \<noteq> 0"
  shows "unat (a + of_nat i * csz) = unat a + i * unat csz"
    "within (a + of_nat i * csz) (a, of_nat n * csz)"
    "cell_ok h (a + of_nat i * csz)"
    "accessible h (a + of_nat i * csz) (unat csz)"
    "a + of_nat i * csz \<noteq> 0"
proof -
  let ?k = "i * unat csz"
  have eq: "a + of_nat i * csz = a + of_nat ?k" by simp
  have s: "unat (of_nat n * csz :: size_t) = n * unat csz" by (rule unat_array_block) fact
  have pos: "0 < unat csz" using assms(6) by (metis neq0_conv unat_eq_zero)
  then have ge8: "8 \<le> unat csz" using assms(5) by (auto dest: dvd_imp_le)
  have "Suc i * unat csz \<le> n * unat csz" using assms(4) by (intro mult_le_mono1) simp
  then have le: "?k + unat csz \<le> n * unat csz" by (simp add: add.commute)
  have k: "?k < unat (of_nat n * csz :: size_t)" using le pos s by linarith
  show u: "unat (a + of_nat i * csz) = unat a + ?k"
    unfolding eq by (rule unat_offset[OF assms(1,2) k])
  show "within (a + of_nat i * csz) (a, of_nat n * csz)"
    unfolding eq by (rule within_offset[OF assms(1,2) k])
  show "cell_ok h (a + of_nat i * csz)"
    unfolding eq using assms le ge8 s by (intro cell_ok_offset) auto
  show "accessible h (a + of_nat i * csz) (unat csz)"
    using assms(2) u le s by (auto simp: accessible_def list_ex_iff in_block_def
        intro!: bexI[of _ "(a, of_nat n * csz)"])
  have "a \<noteq> 0" using assms(1,2) heap_wf_block(1) by blast
  then have "0 < unat a" by (metis neq0_conv unat_eq_zero)
  with u show "a + of_nat i * csz \<noteq> 0" by (metis add_gr_0 less_irrefl unsigned_0)
qed

lemma distinct_array_chunks:
  assumes "heap_wf h" "(a, of_nat n * csz) \<in> set (live h)" "n * unat csz < 2 ^ 64"
    "8 dvd unat csz" "csz \<noteq> 0"
  shows "distinct (array_chunks csz a n)"
  unfolding distinct_conv_nth
proof (intro allI impI)
  fix i j assume ij: "i < length (array_chunks csz a n)" "j < length (array_chunks csz a n)" "i \<noteq> j"
  have "0 < unat csz" using assms(5) by (metis neq0_conv unat_eq_zero)
  with ij have "unat a + i * unat csz \<noteq> unat a + j * unat csz" by simp
  moreover have "unat (array_chunks csz a n ! i) = unat a + i * unat csz"
    and "unat (array_chunks csz a n ! j) = unat a + j * unat csz"
    using ij assms by (simp_all add: chunk_cell(1))
  ultimately show "array_chunks csz a n ! i \<noteq> array_chunks csz a n ! j" by metis
qed

lemma array_block_bytes [simp]: "array_block (h\<lparr>bytes := m\<rparr>) csz a n = array_block h csz a n"
  by (simp add: array_block_def)

lemma array_block_cell:
  assumes "array_block h csz a n" "i < n"
  shows "unat (a + of_nat i * csz) = unat a + i * unat csz"
    "within (a + of_nat i * csz) (a, of_nat n * csz)"
    "cell_ok h (a + of_nat i * csz)" "accessible h (a + of_nat i * csz) (unat csz)"
    "a + of_nat i * csz \<noteq> 0"
  using assms chunk_cell[of h a n csz i] by (auto simp: array_block_def)

lemma array_block_size:
  assumes "array_block h csz a n"
  shows "n < 2 ^ 64"
proof -
  from assms have "1 \<le> unat csz" and b: "n * unat csz < 2 ^ 64"
    by (auto simp: array_block_def Suc_le_eq unat_gt_0)
  then have "n * 1 \<le> n * unat csz" by (intro mult_le_mono2)
  with b show ?thesis by linarith
qed

lemma array_block_aligned: "array_block h csz a n \<Longrightarrow> list_all aligned (array_chunks csz a n)"
  by (auto simp: list_all_iff array_chunks_def dest: array_block_cell(3))

lemma array_block_distinct: "array_block h csz a n \<Longrightarrow> distinct (array_chunks csz a n)"
  unfolding array_block_def by (blast intro: distinct_array_chunks)

lemma array_block_nonnull: "array_block h csz a n \<Longrightarrow> 0 \<notin> set (array_chunks csz a n)"
  by (auto simp: array_chunks_def dest: array_block_cell(5))

lemma array_chunks_Nil [simp]: "array_chunks csz a n = [] \<longleftrightarrow> n = 0"
  by (simp add: array_chunks_def)

lemma hd_array_chunks: "0 < n \<Longrightarrow> hd (array_chunks csz a n) = a"
  by (simp add: array_chunks_def hd_map)

lemma link_chunks_link:
  assumes "array_block h csz a n" "i < n"
  shows "\<exists>m. link_chunks h a csz (of_nat i) (of_nat (n - 1)) = Some (h\<lparr>bytes := m\<rparr>)
    \<and> (\<forall>l. wr64 m (a + of_nat (n - 1) * csz) l
           = link wr64 (bytes h) (drop i (array_chunks csz a n)) l)"
  using assms
proof (induction "n - 1 - i" arbitrary: h i)
  case 0
  then have i: "i = n - 1" and n: "0 < n" by simp_all
  then have "drop i (array_chunks csz a n) = [a + of_nat (n - 1) * csz]"
    by (subst Cons_nth_drop_Suc[symmetric]) auto
  then show ?case by (intro exI[of _ "bytes h"], subst link_chunks.simps) (simp add: i)
next
  case (Suc k)
  then have i: "Suc i < n" by simp
  have n: "n < 2 ^ 64" using Suc.prems(1) by (rule array_block_size)
  have lt: "(of_nat i :: size_t) < of_nat (n - 1)"
    using i n by (intro of_nat_less_word) auto
  let ?c = "a + of_nat i * csz" and ?d = "a + of_nat (Suc i) * csz"
  have ok: "cell_ok h ?c" using Suc.prems by (rule array_block_cell(3))
  let ?h = "h\<lparr>bytes := wr64 (bytes h) ?c ?d\<rparr>"
  have step: "link_chunks h a csz (of_nat i) (of_nat (n - 1))
      = link_chunks ?h a csz (of_nat (Suc i)) (of_nat (n - 1))"
    using lt ok by (subst link_chunks.simps) (simp add: add.commute)
  have "k = n - 1 - Suc i" using Suc.hyps(2) by simp
  then obtain m where m: "link_chunks ?h a csz (of_nat (Suc i)) (of_nat (n - 1)) = Some (?h\<lparr>bytes := m\<rparr>)"
    and l: "\<forall>l. wr64 m (a + of_nat (n - 1) * csz) l
           = link wr64 (bytes ?h) (drop (Suc i) (array_chunks csz a n)) l"
    using Suc.hyps(1)[of "Suc i" ?h] Suc.prems i by auto
  have "drop i (array_chunks csz a n) = ?c # ?d # drop (Suc (Suc i)) (array_chunks csz a n)"
    and "drop (Suc i) (array_chunks csz a n) = ?d # drop (Suc (Suc i)) (array_chunks csz a n)"
    using i by (simp_all add: Cons_nth_drop_Suc[symmetric] del: of_nat_Suc)
  with m l step show ?case by (intro exI[of _ m]) simp
qed

lemma link_extra_link_chunks:
  assumes "array_block h csz a n" "i < n"
    and "cell_ok h (Pool_chunk_sz pool)" "rd64 (bytes h) (Pool_chunk_sz pool) = csz"
    and "Pool_chunk_sz pool \<notin> set (array_chunks csz a n)"
  shows "link_extra h pool a (of_nat i) (of_nat (n - 1))
    = link_chunks h a csz (of_nat i) (of_nat (n - 1))"
  using assms
proof (induction "n - 1 - i" arbitrary: h i)
  case 0
  then have "i = n - 1" by simp
  then show ?case by (subst link_chunks.simps, subst link_extra.simps) simp
next
  case (Suc k)
  then have i: "Suc i < n" by simp
  have n: "n < 2 ^ 64" using Suc.prems(1) by (rule array_block_size)
  have lt: "(of_nat i :: size_t) < of_nat (n - 1)"
    using i n by (intro of_nat_less_word) auto
  let ?c = "a + of_nat i * csz" and ?d = "a + of_nat (Suc i) * csz"
  have ok: "cell_ok h ?c" using Suc.prems(1,2) by (rule array_block_cell(3))
  let ?h = "h\<lparr>bytes := wr64 (bytes h) ?c ?d\<rparr>"
  have "?c \<in> set (array_chunks csz a n)" using Suc.prems(2) by (auto simp: array_chunks_def)
  with Suc.prems(5) have "?c \<noteq> Pool_chunk_sz pool" by metis
  then have "rd64 (bytes ?h) (Pool_chunk_sz pool) = csz"
    using Suc.prems(3,4) rd64_wr64_other[OF cell_ok_aligned[OF ok] cell_ok_aligned] by simp
  moreover have "k = n - 1 - Suc i" using Suc.hyps(2) by simp
  ultimately have "link_extra ?h pool a (of_nat (Suc i)) (of_nat (n - 1))
      = link_chunks ?h a csz (of_nat (Suc i)) (of_nat (n - 1))"
    using Suc.hyps(1)[of "Suc i" ?h] Suc.prems i by simp
  then show ?case
    using lt ok Suc.prems(3,4)
    by (subst link_chunks.simps, subst link_extra.simps) (simp add: add.commute)
qed

section \<open>The representation of a pool\<close>

lemma pool_bases:
  "map fst (pool_blocks pool V) = pool # map fst (v_arrays V) @ map (fst \<circ> snd) (v_arrays V)"
  by (auto simp: pool_blocks_def)

lemma pool_rep_blocks:
  assumes "pool_rep h pool V"
  shows "heap_wf h" "(pool, v_pool_sz V) \<in> set (live h)"
    "(s, a, n) \<in> set (v_arrays V) \<Longrightarrow> (s, sizeof_ArrayStart) \<in> set (live h)"
    "(s, a, n) \<in> set (v_arrays V) \<Longrightarrow> (a, of_nat n * v_chunk_sz V) \<in> set (live h)"
proof -
  from assms have sub: "set (pool_blocks pool V) \<subseteq> set (live h)" and "heap_wf h"
    by (auto simp: pool_rep_def)
  then show "heap_wf h" by simp
  show "(pool, v_pool_sz V) \<in> set (live h)" using sub by (auto simp: pool_blocks_def)
  show "(s, a, n) \<in> set (v_arrays V) \<Longrightarrow> (s, sizeof_ArrayStart) \<in> set (live h)"
    using sub by (force simp: pool_blocks_def)
  show "(s, a, n) \<in> set (v_arrays V) \<Longrightarrow> (a, of_nat n * v_chunk_sz V) \<in> set (live h)"
    using sub by (force simp: pool_blocks_def)
qed

lemma pool_rep_bases:
  assumes "pool_rep h pool V" "(s, a, n) \<in> set (v_arrays V)"
  shows "pool \<noteq> s" "pool \<noteq> a"
    "(s', a', n') \<in> set (v_arrays V) \<Longrightarrow> s' \<noteq> a"
    "(s', a', n') \<in> set (v_arrays V) \<Longrightarrow> (s', a', n') \<noteq> (s, a, n) \<Longrightarrow> a' \<noteq> a \<and> s' \<noteq> s"
proof -
  from assms(1) have d: "distinct (pool # map fst (v_arrays V) @ map (fst \<circ> snd) (v_arrays V))"
    by (simp add: pool_rep_def flip: pool_bases)
  have mem: "s \<in> fst ` set (v_arrays V)" "a \<in> (fst \<circ> snd) ` set (v_arrays V)"
    using assms(2) by (auto intro: rev_image_eqI)
  from d have "pool \<notin> fst ` set (v_arrays V)" "pool \<notin> (fst \<circ> snd) ` set (v_arrays V)" by simp_all
  with mem show "pool \<noteq> s" "pool \<noteq> a" by metis+
  show "s' \<noteq> a" if "(s', a', n') \<in> set (v_arrays V)"
  proof -
    from that have "s' \<in> fst ` set (v_arrays V)" by (auto intro: rev_image_eqI)
    moreover from d have "fst ` set (v_arrays V) \<inter> (fst \<circ> snd) ` set (v_arrays V) = {}" by simp
    ultimately show ?thesis using mem(2) by blast
  qed
  assume "(s', a', n') \<in> set (v_arrays V)" "(s', a', n') \<noteq> (s, a, n)"
  moreover from d have "inj_on fst (set (v_arrays V))" "inj_on (fst \<circ> snd) (set (v_arrays V))"
    by (auto simp: distinct_map)
  ultimately show "a' \<noteq> a \<and> s' \<noteq> s"
    using assms(2) by (metis comp_apply fst_conv inj_onD snd_conv)
qed

lemma pool_rep_array_block:
  assumes "pool_rep h pool V" "(s, a, n) \<in> set (v_arrays V)"
  shows "array_block h (v_chunk_sz V) a n"
proof -
  from assms have "array_ok h (v_chunk_sz V) (s, a, n)"
    by (auto simp: pool_rep_def list_all_iff)
  with assms pool_rep_blocks(1,4)[OF assms(1)] show ?thesis
    by (auto simp: pool_rep_def array_block_def array_ok_def)
qed

lemma pool_rep_pool_sz: "pool_rep h pool V \<Longrightarrow> 24 \<le> unat (v_pool_sz V)" "pool_rep h pool V \<Longrightarrow> 8 dvd unat (v_pool_sz V)"
  by (simp_all add: pool_rep_def sizeof_Pool_def)

lemma pool_rep_pool_cells:
  assumes "pool_rep h pool V"
  shows "cell_ok h (Pool_free_chunk pool)" "cell_ok h (Pool_array_starts pool)"
    "cell_ok h (Pool_chunk_sz pool)"
  using cell_ok_offset[OF pool_rep_blocks(1,2)[OF assms], of 0]
    cell_ok_offset[OF pool_rep_blocks(1,2)[OF assms], of 8]
    cell_ok_offset[OF pool_rep_blocks(1,2)[OF assms], of 16] pool_rep_pool_sz[OF assms]
  by (simp_all add: field_defs)

lemma pool_rep_start_cells:
  assumes "pool_rep h pool V" "(s, a, n) \<in> set (v_arrays V)"
  shows "cell_ok h (ArrayStart_next s)" "cell_ok h (ArrayStart_arr s)"
  using cell_ok_offset[OF pool_rep_blocks(1,3)[OF assms(1)] , of s a n 0] assms(2)
    cell_ok_offset[OF pool_rep_blocks(1,3)[OF assms(1)], of s a n 8]
  by (simp_all add: field_defs sizeof_ArrayStart_def)

lemma all_chunksE:
  assumes "c \<in> set (all_chunks V)"
  obtains s a n i where "(s, a, n) \<in> set (v_arrays V)" "i < n" "c = a + of_nat i * v_chunk_sz V"
  using assms by (auto simp: all_chunks_def array_chunks_def)

lemma all_chunksI:
  "(s, a, n) \<in> set (v_arrays V) \<Longrightarrow> i < n \<Longrightarrow> a + of_nat i * v_chunk_sz V \<in> set (all_chunks V)"
  by (force simp: all_chunks_def array_chunks_def)

lemma pool_rep_chunk:
  assumes "pool_rep h pool V" "c \<in> set (all_chunks V)"
  shows "cell_ok h c" "accessible h c (unat (v_chunk_sz V))" "c \<noteq> 0"
  using assms(2) array_block_cell[OF pool_rep_array_block[OF assms(1)]]
  by (auto elim!: all_chunksE)

lemma pool_field_within:
  assumes "pool_rep h pool V" "p \<in> {Pool_free_chunk pool, Pool_array_starts pool, Pool_chunk_sz pool}"
  shows "within p (pool, v_pool_sz V)"
  using assms(2) within_offset[OF pool_rep_blocks(1,2)[OF assms(1)], of 8]
    within_offset[OF pool_rep_blocks(1,2)[OF assms(1)], of 16] pool_rep_pool_sz[OF assms(1)]
  by (auto simp: field_defs within_base)

lemma start_field_within:
  assumes "pool_rep h pool V" "(s, a, n) \<in> set (v_arrays V)"
  shows "within (ArrayStart_next s) (s, sizeof_ArrayStart)"
    "within (ArrayStart_arr s) (s, sizeof_ArrayStart)"
  using within_offset[OF pool_rep_blocks(1,3)[OF assms(1)], of s a n 8] assms(2)
  by (auto simp: field_defs sizeof_ArrayStart_def within_base)

lemma pool_field_not_start:
  assumes "pool_rep h pool V" "x \<in> set (v_arrays V)"
    "p \<in> {Pool_free_chunk pool, Pool_array_starts pool, Pool_chunk_sz pool}"
  shows "p \<noteq> fst x" "p \<noteq> ArrayStart_arr (fst x)"
proof -
  obtain s a n where x: "x = (s, a, n)" by (cases x)
  with assms(2) have sa: "(s, a, n) \<in> set (v_arrays V)" by simp
  note ne = within_neq[OF pool_rep_blocks(1,2)[OF assms(1)] pool_rep_blocks(3)[OF assms(1) sa]
      pool_rep_bases(1)[OF assms(1) sa] pool_field_within[OF assms(1,3)]]
  show "p \<noteq> fst x" "p \<noteq> ArrayStart_arr (fst x)"
    using ne[OF start_field_within(1)[OF assms(1) sa]] ne[OF start_field_within(2)[OF assms(1) sa]]
    by (simp_all add: x ArrayStart_next_def)
qed

lemma free_chunk_not_meta:
  assumes "pool_rep h pool V"
  shows "Pool_free_chunk pool \<notin> meta_cells pool V"
proof -
  have "\<forall>x \<in> set (v_arrays V). Pool_free_chunk pool \<noteq> fst x
      \<and> Pool_free_chunk pool \<noteq> ArrayStart_arr (fst x)"
    using pool_field_not_start[OF assms] by blast
  moreover have "Pool_free_chunk pool \<noteq> Pool_array_starts pool \<and> Pool_free_chunk pool \<noteq> Pool_chunk_sz pool"
    by (simp add: field_defs)
  ultimately show ?thesis by (auto simp: meta_cells_def)
qed

lemma chunk_not_cell:
  assumes "pool_rep h pool V" "c \<in> set (all_chunks V)"
  shows "c \<noteq> Pool_free_chunk pool" "c \<notin> meta_cells pool V"
proof -
  from assms(2) obtain s a n i where sa: "(s, a, n) \<in> set (v_arrays V)" and "i < n"
    and "c = a + of_nat i * v_chunk_sz V" by (rule all_chunksE)
  then have wc: "within c (a, of_nat n * v_chunk_sz V)"
    using array_block_cell(2)[OF pool_rep_array_block[OF assms(1) sa]] by simp
  note ne = within_neq[OF pool_rep_blocks(1)[OF assms(1)] pool_rep_blocks(4)[OF assms(1) sa] _ _ wc]
  have pf: "c \<noteq> p" if "p \<in> {Pool_free_chunk pool, Pool_array_starts pool, Pool_chunk_sz pool}" for p
    using ne[OF pool_rep_blocks(2)[OF assms(1)] _ pool_field_within[OF assms(1) that]]
      pool_rep_bases(2)[OF assms(1) sa] by blast
  have sf: "c \<noteq> ArrayStart_next s' \<and> c \<noteq> ArrayStart_arr s'" if "(s', a', n') \<in> set (v_arrays V)"
    for s' a' n'
    using ne[OF pool_rep_blocks(3)[OF assms(1) that]] start_field_within[OF assms(1) that]
      pool_rep_bases(3)[OF assms(1) sa that] by blast
  show "c \<noteq> Pool_free_chunk pool" using pf by simp
  from sf have "\<forall>x \<in> set (v_arrays V). c \<noteq> fst x \<and> c \<noteq> ArrayStart_arr (fst x)"
    unfolding ArrayStart_next_def by (metis prod.collapse)
  with pf show "c \<notin> meta_cells pool V" by (auto simp: meta_cells_def)
qed

lemma meta_cells_aligned:
  assumes "pool_rep h pool V" "p \<in> meta_cells pool V"
  shows "aligned p"
proof -
  have "aligned (fst x) \<and> aligned (ArrayStart_arr (fst x))" if "x \<in> set (v_arrays V)" for x
    using pool_rep_start_cells[OF assms(1), of "fst x" "fst (snd x)" "snd (snd x)"] that
    by (auto simp: ArrayStart_next_def)
  with assms(2) pool_rep_pool_cells[OF assms(1)] show ?thesis
    by (auto simp: meta_cells_def)
qed

lemma pool_rep_free:
  assumes "pool_rep h pool V"
  shows "set (v_free V) \<subseteq> set (all_chunks V)" "list_all aligned (v_free V)"
    "chain (rd64 (bytes h)) (rd64 (bytes h) (Pool_free_chunk pool)) (v_free V)"
    "distinct (v_free V)"
proof -
  show sub: "set (v_free V) \<subseteq> set (all_chunks V)"
    and ch: "chain (rd64 (bytes h)) (rd64 (bytes h) (Pool_free_chunk pool)) (v_free V)"
    using assms by (auto simp: pool_rep_def)
  show "list_all aligned (v_free V)"
    using sub pool_rep_chunk(1)[OF assms] by (auto simp: list_all_iff)
  show "distinct (v_free V)" using ch by (rule chain_distinct)
qed

text \<open>Any change of the bytes that keeps the other cells only replaces the free list.\<close>

lemma pool_rep_update:
  assumes rep: "pool_rep h pool V"
    and meta: "\<And>p. p \<in> meta_cells pool V \<Longrightarrow> rd64 m p = rd64 (bytes h) p"
    and free: "chain (rd64 m) (rd64 m (Pool_free_chunk pool)) fs" "set fs \<subseteq> set (all_chunks V)"
  shows "pool_rep (h\<lparr>bytes := m\<rparr>) pool (V\<lparr>v_free := fs\<rparr>)"
proof -
  have "rd64 m (ArrayStart_arr (fst x)) = rd64 (bytes h) (ArrayStart_arr (fst x))"
    if "x \<in> set (v_arrays V)" for x
    using that by (intro meta) (simp add: meta_cells_def)
  then have "\<forall>x \<in> set (v_arrays V). array_ok (h\<lparr>bytes := m\<rparr>) (v_chunk_sz V) x = array_ok h (v_chunk_sz V) x"
    by (simp add: array_ok_def case_prod_beta)
  then have "list_all (array_ok (h\<lparr>bytes := m\<rparr>) (v_chunk_sz V)) (v_arrays V)"
    using rep by (simp add: pool_rep_def list_all_iff)
  moreover have "chain (rd64 m) p (map fst (v_arrays V)) = chain (rd64 (bytes h)) p (map fst (v_arrays V))"
    for p by (rule chain_cong) (auto simp: meta meta_cells_def)
  moreover have "rd64 m (Pool_array_starts pool) = rd64 (bytes h) (Pool_array_starts pool)"
    "rd64 m (Pool_chunk_sz pool) = rd64 (bytes h) (Pool_chunk_sz pool)"
    by (auto intro!: meta simp: meta_cells_def)
  ultimately show ?thesis using rep free
    by (simp add: pool_rep_def pool_blocks_def all_chunks_def)
qed

section \<open>Chunks do not overlap\<close>

lemma far_sym: "far p n q k \<longleftrightarrow> far q k p n"
  by (auto simp: far_def)

lemma far_mono: "far p n q k \<Longrightarrow> n' \<le> n \<Longrightarrow> k' \<le> k \<Longrightarrow> far p n' q k'"
  by (auto simp: far_def)

lemma chunk_in_block:
  assumes "array_block h csz a n" "i < n"
  shows "in_block (a + of_nat i * csz) (unat csz) (a, of_nat n * csz)"
proof -
  have "Suc i * unat csz \<le> n * unat csz" using assms(2) by (intro mult_le_mono1) simp
  moreover have "unat (of_nat n * csz) = n * unat csz"
    using assms(1) by (intro unat_array_block) (simp add: array_block_def)
  ultimately show ?thesis
    using array_block_cell(1)[OF assms] by (simp add: in_block_def)
qed

lemma field_in_block:
  assumes "pool_rep h pool V"
    "q \<in> insert (Pool_free_chunk pool) (meta_cells pool V)"
  obtains b s where "(b, s) \<in> set (live h)" "in_block q 8 (b, s)"
    "\<And>s' a n. (s', a, n) \<in> set (v_arrays V) \<Longrightarrow> b \<noteq> a"
proof -
  have wf: "heap_wf h" using assms(1) by (rule pool_rep_blocks(1))
  from assms(2) consider
      (pool) "q \<in> {Pool_free_chunk pool, Pool_array_starts pool, Pool_chunk_sz pool}"
    | (start) s a n where "(s, a, n) \<in> set (v_arrays V)" "q \<in> {ArrayStart_next s, ArrayStart_arr s}"
    by (auto simp: meta_cells_def ArrayStart_next_def)
  then show thesis
  proof cases
    case pool
    with assms(1) have "in_block q 8 (pool, v_pool_sz V)"
      using pool_rep_pool_cells[OF assms(1)] pool_field_within[OF assms(1)]
      by (intro in_block_of_within[OF wf pool_rep_blocks(2)]) (auto simp: pool_rep_pool_sz(2))
    then show thesis
      using that pool_rep_blocks(2)[OF assms(1)] pool_rep_bases(2)[OF assms(1)] by blast
  next
    case start
    then have "in_block q 8 (s, sizeof_ArrayStart)"
      using pool_rep_start_cells[OF assms(1) start(1)] start_field_within[OF assms(1) start(1)]
      by (intro in_block_of_within[OF wf pool_rep_blocks(3)[OF assms(1) start(1)]])
         (auto simp: sizeof_ArrayStart_def)
    then show thesis
      using that start(1) pool_rep_blocks(3)[OF assms(1)] pool_rep_bases(3)[OF assms(1)] by blast
  qed
qed

lemma chunk_far_field:
  assumes "pool_rep h pool V" "c \<in> set (all_chunks V)"
    "q \<in> insert (Pool_free_chunk pool) (meta_cells pool V)"
  shows "far c (unat (v_chunk_sz V)) q 8"
proof -
  from assms(2) obtain s a n i where sa: "(s, a, n) \<in> set (v_arrays V)" "i < n"
    and c: "c = a + of_nat i * v_chunk_sz V" by (rule all_chunksE)
  from assms(1,3) obtain b s' where b: "(b, s') \<in> set (live h)" "in_block q 8 (b, s')"
    and ne: "\<And>s' a n. (s', a, n) \<in> set (v_arrays V) \<Longrightarrow> b \<noteq> a"
    by (rule field_in_block) blast
  from ne[OF sa(1)] have "a \<noteq> b" by simp
  with b show ?thesis unfolding c
    by (intro far_blocks[OF pool_rep_blocks(1)[OF assms(1)] pool_rep_blocks(4)[OF assms(1) sa(1)]]
        chunk_in_block[OF pool_rep_array_block[OF assms(1) sa(1)] sa(2)])
qed

lemma chunk_far_same_array:
  assumes "array_block h csz a n" "i < n" "j < n" "i \<noteq> j"
  shows "far (a + of_nat i * csz) (unat csz) (a + of_nat j * csz) (unat csz)"
proof -
  have "i * unat csz + unat csz \<le> j * unat csz \<or> j * unat csz + unat csz \<le> i * unat csz"
  proof (cases "i < j")
    case True
    then have "Suc i * unat csz \<le> j * unat csz" by (intro mult_le_mono1) simp
    then show ?thesis by (simp add: add.commute)
  next
    case False
    with assms(4) have "Suc j * unat csz \<le> i * unat csz" by (intro mult_le_mono1) simp
    then show ?thesis by (simp add: add.commute)
  qed
  moreover have "unat a + unat (of_nat n * csz) \<le> 2 ^ 64"
    using assms(1) unfolding array_block_def by (blast intro: heap_wf_block(4))
  moreover have "unat (a + of_nat i * csz) + unat csz \<le> unat a + unat (of_nat n * csz)"
    "unat (a + of_nat j * csz) + unat csz \<le> unat a + unat (of_nat n * csz)"
    using chunk_in_block[OF assms(1,2)] chunk_in_block[OF assms(1,3)]
    by (simp_all add: in_block_def)
  ultimately show ?thesis
    unfolding far_def array_block_cell(1)[OF assms(1,2)] array_block_cell(1)[OF assms(1,3)]
    by linarith
qed

lemma chunk_far_chunk:
  assumes "pool_rep h pool V" "c \<in> set (all_chunks V)" "d \<in> set (all_chunks V)" "c \<noteq> d"
  shows "far c (unat (v_chunk_sz V)) d (unat (v_chunk_sz V))"
proof -
  from assms(2) obtain s a n i where sa: "(s, a, n) \<in> set (v_arrays V)" "i < n"
    and c: "c = a + of_nat i * v_chunk_sz V" by (rule all_chunksE)
  from assms(3) obtain s' a' n' j where sa': "(s', a', n') \<in> set (v_arrays V)" "j < n'"
    and d: "d = a' + of_nat j * v_chunk_sz V" by (rule all_chunksE)
  show ?thesis
  proof (cases "(s, a, n) = (s', a', n')")
    case True
    with assms(4) sa sa' c d show ?thesis
      by (auto intro!: chunk_far_same_array pool_rep_array_block[OF assms(1)])
  next
    case False
    then have "a \<noteq> a'" using pool_rep_bases(4)[OF assms(1) sa'(1) sa(1)] by blast
    then show ?thesis unfolding c d
      by (intro far_blocks[OF pool_rep_blocks(1)[OF assms(1)] pool_rep_blocks(4)[OF assms(1) sa(1)]
            pool_rep_blocks(4)[OF assms(1) sa'(1)]]
          chunk_in_block[OF pool_rep_array_block[OF assms(1) sa(1)] sa(2)]
          chunk_in_block[OF pool_rep_array_block[OF assms(1) sa'(1)] sa'(2)])
  qed
qed

lemma chunk_data_write_far:
  "far p (length bs) c (unat csz) \<Longrightarrow>
   chunk_data (h\<lparr>bytes := write_bytes m p bs\<rparr>) csz c = chunk_data (h\<lparr>bytes := m\<rparr>) csz c"
  by (auto simp: chunk_data_def write_bytes_far)

lemma chunk_data_wr64_far:
  "far p 8 c (unat csz) \<Longrightarrow>
   chunk_data (h\<lparr>bytes := wr64 m p v\<rparr>) csz c = chunk_data (h\<lparr>bytes := m\<rparr>) csz c"
  unfolding wr64_def by (rule chunk_data_write_far) simp

lemma pool_rep_chunk_size: "pool_rep h pool V \<Longrightarrow> 8 \<le> unat (v_chunk_sz V)"
  by (auto simp: pool_rep_def dest!: dvd_imp_le intro: unat_gt_0[THEN iffD2])

section \<open>Cells of a pool and blocks outside it\<close>

lemma cell_in_pool_block:
  assumes "pool_rep h pool V"
    "q \<in> insert (Pool_free_chunk pool) (meta_cells pool V) \<union> set (all_chunks V)"
  obtains B where "B \<in> set (pool_blocks pool V)" "within q B"
proof -
  from assms(2) consider
      (pool) "q \<in> {Pool_free_chunk pool, Pool_array_starts pool, Pool_chunk_sz pool}"
    | (start) s a n where "(s, a, n) \<in> set (v_arrays V)" "q \<in> {ArrayStart_next s, ArrayStart_arr s}"
    | (chunk) "q \<in> set (all_chunks V)"
    by (auto simp: meta_cells_def ArrayStart_next_def)
  then show thesis
  proof cases
    case pool
    show thesis
      by (rule that[OF _ pool_field_within[OF assms(1) pool]]) (simp add: pool_blocks_def)
  next
    case start
    from start(1) have "(s, sizeof_ArrayStart) \<in> set (pool_blocks pool V)"
      by (force simp: pool_blocks_def)
    then show thesis using start start_field_within[OF assms(1)] that by blast
  next
    case chunk
    then obtain s a n i where x: "(s, a, n) \<in> set (v_arrays V)" "i < n"
      and q: "q = a + of_nat i * v_chunk_sz V" by (rule all_chunksE)
    from x(1) have "(a, of_nat n * v_chunk_sz V) \<in> set (pool_blocks pool V)"
      by (force simp: pool_blocks_def)
    then show thesis
      using that array_block_cell(2)[OF pool_rep_array_block[OF assms(1) x(1)] x(2)] q by simp
  qed
qed

lemma cell_not_within_other:
  assumes "pool_rep h pool V"
    "q \<in> insert (Pool_free_chunk pool) (meta_cells pool V) \<union> set (all_chunks V)"
    "(b, s) \<in> set (live h)" "b \<notin> fst ` set (pool_blocks pool V)" "within p (b, s)"
  shows "q \<noteq> p"
proof -
  obtain B where B: "B \<in> set (pool_blocks pool V)" "within q B"
    using assms(1,2) by (rule cell_in_pool_block)
  obtain b' s' where B': "B = (b', s')" by (cases B)
  have "(b', s') \<in> set (live h)" using assms(1) B(1) B' by (auto simp: pool_rep_def)
  moreover have "b' \<noteq> b" using assms(4) B(1) B' by force
  ultimately show ?thesis
    using within_neq[OF pool_rep_blocks(1)[OF assms(1)] _ assms(3)] B(2) B' assms(5) by blast
qed

lemma pool_rep_more_blocks:
  assumes "pool_rep h pool V" "heap_wf h'" "bytes h' = bytes h" "set (live h) \<subseteq> set (live h')"
  shows "pool_rep h' pool V"
proof -
  have "array_ok h' csz x = array_ok h csz x" for csz x
    using assms(3) by (simp add: array_ok_def)
  then have "list_all (array_ok h' (v_chunk_sz V)) (v_arrays V)
      = list_all (array_ok h (v_chunk_sz V)) (v_arrays V)" by (simp add: list_all_iff)
  with assms show ?thesis by (auto simp: pool_rep_def)
qed

end
