(* ===== verification/Pool_Ops.thy ===== *)
theory Pool_Ops
  imports Pool_Rep
begin

text \<open>
  Correctness of the libpool operations (\<^verbatim>\<open>common/src/libpool.c\<close>) over the representation of
  theory \<open>Pool_Rep\<close>.
\<close>

section \<open>Definitions\<close>

text \<open>The view of a pool that \<^verbatim>\<open>pool_new\<close> has just built: every chunk is free, in address order.\<close>

definition new_view :: "ptr \<Rightarrow> ptr \<Rightarrow> nat \<Rightarrow> size_t \<Rightarrow> pool_view" where
  "new_view start arr n csz =
     \<lparr>v_free = array_chunks csz arr n, v_arrays = [(start, arr, n)], v_chunk_sz = csz, v_pool_sz = sizeof_Pool\<rparr>"

text \<open>The contents of every block allocated in \<open>h\<close> are the same in \<open>h'\<close>.\<close>

definition undisturbed :: "heap \<Rightarrow> heap \<Rightarrow> bool" where
  "undisturbed h h' \<longleftrightarrow> list_all (\<lambda>B. block_data (bytes h') B = block_data (bytes h) B) (live h)"

text \<open>The blocks that remain after those based at \<open>ps\<close> are freed.\<close>

definition drop_blocks :: "ptr set \<Rightarrow> (ptr \<times> size_t) list \<Rightarrow> (ptr \<times> size_t) list" where
  "drop_blocks ps bs = filter (\<lambda>B. fst B \<notin> ps) bs"

section \<open>Allocating and freeing a chunk\<close>

lemma pool_rep_nonnull: "pool_rep h pool V \<Longrightarrow> pool \<noteq> 0"
  using pool_rep_blocks(1,2) heap_wf_block(1) by blast

lemma pool_alloc_empty:
  assumes "pool_rep h pool V" "v_free V = []"
  shows "pool_alloc h pool = Some (0, h)"
proof -
  have "rd64 (bytes h) (Pool_free_chunk pool) = 0"
    using pool_rep_free(3)[OF assms(1)] assms(2) by simp
  then show ?thesis
    using pool_rep_nonnull[OF assms(1)] pool_rep_pool_cells[OF assms(1)]
    by (simp add: pool_alloc_def)
qed

lemma pool_alloc_Cons:
  assumes rep: "pool_rep h pool V" and fs: "v_free V = c # fs"
  defines "h' \<equiv> h\<lparr>bytes := wr64 (bytes h) (Pool_free_chunk pool) (rd64 (bytes h) c)\<rparr>"
  shows "pool_alloc h pool = Some (c, h')" "pool_rep h' pool (V\<lparr>v_free := fs\<rparr>)"
proof -
  have ch: "rd64 (bytes h) (Pool_free_chunk pool) = c" "c \<noteq> 0"
    "chain (rd64 (bytes h)) (rd64 (bytes h) c) fs"
    using pool_rep_free(3)[OF rep] fs by auto
  have c: "set (c # fs) \<subseteq> set (all_chunks V)" using pool_rep_free(1)[OF rep] fs by simp
  have al: "aligned (Pool_free_chunk pool)" using pool_rep_pool_cells[OF rep] by blast
  show "pool_alloc h pool = Some (c, h')"
    using c ch pool_rep_nonnull[OF rep] pool_rep_pool_cells[OF rep] pool_rep_chunk(1)[OF rep]
    by (simp add: pool_alloc_def h'_def)
  show "pool_rep h' pool (V\<lparr>v_free := fs\<rparr>)" unfolding h'_def
  proof (rule pool_rep_update[OF rep])
    show "rd64 (wr64 (bytes h) (Pool_free_chunk pool) (rd64 (bytes h) c)) p = rd64 (bytes h) p"
      if "p \<in> meta_cells pool V" for p
      using that free_chunk_not_meta[OF rep] meta_cells_aligned[OF rep that] al
      by (intro rd64_wr64_other) auto
    have "chain (rd64 (wr64 (bytes h) (Pool_free_chunk pool) (rd64 (bytes h) c))) (rd64 (bytes h) c) fs"
      using ch(3) al pool_rep_free(2)[OF rep] fs c chunk_not_cell(1)[OF rep]
      by (subst byte_mem.chain_wr_other) auto
    then show "chain (rd64 (wr64 (bytes h) (Pool_free_chunk pool) (rd64 (bytes h) c)))
        (rd64 (wr64 (bytes h) (Pool_free_chunk pool) (rd64 (bytes h) c)) (Pool_free_chunk pool)) fs"
      by (simp add: rd64_wr64_same)
    show "set fs \<subseteq> set (all_chunks V)" using c by simp
  qed
qed

lemma pool_free_used:
  assumes rep: "pool_rep h pool V" and c: "c \<in> used_chunks V"
  defines "m \<equiv> wr64 (bytes h) c (rd64 (bytes h) (Pool_free_chunk pool))"
  defines "h' \<equiv> h\<lparr>bytes := wr64 m (Pool_free_chunk pool) c\<rparr>"
  shows "pool_free h pool c = Some h'" "pool_rep h' pool (V\<lparr>v_free := c # v_free V\<rparr>)"
proof -
  have call: "c \<in> set (all_chunks V)" and nf: "c \<notin> set (v_free V)"
    using c by (auto simp: used_chunks_def)
  note cell = pool_rep_chunk[OF rep call] and nc = chunk_not_cell[OF rep call]
  have al: "aligned (Pool_free_chunk pool)" "aligned c"
    using pool_rep_pool_cells[OF rep] cell by blast+
  show "pool_free h pool c = Some h'"
    using cell pool_rep_nonnull[OF rep] pool_rep_pool_cells[OF rep]
    by (simp add: pool_free_def m_def h'_def)
  show "pool_rep h' pool (V\<lparr>v_free := c # v_free V\<rparr>)" unfolding h'_def
  proof (rule pool_rep_update[OF rep])
    show "rd64 (wr64 m (Pool_free_chunk pool) c) p = rd64 (bytes h) p"
      if "p \<in> meta_cells pool V" for p
      using that free_chunk_not_meta[OF rep] meta_cells_aligned[OF rep that] al nc
      unfolding m_def by (subst rd64_wr64_other; (subst rd64_wr64_other)?) auto
    have "chain (rd64 (wr64 m (Pool_free_chunk pool) c))
        (rd64 (bytes h) (Pool_free_chunk pool)) (v_free V)"
      using pool_rep_free[OF rep] al nf chunk_not_cell(1)[OF rep] unfolding m_def
      by (subst byte_mem.chain_wr_other; (subst byte_mem.chain_wr_other)?) auto
    moreover have "rd64 (wr64 m (Pool_free_chunk pool) c) c = rd64 (bytes h) (Pool_free_chunk pool)"
      using al nc unfolding m_def by (subst rd64_wr64_other) (auto simp: rd64_wr64_same)
    ultimately show "chain (rd64 (wr64 m (Pool_free_chunk pool) c))
        (rd64 (wr64 m (Pool_free_chunk pool) c) (Pool_free_chunk pool)) (c # v_free V)"
      using cell(3) by (simp add: rd64_wr64_same)
    show "set (c # v_free V) \<subseteq> set (all_chunks V)"
      using call pool_rep_free(1)[OF rep] by simp
  qed
qed

section \<open>Counting the free chunks\<close>

lemma available_loop_chain:
  assumes "chain (rd64 (bytes h)) p fs" "\<forall>c \<in> set fs. cell_ok h c"
  shows "available_loop h p n = Some (n + of_nat (length fs))"
  using assms
proof (induction fs arbitrary: p n)
  case Nil
  then show ?case by (subst available_loop.simps) simp
next
  case (Cons c fs)
  then show ?case by (subst available_loop.simps) (simp add: add.assoc)
qed

lemma pool_available_length:
  assumes "pool_rep h pool V"
  shows "pool_available h pool = Some (of_nat (length (v_free V)))"
  using available_loop_chain[OF pool_rep_free(3)[OF assms], of 0] pool_rep_free(1)[OF assms]
    pool_rep_chunk(1)[OF assms] pool_rep_pool_cells(1)[OF assms] pool_rep_nonnull[OF assms]
  by (auto simp: pool_available_def)

lemma distinct_ptrs_less: "distinct cs \<Longrightarrow> 0 \<notin> set cs \<Longrightarrow> length cs < 2 ^ 64" for cs :: "ptr list"
proof -
  assume "distinct cs" "0 \<notin> set cs"
  then have "length (0 # cs) = card (set (0 # cs))" by (metis distinct.simps(2) distinct_card)
  also have "\<dots> \<le> CARD(ptr)" by (rule card_mono) auto
  finally show ?thesis by (simp add: card_word)
qed

lemma length_free_less: "pool_rep h pool V \<Longrightarrow> length (v_free V) < 2 ^ 64"
  using pool_rep_free(3,4) chain_nonnull distinct_ptrs_less by blast

section \<open>Data in chunks\<close>

lemma store_buffer_used:
  assumes rep: "pool_rep h pool V" and c: "c \<in> used_chunks V"
    and len: "length bs \<le> unat (v_chunk_sz V)"
  shows "store_buffer h c bs = Some (h\<lparr>bytes := write_bytes (bytes h) c bs\<rparr>)"
    "pool_rep (h\<lparr>bytes := write_bytes (bytes h) c bs\<rparr>) pool V"
proof -
  have call: "c \<in> set (all_chunks V)" and nf: "c \<notin> set (v_free V)"
    using c by (auto simp: used_chunks_def)
  show "store_buffer h c bs = Some (h\<lparr>bytes := write_bytes (bytes h) c bs\<rparr>)"
    using accessible_mono[OF pool_rep_chunk(2)[OF rep call] len] by (simp add: store_buffer_def)
  have field: "rd64 (write_bytes (bytes h) c bs) p = rd64 (bytes h) p"
    if "p \<in> insert (Pool_free_chunk pool) (meta_cells pool V)" for p
    using far_mono[OF chunk_far_field[OF rep call that] len] by (intro rd64_write_bytes_other) simp
  have chunk: "rd64 (write_bytes (bytes h) c bs) d = rd64 (bytes h) d" if "d \<in> set (v_free V)" for d
  proof -
    have "d \<in> set (all_chunks V)" "d \<noteq> c" using that nf pool_rep_free(1)[OF rep] by auto
    then show ?thesis
      using far_mono[OF chunk_far_chunk[OF rep call] len pool_rep_chunk_size[OF rep]]
      by (intro rd64_write_bytes_other) auto
  qed
  have "pool_rep (h\<lparr>bytes := write_bytes (bytes h) c bs\<rparr>) pool (V\<lparr>v_free := v_free V\<rparr>)"
  proof (rule pool_rep_update[OF rep])
    have "chain (rd64 (write_bytes (bytes h) c bs)) p (v_free V) = chain (rd64 (bytes h)) p (v_free V)"
      for p by (rule chain_cong) (rule chunk)
    then show "chain (rd64 (write_bytes (bytes h) c bs))
        (rd64 (write_bytes (bytes h) c bs) (Pool_free_chunk pool)) (v_free V)"
      using pool_rep_free(3)[OF rep] field by simp
  qed (use field pool_rep_free(1)[OF rep] in auto)
  then show "pool_rep (h\<lparr>bytes := write_bytes (bytes h) c bs\<rparr>) pool V" by simp
qed

section \<open>Creating a pool\<close>

lemma call_alloc_cases:
  assumes "ext_ok e" "heap_wf h"
  obtains (null) "call_alloc e h n = Some (0, h)"
  | (block) p where "call_alloc e h n = Some (p, h\<lparr>live := (p, n) # live h\<rparr>)" "p \<noteq> 0"
      "heap_wf (h\<lparr>live := (p, n) # live h\<rparr>)" "p \<notin> fst ` set (live h)"
proof -
  from assms(1) obtain m where m: "pool_ext_alloc e = Some m" "malloc_ok m"
    by (auto simp: ext_ok_def)
  obtain p h' where ph: "ext_alloc m h n = (p, h')" by (cases "ext_alloc m h n")
  show thesis
  proof (cases "p = 0")
    case True
    with ph have "h' = h" by (auto dest: ext_alloc_fail)
    with True ph m show thesis by (intro null) (simp add: call_alloc_def)
  next
    case False
    with heap_wf_alloc[OF m(2) assms(2) ph] ph m show thesis
      by (intro block[of p]) (auto simp: call_alloc_def)
  qed
qed

lemma call_free_live:
  "ext_ok e \<Longrightarrow> (p, s) \<in> set (live h) \<Longrightarrow> p \<noteq> 0 \<Longrightarrow>
   call_free e h p = Some (h\<lparr>live := drop_block p (live h)\<rparr>)"
  by (simp add: call_free_def ext_ok_def ext_free_ok)

text \<open>The pointer cells of a fresh \<^verbatim>\<open>Pool\<close>, a fresh \<^verbatim>\<open>ArrayStart\<close> and a fresh chunk array.\<close>

lemma new_view_plain [simp]: "(new_view start arr n csz)\<lparr>v_pool_sz := sizeof_Pool\<rparr> = new_view start arr n csz"
  by (simp add: new_view_def)

lemma sizeof_Pool_ok: "24 \<le> unat sizeof_Pool" "8 dvd unat sizeof_Pool"
  by (simp_all add: sizeof_Pool_def)

lemma new_cells:
  assumes wf: "heap_wf h" and pool: "(pool, psz) \<in> set (live h)" and psz: "24 \<le> unat psz"
    and start: "(start, sizeof_ArrayStart) \<in> set (live h)"
    and arr: "array_block h csz arr n" and ne: "pool \<noteq> start" "pool \<noteq> arr" "start \<noteq> arr"
  defines "F \<equiv> [Pool_free_chunk pool, Pool_array_starts pool, Pool_chunk_sz pool,
    ArrayStart_next start, ArrayStart_arr start]"
  shows "distinct F" "set F \<inter> set (array_chunks csz arr n) = {}" "\<forall>p \<in> set F. cell_ok h p"
proof -
  have wp: "within p (pool, psz)"
    if "p \<in> {Pool_free_chunk pool, Pool_array_starts pool, Pool_chunk_sz pool}" for p
    using that within_offset[OF wf pool, of 8] within_offset[OF wf pool, of 16] psz
    by (auto simp: field_defs within_base)
  have ws: "within p (start, sizeof_ArrayStart)"
    if "p \<in> {ArrayStart_next start, ArrayStart_arr start}" for p
    using that within_offset[OF wf start, of 8]
    by (auto simp: field_defs sizeof_ArrayStart_def within_base)
  have al: "(arr, of_nat n * csz) \<in> set (live h)" using arr by (simp add: array_block_def)
  have wc: "within c (arr, of_nat n * csz)" if "c \<in> set (array_chunks csz arr n)" for c
    using that array_block_cell(2)[OF arr] by (auto simp: array_chunks_def)
  have "p \<noteq> q" if "p \<in> {Pool_free_chunk pool, Pool_array_starts pool, Pool_chunk_sz pool}"
    "q \<in> {ArrayStart_next start, ArrayStart_arr start}" for p q
    using within_neq[OF wf pool start ne(1)] wp ws that by blast
  then show "distinct F" by (auto simp: F_def field_defs)
  have "p \<noteq> c" if "p \<in> set F" "c \<in> set (array_chunks csz arr n)" for p c
    using within_neq[OF wf pool al ne(2) wp wc[OF that(2)]]
      within_neq[OF wf start al ne(3) ws wc[OF that(2)]] that(1) by (auto simp: F_def)
  then show "set F \<inter> set (array_chunks csz arr n) = {}" by blast
  show "\<forall>p \<in> set F. cell_ok h p"
    using cell_ok_offset[OF wf pool, of 0] cell_ok_offset[OF wf pool, of 8]
      cell_ok_offset[OF wf pool, of 16] cell_ok_offset[OF wf start, of 0]
      cell_ok_offset[OF wf start, of 8] psz
    by (simp add: F_def field_defs sizeof_defs)
qed

lemma distinct5:
  "distinct [a, b, c, d, e] \<Longrightarrow> a \<noteq> b \<and> a \<noteq> c \<and> a \<noteq> d \<and> a \<noteq> e \<and> b \<noteq> c \<and> b \<noteq> d \<and> b \<noteq> e
     \<and> c \<noteq> d \<and> c \<noteq> e \<and> d \<noteq> e \<and> b \<noteq> a \<and> c \<noteq> a \<and> d \<noteq> a \<and> e \<noteq> a \<and> c \<noteq> b \<and> d \<noteq> b \<and> e \<noteq> b
     \<and> d \<noteq> c \<and> e \<noteq> c \<and> e \<noteq> d"
  by auto

lemma block_data_link_other:
  assumes "heap_wf h" "array_block h csz a n" "set cs \<subseteq> set (array_chunks csz a n)"
    and "B \<in> set (live h)" "fst B \<noteq> a"
  shows "block_data (link wr64 m cs l) B = block_data m B"
proof -
  have wr: "block_data (wr64 m' c v) B = block_data m' B" if "c \<in> set (array_chunks csz a n)" for m' c v
  proof -
    from that obtain i where "i < n" and c: "c = a + of_nat i * csz" by (auto simp: array_chunks_def)
    then have "in_block c (unat csz) (a, of_nat n * csz)"
      using chunk_in_block[OF assms(2)] by simp
    moreover have "8 \<le> unat csz"
      using assms(2) by (auto simp: array_block_def dvd_imp_le unat_gt_0)
    ultimately have "in_block c (length (le_bytes 8 v)) (a, of_nat n * csz)"
      by (simp add: in_block_def)
    with assms show ?thesis unfolding wr64_def
      by (intro block_data_write_other[OF assms(1)]) (auto simp: array_block_def)
  qed
  show ?thesis using assms(3)
    by (induction cs arbitrary: m rule: induct_list012) (simp_all add: wr)
qed

lemma block_data_new_field:
  assumes wf: "heap_wf h" and pool: "(pool, psz) \<in> set (live h)" and psz: "24 \<le> unat psz"
    and start: "(start, sizeof_ArrayStart) \<in> set (live h)"
    and B: "B \<in> set (live h)" "fst B \<notin> {pool, start, arr}"
    and p: "p \<in> {Pool_free_chunk pool, Pool_array_starts pool, Pool_chunk_sz pool,
      ArrayStart_next start, ArrayStart_arr start}"
  shows "block_data (wr64 m p v) B = block_data m B"
proof -
  note off = block_data_offset_other[OF wf _ _ B(1), of _ _ _ m v]
  show ?thesis
    using p B(2) off[OF pool, of 0] off[OF pool, of 8] off[OF pool, of 16]
      off[OF start, of 0] off[OF start, of 8] psz
    by (auto simp: field_defs sizeof_defs)
qed

lemma pool_new_bytes:
  assumes wf: "heap_wf h" and pool: "(pool, psz) \<in> set (live h)" and psz: "24 \<le> unat psz" "8 dvd unat psz"
    and start: "(start, sizeof_ArrayStart) \<in> set (live h)"
    and arr: "array_block h csz arr n" and ne: "pool \<noteq> start" "pool \<noteq> arr" "start \<noteq> arr"
    and ptr: "rd64 (bytes h) (Pool_array_starts pool) = start"
  defines "m1 \<equiv> link wr64 (bytes h) (array_chunks csz arr n) 0"
  defines "m4 \<equiv> wr64 (wr64 (wr64 m1 (Pool_free_chunk pool) arr) (ArrayStart_next start) 0)
    (ArrayStart_arr start) arr"
  defines "m \<equiv> wr64 m4 (Pool_chunk_sz pool) csz"
  shows "rd64 m1 (Pool_array_starts pool) = start"
    "rd64 (wr64 m1 (Pool_free_chunk pool) arr) (Pool_array_starts pool) = start"
    "rd64 (wr64 (wr64 m1 (Pool_free_chunk pool) arr) (ArrayStart_next start) 0)
       (Pool_array_starts pool) = start"
    "pool_rep (h\<lparr>bytes := m\<rparr>) pool ((new_view start arr n csz)\<lparr>v_pool_sz := psz\<rparr>)"
    "\<And>B. B \<in> set (live h) \<Longrightarrow> fst B \<notin> {pool, start, arr} \<Longrightarrow> block_data m B = block_data (bytes h) B"
    "\<And>q. aligned q \<Longrightarrow> q \<notin> {Pool_free_chunk pool, Pool_chunk_sz pool, ArrayStart_next start, ArrayStart_arr start} \<Longrightarrow>
       q \<notin> set (array_chunks csz arr n) \<Longrightarrow> rd64 m q = rd64 (bytes h) q"
proof -
  note cells = new_cells[OF wf pool psz(1) start arr ne]
  note ds = distinct5[OF cells(1)]
  have al: "aligned p" if "p \<in> {Pool_free_chunk pool, Pool_array_starts pool, Pool_chunk_sz pool,
      ArrayStart_next start, ArrayStart_arr start}" for p
    using that cells(3) by auto
  note arrs = array_block_aligned[OF arr] array_block_distinct[OF arr] array_block_nonnull[OF arr]
  have n: "0 < n" using arr by (simp add: array_block_def)
  have link: "rd64 m1 p = rd64 (bytes h) p" if "p \<in> {Pool_array_starts pool}" for p
    using that cells(2) arrs al unfolding m1_def by (intro byte_mem.rd_link_other) auto
  then show r1: "rd64 m1 (Pool_array_starts pool) = start" using ptr by simp
  show r2: "rd64 (wr64 m1 (Pool_free_chunk pool) arr) (Pool_array_starts pool) = start"
    "rd64 (wr64 (wr64 m1 (Pool_free_chunk pool) arr) (ArrayStart_next start) 0)
       (Pool_array_starts pool) = start"
    using r1 ds al by (simp_all add: rd64_wr64_other)
  have "chain (rd64 m1) arr (array_chunks csz arr n @ [])"
    using byte_mem.chain_link[OF arrs, of "[]" "bytes h" 0] n
    unfolding m1_def by (simp add: hd_array_chunks)
  then have ch: "chain (rd64 m) arr (array_chunks csz arr n)"
    using cells(2) al arrs(1) unfolding m_def m4_def
    by (simp add: byte_mem.chain_wr_other) 
  have fields: "rd64 m (Pool_free_chunk pool) = arr" "rd64 m (Pool_array_starts pool) = start"
    "rd64 m (Pool_chunk_sz pool) = csz" "rd64 m (ArrayStart_next start) = 0"
    "rd64 m (ArrayStart_arr start) = arr"
    using r2 ds al unfolding m_def m4_def by (simp_all add: rd64_wr64_other rd64_wr64_same)
  have "start \<noteq> 0" using heap_wf_block(1)[OF wf start] .
  with ch fields wf pool psz start arr ne
  show "pool_rep (h\<lparr>bytes := m\<rparr>) pool ((new_view start arr n csz)\<lparr>v_pool_sz := psz\<rparr>)"
    by (auto simp: pool_rep_def sizeof_Pool_def new_view_def pool_blocks_def array_block_def array_ok_def
        all_chunks_def ArrayStart_next_def)
  show "rd64 m q = rd64 (bytes h) q" if "aligned q" "q \<notin> {Pool_free_chunk pool, Pool_chunk_sz pool,
      ArrayStart_next start, ArrayStart_arr start}" "q \<notin> set (array_chunks csz arr n)" for q
  proof -
    note q = that
    have "rd64 (wr64 m' p v) q = rd64 m' q"
      if "p \<in> {Pool_free_chunk pool, Pool_chunk_sz pool, ArrayStart_next start, ArrayStart_arr start}" for m' p v
      using that q(1,2) al by (intro rd64_wr64_other) auto
    then show ?thesis unfolding m_def m4_def m1_def
      using byte_mem.rd_link_other[OF q(1) arrs(1) q(3)] by simp
  qed
  fix B assume B: "B \<in> set (live h)" "fst B \<notin> {pool, start, arr}"
  note w = block_data_new_field[OF wf pool psz(1) start B]
  have "block_data m1 B = block_data (bytes h) B"
    unfolding m1_def using B by (intro block_data_link_other[OF wf arr]) auto
  then show "block_data m B = block_data (bytes h) B" by (simp add: m_def m4_def w)
qed

lemma new_fill_rep:
  assumes arr: "array_block h csz arr (unat pool_sz)" and pool: "(pool, psz) \<in> set (live h)"
    and psz: "24 \<le> unat psz" "8 dvd unat psz" and start: "(start, sizeof_ArrayStart) \<in> set (live h)"
    and ne: "pool \<noteq> start" "pool \<noteq> arr" "start \<noteq> arr"
    and ptr: "rd64 (bytes h) (Pool_array_starts pool) = start"
  obtains m where "new_fill h pool arr pool_sz csz = Some (h\<lparr>bytes := m\<rparr>)"
    "pool_rep (h\<lparr>bytes := m\<rparr>) pool ((new_view start arr (unat pool_sz) csz)\<lparr>v_pool_sz := psz\<rparr>)"
    "\<And>B. B \<in> set (live h) \<Longrightarrow> fst B \<notin> {pool, start, arr} \<Longrightarrow> block_data m B = block_data (bytes h) B"
    "\<And>q. aligned q \<Longrightarrow> q \<notin> {Pool_free_chunk pool, Pool_chunk_sz pool, ArrayStart_next start, ArrayStart_arr start} \<Longrightarrow>
       q \<notin> set (array_chunks csz arr (unat pool_sz)) \<Longrightarrow> rd64 m q = rd64 (bytes h) q"
proof -
  let ?n = "unat pool_sz"
  have wf: "heap_wf h" and n: "0 < ?n" using arr by (simp_all add: array_block_def)
  have last: "pool_sz - 1 = of_nat (?n - 1)" using n by simp
  obtain m0 where m0: "link_chunks h arr csz 0 (pool_sz - 1) = Some (h\<lparr>bytes := m0\<rparr>)"
    and m1: "wr64 m0 (arr + (pool_sz - 1) * csz) 0 = link wr64 (bytes h) (array_chunks csz arr ?n) 0"
    using link_chunks_link[OF arr n] unfolding last by auto
  have lastok: "cell_ok h (arr + (pool_sz - 1) * csz)"
    unfolding last using n by (intro array_block_cell(3)[OF arr]) simp
  note cells = new_cells(3)[OF wf pool psz(1) start arr ne]
  note bytes = pool_new_bytes[OF wf pool psz start arr ne ptr]
  show thesis
  proof (rule that[OF _ bytes(4-6)])
    show "new_fill h pool arr pool_sz csz = Some (h\<lparr>bytes := wr64
      (wr64 (wr64 (wr64 (link wr64 (bytes h) (array_chunks csz arr ?n) 0) (Pool_free_chunk pool) arr)
        (ArrayStart_next start) 0) (ArrayStart_arr start) arr) (Pool_chunk_sz pool) csz\<rparr>)"
      using cells lastok by (simp add: new_fill_def m0 m1 bytes(1-3))
  qed
qed

lemma pool_new_linked:
  assumes e: "ext_ok e" and sz: "pool_sz \<noteq> 0" and wf: "heap_wf h"
    and call1: "call_alloc e h sizeof_Pool = Some (pool, h1)" "pool \<noteq> 0"
    and call2: "call_alloc e h1 sizeof_ArrayStart = Some (start, h2)" "start \<noteq> 0"
    and cell: "cell_ok h2 (Pool_array_starts pool)"
    and call3: "call_alloc e (h2\<lparr>bytes := wr64 (bytes h2) (Pool_array_starts pool) start\<rparr>)
        (pool_sz * align2boundary chunk_sz sizeof_ptr) = Some (arr, h3)" "arr \<noteq> 0"
    and live3: "(pool, sizeof_Pool) \<in> set (live h3)" "(start, sizeof_ArrayStart) \<in> set (live h3)"
    and arr: "array_block h3 (align2boundary chunk_sz sizeof_ptr) arr (unat pool_sz)"
    and ne: "pool \<noteq> start" "pool \<noteq> arr" "start \<noteq> arr"
    and ptr: "rd64 (bytes h3) (Pool_array_starts pool) = start"
  obtains m where "pool_new e h pool_sz chunk_sz = Some (pool, h3\<lparr>bytes := m\<rparr>)"
    "pool_rep (h3\<lparr>bytes := m\<rparr>) pool
       (new_view start arr (unat pool_sz) (align2boundary chunk_sz sizeof_ptr))"
    "\<And>B. B \<in> set (live h3) \<Longrightarrow> fst B \<notin> {pool, start, arr} \<Longrightarrow>
       block_data m B = block_data (bytes h3) B"
proof -
  have ext: "pool_assert_ext_funcs e" using e by (auto simp: ext_ok_def pool_assert_ext_funcs_def)
  obtain m where m: "new_fill h3 pool arr pool_sz (align2boundary chunk_sz sizeof_ptr) = Some (h3\<lparr>bytes := m\<rparr>)"
    "pool_rep (h3\<lparr>bytes := m\<rparr>) pool
       (new_view start arr (unat pool_sz) (align2boundary chunk_sz sizeof_ptr))"
    "\<And>B. B \<in> set (live h3) \<Longrightarrow> fst B \<notin> {pool, start, arr} \<Longrightarrow> block_data m B = block_data (bytes h3) B"
    using new_fill_rep[OF arr live3(1) sizeof_Pool_ok live3(2) ne ptr] unfolding new_view_plain by metis
  have "pool_new e h pool_sz chunk_sz = Some (pool, h3\<lparr>bytes := m\<rparr>)"
    using sz call1 call2 call3 cell by (simp add: pool_new_def Let_def ext m(1) rd64_wr64_same)
  then show thesis using m(2,3) by (rule that)
qed

lemma fresh_cell:
  assumes "heap_wf h" "(b, s) \<in> set (live h)" "k + 8 \<le> unat s" "8 dvd k"
  shows "cell_ok h (b + of_nat k)"
    "\<And>L v m. set L \<subseteq> set (live h) \<Longrightarrow> b \<notin> fst ` set L \<Longrightarrow>
      list_all (\<lambda>B. block_data (wr64 m (b + of_nat k) v) B = block_data m B) L"
proof -
  show "cell_ok h (b + of_nat k)" by (rule cell_ok_offset[OF assms(1,2,4,3)])
  fix L v m assume L: "set L \<subseteq> set (live h)" "b \<notin> fst ` set L"
  show "list_all (\<lambda>B. block_data (wr64 m (b + of_nat k) v) B = block_data m B) L"
    unfolding list_all_iff
  proof
    fix B assume "B \<in> set L"
    with L have "B \<in> set (live h)" "fst B \<noteq> b" by auto
    then show "block_data (wr64 m (b + of_nat k) v) B = block_data m B"
      by (rule block_data_offset_other[OF assms(1-3)])
  qed
qed

lemma pool_new_no_memory:
  assumes e: "ext_ok e" and wf: "heap_wf h" and sz: "pool_sz \<noteq> 0"
    and pool: "call_alloc e h sizeof_Pool = Some (pool, h\<lparr>live := (pool, sizeof_Pool) # live h\<rparr>)"
      "pool \<noteq> 0" "pool \<notin> fst ` set (live h)"
    and wf1: "heap_wf (h\<lparr>live := (pool, sizeof_Pool) # live h\<rparr>)"
    and start: "call_alloc e (h\<lparr>live := (pool, sizeof_Pool) # live h\<rparr>) sizeof_ArrayStart
       = Some (0, h\<lparr>live := (pool, sizeof_Pool) # live h\<rparr>)"
  obtains h' where "pool_new e h pool_sz chunk_sz = Some (0, h')" "live h' = live h"
    "undisturbed h h'"
proof -
  let ?h1 = "h\<lparr>live := (pool, sizeof_Pool) # live h\<rparr>"
  let ?m = "wr64 (bytes h) (Pool_array_starts pool) 0"
  have ext: "pool_assert_ext_funcs e" using e by (auto simp: ext_ok_def pool_assert_ext_funcs_def)
  note cell = fresh_cell[OF wf1, of pool sizeof_Pool 8]
  have free: "call_free e (?h1\<lparr>bytes := ?m\<rparr>) pool = Some (h\<lparr>bytes := ?m\<rparr>)"
    using call_free_live[OF e, of pool sizeof_Pool "?h1\<lparr>bytes := ?m\<rparr>"] pool(2,3)
    by (simp add: drop_block_notin)
  show thesis
  proof
    show "pool_new e h pool_sz chunk_sz = Some (0, h\<lparr>bytes := ?m\<rparr>)"
      using sz pool start cell free
      by (simp add: pool_new_def Let_def ext Pool_array_starts_def sizeof_Pool_def rd64_wr64_same)
    show "undisturbed h (h\<lparr>bytes := ?m\<rparr>)"
      using cell(2)[of "live h" "bytes h" 0] pool(3)
      by (auto simp: undisturbed_def Pool_array_starts_def sizeof_Pool_def)
  qed simp
qed

lemma pool_new_no_array:
  assumes e: "ext_ok e" and sz: "pool_sz \<noteq> 0"
    and pool: "call_alloc e h sizeof_Pool = Some (pool, h1)" "pool \<noteq> 0" "pool \<notin> fst ` set (live h)"
    and h1: "h1 = h\<lparr>live := (pool, sizeof_Pool) # live h\<rparr>"
    and start: "call_alloc e h1 sizeof_ArrayStart = Some (start, h2)" "start \<noteq> 0"
      "start \<notin> fst ` set (live h1)"
    and h2: "h2 = h1\<lparr>live := (start, sizeof_ArrayStart) # live h1\<rparr>" and wf2: "heap_wf h2"
    and arr: "call_alloc e (h2\<lparr>bytes := wr64 (bytes h2) (Pool_array_starts pool) start\<rparr>)
        (pool_sz * align2boundary chunk_sz sizeof_ptr)
      = Some (0, h2\<lparr>bytes := wr64 (bytes h2) (Pool_array_starts pool) start\<rparr>)"
  obtains h' where "pool_new e h pool_sz chunk_sz = Some (0, h')" "live h' = live h"
    "undisturbed h h'"
proof -
  let ?m = "wr64 (bytes h) (Pool_array_starts pool) start"
  have ext: "pool_assert_ext_funcs e" using e by (auto simp: ext_ok_def pool_assert_ext_funcs_def)
  have mem: "(pool, sizeof_Pool) \<in> set (live h2)" by (simp add: h1 h2)
  note cell = fresh_cell[OF wf2 mem, of 8]
  have ne: "start \<noteq> pool" "start \<notin> fst ` set (live h)" using start(3) by (auto simp: h1)
  have "call_free e (h2\<lparr>bytes := ?m\<rparr>) start = Some (h1\<lparr>bytes := ?m\<rparr>)"
    using call_free_live[OF e, of start sizeof_ArrayStart "h2\<lparr>bytes := ?m\<rparr>"] start(2) ne
    by (simp add: h1 h2 drop_block_notin)
  moreover have "call_free e (h1\<lparr>bytes := ?m\<rparr>) pool = Some (h\<lparr>bytes := ?m\<rparr>)"
    using call_free_live[OF e, of pool sizeof_Pool "h1\<lparr>bytes := ?m\<rparr>"] pool(2,3)
    by (simp add: h1 drop_block_notin)
  ultimately have "pool_new e h pool_sz chunk_sz = Some (0, h\<lparr>bytes := ?m\<rparr>)"
    using sz pool(1,2) start(1,2) arr cell(1)
    by (simp add: pool_new_def Let_def ext Pool_array_starts_def sizeof_Pool_def rd64_wr64_same h1 h2)
  moreover have "undisturbed h (h\<lparr>bytes := ?m\<rparr>)"
    using cell(2)[of "live h" "bytes h" start] pool(3)
    by (auto simp: undisturbed_def Pool_array_starts_def sizeof_Pool_def h1 h2)
  ultimately show thesis by (intro that[of "h\<lparr>bytes := ?m\<rparr>"]) simp_all
qed

lemma pool_new_success:
  assumes e: "ext_ok e" and wf: "heap_wf h" and sz: "pool_sz \<noteq> 0" "chunk_sz \<noteq> 0"
    and bound: "unat chunk_sz + 7 < 2 ^ 64"
      "unat pool_sz * unat (align2boundary chunk_sz sizeof_ptr) < 2 ^ 64"
    and p: "call_alloc e h sizeof_Pool = Some (pool, h1)" "pool \<noteq> 0" "pool \<notin> fst ` set (live h)"
    and h1: "h1 = h\<lparr>live := (pool, sizeof_Pool) # live h\<rparr>"
    and s: "call_alloc e h1 sizeof_ArrayStart = Some (start, h2)" "start \<noteq> 0" "heap_wf h2"
      "start \<notin> fst ` set (live h1)"
    and h2: "h2 = h1\<lparr>live := (start, sizeof_ArrayStart) # live h1\<rparr>"
  defines "h2' \<equiv> h2\<lparr>bytes := wr64 (bytes h2) (Pool_array_starts pool) start\<rparr>"
  assumes a: "call_alloc e h2' (pool_sz * align2boundary chunk_sz sizeof_ptr)
      = Some (arr, h2'\<lparr>live := (arr, pool_sz * align2boundary chunk_sz sizeof_ptr) # live h2'\<rparr>)"
      "arr \<noteq> 0"
      "heap_wf (h2'\<lparr>live := (arr, pool_sz * align2boundary chunk_sz sizeof_ptr) # live h2'\<rparr>)"
      "arr \<notin> fst ` set (live h2')"
  obtains h' where "pool_new e h pool_sz chunk_sz = Some (pool, h')"
      "pool_rep h' pool (new_view start arr (unat pool_sz) (align2boundary chunk_sz sizeof_ptr))"
      "live h' = (arr, pool_sz * align2boundary chunk_sz sizeof_ptr) # (start, sizeof_ArrayStart)
         # (pool, sizeof_Pool) # live h"
      "distinct [pool, start, arr]" "{pool, start, arr} \<inter> fst ` set (live h) = {}"
      "undisturbed h h'"
proof -
  let ?csz = "align2boundary chunk_sz sizeof_ptr"
  let ?h3 = "h2'\<lparr>live := (arr, pool_sz * ?csz) # live h2'\<rparr>"
  have mem: "(pool, sizeof_Pool) \<in> set (live h2)" by (simp add: h1 h2)
  note cell = fresh_cell[OF s(3) mem, of 8]
  have ne: "pool \<noteq> start" "pool \<noteq> arr" "start \<noteq> arr"
    and fr: "start \<notin> fst ` set (live h)" "arr \<notin> fst ` set (live h)"
    using s(4) a(4) by (auto simp: h1 h2 h2'_def)
  have arr: "array_block ?h3 ?csz arr (unat pool_sz)"
    using a(3) align2boundary_ok[OF bound(1) sz(2)] bound(2) sz(1)
    by (auto simp: array_block_def unat_gt_0)
  obtain m where m: "pool_new e h pool_sz chunk_sz = Some (pool, ?h3\<lparr>bytes := m\<rparr>)"
    "pool_rep (?h3\<lparr>bytes := m\<rparr>) pool (new_view start arr (unat pool_sz) ?csz)"
    "\<And>B. B \<in> set (live ?h3) \<Longrightarrow> fst B \<notin> {pool, start, arr} \<Longrightarrow>
       block_data m B = block_data (bytes h2') B"
    by (rule pool_new_linked[OF e sz(1) wf p(1,2) s(1,2) _ _ a(2) _ _ arr ne])
       (use a(1) cell(1) in \<open>auto simp: h1 h2 h2'_def rd64_wr64_same Pool_array_starts_def sizeof_Pool_def\<close>)
  have old: "list_all (\<lambda>B. block_data (bytes h2') B = block_data (bytes h) B) (live h)"
    using cell(2)[of "live h" "bytes h" start] p(3)
    by (auto simp: h1 h2 h2'_def Pool_array_starts_def sizeof_Pool_def)
  have "undisturbed h (?h3\<lparr>bytes := m\<rparr>)" unfolding undisturbed_def list_all_iff
  proof
    fix B assume B: "B \<in> set (live h)"
    then have "fst B \<notin> {pool, start, arr}" using p(3) fr by force
    with m(3)[of B] B old show "block_data (bytes (?h3\<lparr>bytes := m\<rparr>)) B = block_data (bytes h) B"
      by (simp add: list_all_iff h1 h2 h2'_def)
  qed
  with m(1,2) ne fr p(3) show thesis
    by (intro that[of "?h3\<lparr>bytes := m\<rparr>"]) (auto simp: h1 h2 h2'_def)
qed

lemma pool_new_cases:
  assumes e: "ext_ok e" and wf: "heap_wf h" and sz: "pool_sz \<noteq> 0" "chunk_sz \<noteq> 0"
    and bound: "unat chunk_sz + 7 < 2 ^ 64"
      "unat pool_sz * unat (align2boundary chunk_sz sizeof_ptr) < 2 ^ 64"
  obtains (null) h' where "pool_new e h pool_sz chunk_sz = Some (0, h')" "live h' = live h"
      "undisturbed h h'"
  | (pool) pool start arr h' where "pool_new e h pool_sz chunk_sz = Some (pool, h')"
      "pool_rep h' pool (new_view start arr (unat pool_sz) (align2boundary chunk_sz sizeof_ptr))"
      "live h' = (arr, pool_sz * align2boundary chunk_sz sizeof_ptr) # (start, sizeof_ArrayStart)
         # (pool, sizeof_Pool) # live h"
      "distinct [pool, start, arr]" "{pool, start, arr} \<inter> fst ` set (live h) = {}"
      "undisturbed h h'"
proof -
  let ?csz = "align2boundary chunk_sz sizeof_ptr"
  have ext: "pool_assert_ext_funcs e" using e by (auto simp: ext_ok_def pool_assert_ext_funcs_def)
  show thesis
  proof (cases rule: call_alloc_cases[OF e wf, of sizeof_Pool, case_names nopool pool])
    case nopool
    then show thesis using sz(1) by (intro null[of h]) (simp_all add: pool_new_def Let_def ext undisturbed_def list_all_iff)
  next
    case p: (pool pool)
    define h1 where "h1 = h\<lparr>live := (pool, sizeof_Pool) # live h\<rparr>"
    note p = p[folded h1_def]
    show thesis
    proof (cases rule: call_alloc_cases[OF e p(3), of sizeof_ArrayStart, case_names nostart start])
      case nostart
      show thesis
        by (rule pool_new_no_memory[OF e wf sz(1) p(1)[unfolded h1_def] p(2,4) p(3)[unfolded h1_def]
              nostart[unfolded h1_def]]) (rule null)
    next
      case s: (start start)
      define h2 where "h2 = h1\<lparr>live := (start, sizeof_ArrayStart) # live h1\<rparr>"
      note s = s[folded h2_def]
      let ?m = "wr64 (bytes h2) (Pool_array_starts pool) start"
      have mem: "(pool, sizeof_Pool) \<in> set (live h2)" by (simp add: h1_def h2_def)
      note cell = fresh_cell[OF s(3) mem, of 8]
      have wf2: "heap_wf (h2\<lparr>bytes := ?m\<rparr>)" using s(3) by simp
      show thesis
      proof (cases rule: call_alloc_cases[OF e wf2, of "pool_sz * ?csz", case_names noarr arr])
        case noarr
        show thesis
          by (rule pool_new_no_array[OF e sz(1) p(1,2,4) h1_def s(1,2,4) h2_def s(3) noarr]) (rule null)
      next
        case a: (arr arr)
        show thesis
          by (rule pool_new_success[OF e wf sz bound p(1,2,4) h1_def s(1-4) h2_def a]) (rule pool)
      qed
    qed
  qed
qed

section \<open>Destroying a pool\<close>

lemma drop_blocks_step: "drop_blocks ps (drop_block p bs) = drop_blocks (insert p ps) bs"
  by (auto simp: drop_blocks_def drop_block_def intro: filter_cong)

lemma drop_blocks_empty [simp]: "drop_blocks {} bs = bs"
  by (simp add: drop_blocks_def)

lemma destroy_loop_chain:
  assumes "ext_ok e" "heap_wf h" "chain (rd64 (bytes h)) p (map fst as)"
    and "\<forall>(s, a, n) \<in> set as. (s, sizeof_ArrayStart) \<in> set (live h) \<and> (a, of_nat n * csz) \<in> set (live h)
      \<and> rd64 (bytes h) (ArrayStart_arr s) = a"
    and "distinct (map fst as @ map (fst \<circ> snd) as)"
  shows "destroy_loop e h p
    = Some (h\<lparr>live := drop_blocks (fst ` set as \<union> (fst \<circ> snd) ` set as) (live h)\<rparr>)"
  using assms
proof (induction as arbitrary: h p)
  case Nil
  then show ?case by (subst destroy_loop.simps) simp
next
  case (Cons x as)
  obtain s a n where x: "x = (s, a, n)" by (cases x)
  from Cons.prems x have live: "(s, sizeof_ArrayStart) \<in> set (live h)" "(a, of_nat n * csz) \<in> set (live h)"
    and arr: "rd64 (bytes h) (ArrayStart_arr s) = a" and p: "p = s" "s \<noteq> 0"
    and ch: "chain (rd64 (bytes h)) (rd64 (bytes h) s) (map fst as)" by auto
  have ok: "cell_ok h (ArrayStart_next s)" "cell_ok h (ArrayStart_arr s)"
    using cell_ok_offset[OF Cons.prems(2) live(1), of 0] cell_ok_offset[OF Cons.prems(2) live(1), of 8]
    by (simp_all add: field_defs sizeof_ArrayStart_def)
  have ne: "s \<noteq> a" "a \<noteq> 0" using Cons.prems(5) heap_wf_block(1)[OF Cons.prems(2) live(2)] x by auto
  let ?h1 = "h\<lparr>live := drop_block a (live h)\<rparr>" and ?h2 = "h\<lparr>live := drop_block s (drop_block a (live h))\<rparr>"
  have f1: "call_free e h a = Some ?h1" using Cons.prems(1) live ne by (intro call_free_live) auto
  have "(s, sizeof_ArrayStart) \<in> set (live ?h1)" using live(1) ne(1) by (simp add: drop_block_def)
  then have f2: "call_free e ?h1 s = Some ?h2" using call_free_live[OF Cons.prems(1)] p by simp
  have wf: "heap_wf ?h2" using heap_wf_drop[OF heap_wf_drop[OF Cons.prems(2)]] by simp
  have "destroy_loop e ?h2 (rd64 (bytes h) s)
      = Some (?h2\<lparr>live := drop_blocks (fst ` set as \<union> (fst \<circ> snd) ` set as) (live ?h2)\<rparr>)"
  proof (rule Cons.IH[OF Cons.prems(1) wf])
    show "\<forall>(s', a', n') \<in> set as. (s', sizeof_ArrayStart) \<in> set (live ?h2)
        \<and> (a', of_nat n' * csz) \<in> set (live ?h2) \<and> rd64 (bytes ?h2) (ArrayStart_arr s') = a'"
    proof clarify
      fix s' a' n' assume y: "(s', a', n') \<in> set as"
      then have "s' \<in> fst ` set as" "a' \<in> (fst \<circ> snd) ` set as" by (auto intro: rev_image_eqI)
      moreover have "s \<notin> fst ` set as" "s \<notin> (fst \<circ> snd) ` set as"
        "a \<notin> fst ` set as" "a \<notin> (fst \<circ> snd) ` set as" using Cons.prems(5) x by simp_all
      ultimately have "s' \<noteq> s" "s' \<noteq> a" "a' \<noteq> s" "a' \<noteq> a" by metis+
      with Cons.prems(4) y show "(s', sizeof_ArrayStart) \<in> set (live ?h2)
        \<and> (a', of_nat n' * csz) \<in> set (live ?h2) \<and> rd64 (bytes ?h2) (ArrayStart_arr s') = a'"
        by (auto simp: drop_block_def)
    qed
  qed (use ch Cons.prems(5) in auto)
  then show ?case using ok f1 f2 p arr
    by (subst destroy_loop.simps) (simp add: x ArrayStart_next_def drop_blocks_step insert_commute)
qed

lemma destroy_loop_rep:
  assumes "ext_ok e" "pool_rep h pool V"
  shows "destroy_loop e h (rd64 (bytes h) (Pool_array_starts pool))
    = Some (h\<lparr>live := drop_blocks (fst ` set (v_arrays V) \<union> (fst \<circ> snd) ` set (v_arrays V)) (live h)\<rparr>)"
proof (rule destroy_loop_chain[OF assms(1) pool_rep_blocks(1)[OF assms(2)]])
  have d: "distinct (pool # map fst (v_arrays V) @ map (fst \<circ> snd) (v_arrays V))"
    using assms(2) by (simp add: pool_rep_def flip: pool_bases)
  then show "distinct (map fst (v_arrays V) @ map (fst \<circ> snd) (v_arrays V))" by simp
  show "\<forall>(s, a, n) \<in> set (v_arrays V). (s, sizeof_ArrayStart) \<in> set (live h)
      \<and> (a, of_nat n * v_chunk_sz V) \<in> set (live h) \<and> rd64 (bytes h) (ArrayStart_arr s) = a"
  proof clarify
    fix s a n assume x: "(s, a, n) \<in> set (v_arrays V)"
    with assms(2) have "array_ok h (v_chunk_sz V) (s, a, n)" by (auto simp: pool_rep_def list_all_iff)
    then show "(s, sizeof_ArrayStart) \<in> set (live h)
      \<and> (a, of_nat n * v_chunk_sz V) \<in> set (live h) \<and> rd64 (bytes h) (ArrayStart_arr s) = a"
      using pool_rep_blocks(3,4)[OF assms(2) x] by (simp add: array_ok_def)
  qed
qed (use assms(2) in \<open>simp add: pool_rep_def\<close>)

text \<open>After the loop the structure itself is still there, and freeing it leaves nothing of the pool.\<close>

lemma destroy_rest:
  assumes "ext_ok e" "pool_rep h pool V"
  defines "h1 \<equiv> h\<lparr>live := drop_blocks (fst ` set (v_arrays V) \<union> (fst \<circ> snd) ` set (v_arrays V)) (live h)\<rparr>"
  shows "(pool, v_pool_sz V) \<in> set (live h1)"
    "call_free e h1 pool = Some (h\<lparr>live := drop_blocks (fst ` set (pool_blocks pool V)) (live h)\<rparr>)"
proof -
  let ?ps = "fst ` set (v_arrays V) \<union> (fst \<circ> snd) ` set (v_arrays V)"
  have "distinct (pool # map fst (v_arrays V) @ map (fst \<circ> snd) (v_arrays V))"
    using assms(2) by (simp add: pool_rep_def flip: pool_bases)
  then show mem: "(pool, v_pool_sz V) \<in> set (live h1)"
    using pool_rep_blocks(2)[OF assms(2)] by (auto simp: drop_blocks_def h1_def)
  have "drop_block pool (drop_blocks ?ps (live h)) = drop_blocks (fst ` set (pool_blocks pool V)) (live h)"
    unfolding set_map[symmetric] pool_bases
    by (auto simp: drop_block_def drop_blocks_def intro!: filter_cong)
  then show "call_free e h1 pool = Some (h\<lparr>live := drop_blocks (fst ` set (pool_blocks pool V)) (live h)\<rparr>)"
    using call_free_live[OF assms(1) mem] pool_rep_nonnull[OF assms(2)] by (simp add: h1_def)
qed

lemma pool_destroy_rep:
  assumes "ext_ok e" "pool_rep h pool V"
  shows "pool_destroy e h pool
    = Some (h\<lparr>live := drop_blocks (fst ` set (pool_blocks pool V)) (live h)\<rparr>)"
  using destroy_loop_rep[OF assms] destroy_rest(2)[OF assms] pool_rep_nonnull[OF assms(2)]
    pool_rep_pool_cells(2)[OF assms(2)] by (simp add: pool_destroy_def)

end
