(* ===== verification/Pool_Expand.thy ===== *)
theory Pool_Expand
  imports Pool_Ops
begin

text \<open>
  Correctness of \<^verbatim>\<open>pool_expand\<close> (\<^verbatim>\<open>common/src/libpool.c\<close>): either the heap is exactly as
  before, or the new chunks are in front of the free list and nothing else of the pool,
  nor any other block, has changed.
\<close>

section \<open>Definitions\<close>

definition expanded_view :: "pool_view \<Rightarrow> ptr \<Rightarrow> ptr \<Rightarrow> nat \<Rightarrow> pool_view" where
  "expanded_view V start arr n = V\<lparr>v_free := array_chunks (v_chunk_sz V) arr n @ v_free V,
     v_arrays := (start, arr, n) # v_arrays V\<rparr>"

section \<open>The cells of the new array and of the pool\<close>

lemma fresh_not_cell:
  assumes rep: "pool_rep h pool V"
    and start: "(start, sizeof_ArrayStart) \<in> set (live h)" "start \<notin> fst ` set (pool_blocks pool V)"
    and arr: "array_block h (v_chunk_sz V) arr n" "arr \<notin> fst ` set (pool_blocks pool V)"
    and q: "q \<in> insert (Pool_free_chunk pool) (meta_cells pool V) \<union> set (all_chunks V)"
  shows "q \<noteq> ArrayStart_next start" "q \<noteq> ArrayStart_arr start"
    "q \<notin> set (array_chunks (v_chunk_sz V) arr n)"
proof -
  note other = cell_not_within_other[OF rep q]
  have wf: "heap_wf h" using rep by (rule pool_rep_blocks(1))
  have w: "within (ArrayStart_next start) (start, sizeof_ArrayStart)"
    "within (ArrayStart_arr start) (start, sizeof_ArrayStart)"
    using within_offset[OF wf start(1), of 8] by (auto simp: field_defs sizeof_defs within_base)
  show "q \<noteq> ArrayStart_next start" "q \<noteq> ArrayStart_arr start"
    using other[OF start w(1)] other[OF start w(2)] by auto
  have "(arr, of_nat n * v_chunk_sz V) \<in> set (live h)" using arr(1) by (simp add: array_block_def)
  then have "\<not> within q (arr, of_nat n * v_chunk_sz V)" using other arr(2) by blast
  then show "q \<notin> set (array_chunks (v_chunk_sz V) arr n)"
    using array_block_cell(2)[OF arr(1)] by (auto simp: array_chunks_def)
qed

lemma pool_rep_expand:
  assumes rep: "pool_rep h pool V"
    and start: "(start, sizeof_ArrayStart) \<in> set (live h)" "start \<notin> fst ` set (pool_blocks pool V)"
    and arr: "array_block h (v_chunk_sz V) arr n" "arr \<notin> fst ` set (pool_blocks pool V)"
    and ne: "start \<noteq> arr"
    and fields: "rd64 m (Pool_free_chunk pool) = arr" "rd64 m (Pool_array_starts pool) = start"
      "rd64 m (Pool_chunk_sz pool) = v_chunk_sz V" "rd64 m (ArrayStart_arr start) = arr"
      "rd64 m (ArrayStart_next start) = rd64 (bytes h) (Pool_array_starts pool)"
    and old: "\<And>x. x \<in> set (v_arrays V) \<Longrightarrow> rd64 m (fst x) = rd64 (bytes h) (fst x)
      \<and> rd64 m (ArrayStart_arr (fst x)) = rd64 (bytes h) (ArrayStart_arr (fst x))"
    and free: "chain (rd64 m) arr (array_chunks (v_chunk_sz V) arr n @ v_free V)"
  shows "pool_rep (h\<lparr>bytes := m\<rparr>) pool (expanded_view V start arr n)"
proof -
  have "start \<noteq> 0" using heap_wf_block(1)[OF pool_rep_blocks(1)[OF rep] start(1)] .
  moreover have "chain (rd64 m) p (map fst (v_arrays V)) = chain (rd64 (bytes h)) p (map fst (v_arrays V))"
    for p using old by (intro chain_cong) auto
  ultimately have starts: "chain (rd64 m) start (map fst ((start, arr, n) # v_arrays V))"
    using fields(5) rep by (simp add: pool_rep_def ArrayStart_next_def)
  have "\<forall>x \<in> set (v_arrays V). array_ok (h\<lparr>bytes := m\<rparr>) (v_chunk_sz V) x = array_ok h (v_chunk_sz V) x"
    using old by (simp add: array_ok_def case_prod_beta)
  then have arrays: "list_all (array_ok (h\<lparr>bytes := m\<rparr>) (v_chunk_sz V)) ((start, arr, n) # v_arrays V)"
    using rep fields(4) arr(1) by (auto simp: pool_rep_def list_all_iff array_block_def array_ok_def)
  have "map fst (pool_blocks pool (expanded_view V start arr n))
      = pool # (start # map fst (v_arrays V)) @ arr # map (fst \<circ> snd) (v_arrays V)"
    by (simp add: pool_bases expanded_view_def)
  moreover have "distinct (pool # map fst (v_arrays V) @ map (fst \<circ> snd) (v_arrays V))"
    using rep by (simp add: pool_rep_def flip: pool_bases)
  moreover have "start \<notin> set (pool # map fst (v_arrays V) @ map (fst \<circ> snd) (v_arrays V))"
    "arr \<notin> set (pool # map fst (v_arrays V) @ map (fst \<circ> snd) (v_arrays V))"
    using start(2) arr(2) by (simp_all flip: pool_bases)
  ultimately have dist: "distinct (map fst (pool_blocks pool (expanded_view V start arr n)))"
    using ne by auto
  have "set (pool_blocks pool (expanded_view V start arr n)) \<subseteq> set (live h)"
    using rep start(1) arr(1) by (auto simp: pool_rep_def pool_blocks_def expanded_view_def array_block_def)
  moreover have "set (array_chunks (v_chunk_sz V) arr n @ v_free V)
      \<subseteq> set (all_chunks (expanded_view V start arr n))"
    using pool_rep_free(1)[OF rep] by (auto simp: all_chunks_def expanded_view_def)
  ultimately show ?thesis
    using rep dist arrays starts free fields(1-3)
    by (simp add: pool_rep_def expanded_view_def)
qed

lemma expand_bytes:
  assumes rep: "pool_rep h pool V"
    and start: "(start, sizeof_ArrayStart) \<in> set (live h)" "start \<notin> fst ` set (pool_blocks pool V)"
    and arr: "array_block h (v_chunk_sz V) arr n" "arr \<notin> fst ` set (pool_blocks pool V)"
    and ne: "start \<noteq> arr"
  defines "m1 \<equiv> link wr64 (bytes h) (array_chunks (v_chunk_sz V) arr n)
     (rd64 (bytes h) (Pool_free_chunk pool))"
  defines "m3 \<equiv> wr64 (wr64 m1 (Pool_free_chunk pool) arr) (ArrayStart_arr start) arr"
  defines "m \<equiv> wr64 (wr64 m3 (ArrayStart_next start) (rd64 (bytes h) (Pool_array_starts pool)))
     (Pool_array_starts pool) start"
  shows "rd64 m3 (Pool_array_starts pool) = rd64 (bytes h) (Pool_array_starts pool)"
    "pool_rep (h\<lparr>bytes := m\<rparr>) pool (expanded_view V start arr n)"
    "\<And>q. within q (pool, v_pool_sz V) \<Longrightarrow> aligned q \<Longrightarrow> q \<notin> {Pool_free_chunk pool, Pool_array_starts pool} \<Longrightarrow>
       rd64 m q = rd64 (bytes h) q"
proof -
  have wf: "heap_wf h" and pool: "(pool, v_pool_sz V) \<in> set (live h)"
    using pool_rep_blocks[OF rep] by auto
  have nb: "pool \<noteq> start" "pool \<noteq> arr" using start(2) arr(2) by (auto simp: pool_blocks_def)
  note cells = new_cells[OF wf pool pool_rep_pool_sz(1)[OF rep] start(1) arr(1) nb ne]
  note ds = distinct5[OF cells(1)]
  note arrs = array_block_aligned[OF arr(1)] array_block_distinct[OF arr(1)] array_block_nonnull[OF arr(1)]
  note fresh = fresh_not_cell[OF rep start arr]
  have al: "aligned p" if "p \<in> {Pool_free_chunk pool, Pool_array_starts pool, Pool_chunk_sz pool,
      ArrayStart_next start, ArrayStart_arr start}" for p
    using that cells(3) by auto
  have n: "0 < n" using arr(1) by (simp add: array_block_def)
  have link: "rd64 m1 p = rd64 (bytes h) p"
    if "aligned p" "p \<notin> set (array_chunks (v_chunk_sz V) arr n)" for p
    using that arrs unfolding m1_def by (intro byte_mem.rd_link_other) auto
  show starts: "rd64 m3 (Pool_array_starts pool) = rd64 (bytes h) (Pool_array_starts pool)"
    using ds al link cells(2) unfolding m3_def by (simp add: rd64_wr64_other)
  have old: "rd64 m q = rd64 (bytes h) q"
    if q: "q \<in> meta_cells pool V" "q \<noteq> Pool_array_starts pool" for q
  proof -
    have "q \<noteq> Pool_free_chunk pool" using free_chunk_not_meta[OF rep] q(1) by blast
    with q meta_cells_aligned[OF rep q(1)] fresh[of q] link[of q] show ?thesis
      unfolding m_def m3_def by (simp add: rd64_wr64_other al)
  qed
  show "rd64 m q = rd64 (bytes h) q" if q: "within q (pool, v_pool_sz V)" "aligned q"
      "q \<notin> {Pool_free_chunk pool, Pool_array_starts pool}" for q
  proof -
    have ws: "within p (start, sizeof_ArrayStart)" if "p \<in> {ArrayStart_next start, ArrayStart_arr start}" for p
      using that within_offset[OF wf start(1), of 8] by (auto simp: field_defs sizeof_ArrayStart_def within_base)
    have "p \<noteq> q" if "p \<in> {ArrayStart_next start, ArrayStart_arr start}" for p
      using within_neq[OF wf pool start(1) nb(1) q(1) ws[OF that]] by simp
    moreover have "q \<notin> set (array_chunks (v_chunk_sz V) arr n)"
    proof
      assume "q \<in> set (array_chunks (v_chunk_sz V) arr n)"
      then have "within q (arr, of_nat n * v_chunk_sz V)" using array_block_cell(2)[OF arr(1)] by (auto simp: array_chunks_def)
      then show False using within_neq[OF wf pool _ nb(2) q(1)] arr(1) by (auto simp: array_block_def)
    qed
    moreover have "Pool_free_chunk pool \<noteq> q" "Pool_array_starts pool \<noteq> q" using q(3) by auto
    ultimately show ?thesis using link[OF q(2)] q(2) unfolding m_def m3_def by (simp add: rd64_wr64_other al)
  qed
  have disj: "set (array_chunks (v_chunk_sz V) arr n) \<inter> set (v_free V) = {}"
    using fresh(3) pool_rep_free(1)[OF rep] by blast
  show "pool_rep (h\<lparr>bytes := m\<rparr>) pool (expanded_view V start arr n)"
  proof (rule pool_rep_expand[OF rep start arr ne])
    show "rd64 m (Pool_free_chunk pool) = arr" "rd64 m (Pool_array_starts pool) = start"
      "rd64 m (ArrayStart_arr start) = arr"
      "rd64 m (ArrayStart_next start) = rd64 (bytes h) (Pool_array_starts pool)"
      using ds al unfolding m_def m3_def by (simp_all add: rd64_wr64_other rd64_wr64_same)
    show "rd64 m (Pool_chunk_sz pool) = v_chunk_sz V"
      using old[of "Pool_chunk_sz pool"] rep ds by (simp add: meta_cells_def pool_rep_def)
    show "rd64 m (fst x) = rd64 (bytes h) (fst x)
        \<and> rd64 m (ArrayStart_arr (fst x)) = rd64 (bytes h) (ArrayStart_arr (fst x))"
      if "x \<in> set (v_arrays V)" for x
      using old[of "fst x"] old[of "ArrayStart_arr (fst x)"] that
        pool_field_not_start[OF rep that, of "Pool_array_starts pool"]
      by (auto simp: meta_cells_def)
    have "chain (rd64 m1) arr (array_chunks (v_chunk_sz V) arr n @ v_free V)"
      using byte_mem.chain_link[OF arrs _ pool_rep_free(2)[OF rep] disj pool_rep_free(3)[OF rep]] n
      by (simp add: m1_def hd_array_chunks)
    moreover have "p \<notin> set (array_chunks (v_chunk_sz V) arr n @ v_free V)"
      if "p \<in> {Pool_free_chunk pool, Pool_array_starts pool, ArrayStart_next start, ArrayStart_arr start}" for p
    proof -
      have "p \<notin> set (all_chunks V)"
        using that fresh(1)[of p] fresh(2)[of p] chunk_not_cell[OF rep, of p] by (auto simp: meta_cells_def)
      with pool_rep_free(1)[OF rep] have "p \<notin> set (v_free V)" by blast
      with that cells(2) show ?thesis by auto
    qed
    ultimately show "chain (rd64 m) arr (array_chunks (v_chunk_sz V) arr n @ v_free V)"
      using arrs(1) pool_rep_free(2)[OF rep] unfolding m_def m3_def
      by (simp add: byte_mem.chain_wr_other al)
  qed
qed

section \<open>Running the function\<close>

lemma expand_data:
  assumes wf: "heap_wf h" and pool: "(pool, psz) \<in> set (live h)" "24 \<le> unat psz"
    and start: "(start, sizeof_ArrayStart) \<in> set (live h)"
    and arr: "array_block h csz arr n" and B: "B \<in> set (live h)" "fst B \<notin> {pool, start, arr}"
  shows "block_data (wr64 (wr64 (wr64 (wr64 (link wr64 (bytes h) (array_chunks csz arr n) l)
      (Pool_free_chunk pool) v1) (ArrayStart_arr start) v2) (ArrayStart_next start) v3)
      (Pool_array_starts pool) v4) B = block_data (bytes h) B"
proof -
  note w = block_data_new_field[OF wf pool start B]
  have "block_data (link wr64 (bytes h) (array_chunks csz arr n) l) B = block_data (bytes h) B"
    using B by (intro block_data_link_other[OF wf arr]) auto
  then show ?thesis by (simp add: w)
qed

lemma link_extra_link:
  assumes rep: "pool_rep h pool V" and arr: "array_block h (v_chunk_sz V) arr n"
    and ch: "Pool_chunk_sz pool \<notin> set (array_chunks (v_chunk_sz V) arr n)"
      "Pool_free_chunk pool \<notin> set (array_chunks (v_chunk_sz V) arr n)"
  obtains m where "link_extra h pool arr 0 (of_nat (n - 1)) = Some (h\<lparr>bytes := m\<rparr>)"
    "\<And>l. wr64 m (arr + of_nat (n - 1) * v_chunk_sz V) l
      = link wr64 (bytes h) (array_chunks (v_chunk_sz V) arr n) l"
    "rd64 m (Pool_chunk_sz pool) = v_chunk_sz V"
    "rd64 m (Pool_free_chunk pool) = rd64 (bytes h) (Pool_free_chunk pool)"
proof -
  let ?csz = "v_chunk_sz V" and ?last = "arr + of_nat (n - 1) * v_chunk_sz V"
  have n: "0 < n" using arr by (simp add: array_block_def)
  have csz: "rd64 (bytes h) (Pool_chunk_sz pool) = ?csz" using rep by (simp add: pool_rep_def)
  note cells = pool_rep_pool_cells[OF rep]
  obtain m where m: "link_chunks h arr ?csz 0 (of_nat (n - 1)) = Some (h\<lparr>bytes := m\<rparr>)"
    and l: "\<And>l. wr64 m ?last l = link wr64 (bytes h) (array_chunks ?csz arr n) l"
    using link_chunks_link[OF arr n] by auto
  have x: "link_extra h pool arr 0 (of_nat (n - 1)) = Some (h\<lparr>bytes := m\<rparr>)"
    using link_extra_link_chunks[OF arr n cells(3) csz ch(1)] m by simp
  have lm: "?last \<in> set (array_chunks ?csz arr n)" 
    unfolding array_chunks_def set_map by (rule image_eqI[of _ _ "n - 1"]) (use n in auto)
  have keep: "rd64 m p = rd64 (bytes h) p"
    if p: "aligned p" "p \<notin> set (array_chunks ?csz arr n)" for p
  proof -
    have "aligned ?last" using array_block_aligned[OF arr] lm by (auto simp: list_all_iff)
    moreover have "p \<noteq> ?last" using p(2) lm by blast
    ultimately have "rd64 m p = rd64 (wr64 m ?last 0) p" using p(1) by (simp add: rd64_wr64_other)
    also have "\<dots> = rd64 (bytes h) p"
      unfolding l using p array_block_aligned[OF arr] by (intro byte_mem.rd_link_other) auto
    finally show ?thesis .
  qed
  show thesis using cells(1,3) ch csz by (intro that[OF x l]) (simp_all add: keep cell_ok_def)
qed

lemma pool_expand_linked:
  assumes rep: "pool_rep h pool V" and sz: "extra_sz \<noteq> 0"
    and start: "call_alloc e h sizeof_ArrayStart = Some (start, h1)" "start \<noteq> 0"
      "start \<notin> fst ` set (live h)"
    and h1: "h1 = h\<lparr>live := (start, sizeof_ArrayStart) # live h\<rparr>" "heap_wf h1"
    and arr: "call_alloc e h1 (extra_sz * v_chunk_sz V) = Some (arr, h2)" "arr \<noteq> 0"
      "arr \<notin> fst ` set (live h1)"
    and h2: "h2 = h1\<lparr>live := (arr, extra_sz * v_chunk_sz V) # live h1\<rparr>" "heap_wf h2"
    and bound: "unat extra_sz * unat (v_chunk_sz V) < 2 ^ 64"
  obtains h' where "pool_expand e h pool extra_sz = Some (True, h')"
    "pool_rep h' pool (expanded_view V start arr (unat extra_sz))"
    "live h' = (arr, extra_sz * v_chunk_sz V) # (start, sizeof_ArrayStart) # live h"
    "\<And>B. B \<in> set (live h) \<Longrightarrow> fst B \<noteq> pool \<Longrightarrow> block_data (bytes h') B = block_data (bytes h) B"
    "\<And>q. within q (pool, v_pool_sz V) \<Longrightarrow> aligned q \<Longrightarrow> q \<notin> {Pool_free_chunk pool, Pool_array_starts pool} \<Longrightarrow>
       rd64 (bytes h') q = rd64 (bytes h) q"
proof -
  let ?csz = "v_chunk_sz V" and ?n = "unat extra_sz"
  have rep1: "pool_rep h1 pool V" using pool_rep_more_blocks[OF rep h1(2)] by (auto simp: h1(1))
  have rep2: "pool_rep h2 pool V" using pool_rep_more_blocks[OF rep h2(2)] by (auto simp: h1(1) h2(1))
  have mem: "(start, sizeof_ArrayStart) \<in> set (live h2)" by (simp add: h1(1) h2(1))
  have blk: "array_block h2 ?csz arr ?n"
    using rep h2 sz bound by (auto simp: array_block_def pool_rep_def unat_gt_0)
  have "fst ` set (pool_blocks pool V) \<subseteq> fst ` set (live h)"
    using rep by (intro image_mono) (simp add: pool_rep_def)
  then have fr: "start \<notin> fst ` set (pool_blocks pool V)" "arr \<notin> fst ` set (pool_blocks pool V)"
    using start(3) arr(3) by (auto simp: h1(1))
  have ne: "start \<noteq> arr" using arr(3) by (auto simp: h1(1))
  have n: "0 < ?n" using sz by (simp add: unat_gt_0)
  have last: "extra_sz - 1 = of_nat (?n - 1)" using n by simp
  note fresh = fresh_not_cell[OF rep2 mem fr(1) blk fr(2)]
  have ch: "Pool_chunk_sz pool \<notin> set (array_chunks ?csz arr ?n)"
    "Pool_free_chunk pool \<notin> set (array_chunks ?csz arr ?n)" by (auto intro!: fresh simp: meta_cells_def)
  obtain m where m: "link_extra h2 pool arr 0 (extra_sz - 1) = Some (h2\<lparr>bytes := m\<rparr>)"
    "\<And>l. wr64 m (arr + (extra_sz - 1) * ?csz) l = link wr64 (bytes h2) (array_chunks ?csz arr ?n) l"
    "rd64 m (Pool_chunk_sz pool) = ?csz" "rd64 m (Pool_free_chunk pool) = rd64 (bytes h2) (Pool_free_chunk pool)"
    using link_extra_link[OF rep2 blk ch, folded last] by metis
  have lastok: "cell_ok h2 (arr + (extra_sz - 1) * ?csz)"
    unfolding last using n by (intro array_block_cell(3)[OF blk]) simp
  have nb: "pool \<noteq> start" "pool \<noteq> arr" using fr by (auto simp: pool_blocks_def)
  note cells = new_cells(3)[OF pool_rep_blocks(1,2)[OF rep2] pool_rep_pool_sz(1)[OF rep2] mem blk nb ne]
  note fin = expand_bytes[OF rep2 mem fr(1) blk fr(2) ne]
  show thesis
  proof (rule that[OF _ fin(2)])
    show "pool_expand e h pool extra_sz = Some (True, h2\<lparr>bytes := wr64 (wr64 (wr64 (wr64
        (link wr64 (bytes h2) (array_chunks ?csz arr ?n) (rd64 (bytes h2) (Pool_free_chunk pool)))
        (Pool_free_chunk pool) arr) (ArrayStart_arr start) arr) (ArrayStart_next start)
        (rd64 (bytes h2) (Pool_array_starts pool))) (Pool_array_starts pool) start\<rparr>)"
      using start arr sz cells lastok pool_rep_nonnull[OF rep] pool_rep_pool_cells(3)[OF rep1] rep1
      by (simp add: pool_expand_def m fin(1) pool_rep_def)
    fix B assume B: "B \<in> set (live h)" "fst B \<noteq> pool"
    then have "B \<in> set (live h2)" by (simp add: h1(1) h2(1))
    moreover have "fst B \<notin> {pool, start, arr}" using B start(3) arr(3) by (force simp: h1(1))
    ultimately show "block_data (bytes (h2\<lparr>bytes := wr64 (wr64 (wr64 (wr64
        (link wr64 (bytes h2) (array_chunks ?csz arr ?n) (rd64 (bytes h2) (Pool_free_chunk pool)))
        (Pool_free_chunk pool) arr) (ArrayStart_arr start) arr) (ArrayStart_next start)
        (rd64 (bytes h2) (Pool_array_starts pool))) (Pool_array_starts pool) start\<rparr>)) B
        = block_data (bytes h) B"
      using expand_data[OF pool_rep_blocks(1,2)[OF rep2] pool_rep_pool_sz(1)[OF rep2] mem blk] by (simp add: h1(1) h2(1))
  qed (use fin(3) in \<open>simp_all add: h1(1) h2(1)\<close>)
qed

lemma pool_expand_cases:
  assumes e: "ext_ok e" and rep: "pool_rep h pool V" and sz: "extra_sz \<noteq> 0"
    and bound: "unat extra_sz * unat (v_chunk_sz V) < 2 ^ 64"
  obtains (fail) "pool_expand e h pool extra_sz = Some (False, h)"
  | (ok) start arr h' where "pool_expand e h pool extra_sz = Some (True, h')"
      "pool_rep h' pool (expanded_view V start arr (unat extra_sz))"
      "live h' = (arr, extra_sz * v_chunk_sz V) # (start, sizeof_ArrayStart) # live h"
      "\<And>B. B \<in> set (live h) \<Longrightarrow> fst B \<noteq> pool \<Longrightarrow> block_data (bytes h') B = block_data (bytes h) B"
      "\<And>q. within q (pool, v_pool_sz V) \<Longrightarrow> aligned q \<Longrightarrow> q \<notin> {Pool_free_chunk pool, Pool_array_starts pool} \<Longrightarrow>
       rd64 (bytes h') q = rd64 (bytes h) q"
proof -
  have wf: "heap_wf h" using rep by (rule pool_rep_blocks(1))
  note nz = pool_rep_nonnull[OF rep]
  show thesis
  proof (cases rule: call_alloc_cases[OF e wf, of sizeof_ArrayStart, case_names nostart start])
    case nostart
    then show thesis using nz sz by (intro fail) (simp add: pool_expand_def)
  next
    case s: (start start)
    define h1 where "h1 = h\<lparr>live := (start, sizeof_ArrayStart) # live h\<rparr>"
    note s = s[folded h1_def]
    have rep1: "pool_rep h1 pool V" using pool_rep_more_blocks[OF rep s(3)] by (auto simp: h1_def)
    show thesis
    proof (cases rule: call_alloc_cases[OF e s(3), of "extra_sz * v_chunk_sz V", case_names noarr arr])
      case noarr
      have "call_free e h1 start = Some h"
        using call_free_live[OF e, of start sizeof_ArrayStart h1] s(2,4)
        by (simp add: h1_def drop_block_notin)
      then show thesis using nz sz s noarr rep1 pool_rep_pool_cells(3)[OF rep1]
        by (intro fail) (simp add: pool_expand_def pool_rep_def)
    next
      case a: (arr arr)
      show thesis
        by (rule pool_expand_linked[OF rep sz s(1,2,4) h1_def s(3) a(1,2,4) refl a(3) bound]) (rule ok)
    qed
  qed
qed

lemma pool_expand_invalid:
  "pool_expand e h 0 extra_sz = Some (False, h)" "pool_expand e h pool 0 = Some (False, h)"
  by (simp_all add: pool_expand_def)

lemma chunk_data_block_cong:
  assumes rep: "pool_rep h pool V" and c: "c \<in> set (all_chunks V)"
    and B: "\<And>B. B \<in> set (live h) \<Longrightarrow> fst B \<noteq> pool \<Longrightarrow> block_data (bytes h') B = block_data (bytes h) B"
  shows "chunk_data h' (v_chunk_sz V) c = chunk_data h (v_chunk_sz V) c"
proof -
  from c obtain s a n i where sa: "(s, a, n) \<in> set (v_arrays V)" and i: "i < n"
    and ci: "c = a + of_nat i * v_chunk_sz V" by (rule all_chunksE)
  note blk = pool_rep_array_block[OF rep sa]
  have "(a, of_nat n * v_chunk_sz V) \<in> set (live h)" using blk by (simp add: array_block_def)
  then have eq: "block_data (bytes h') (a, of_nat n * v_chunk_sz V)
      = block_data (bytes h) (a, of_nat n * v_chunk_sz V)"
    using pool_rep_bases(2)[OF rep sa] by (intro B) auto
  have u: "unat (of_nat n * v_chunk_sz V) = n * unat (v_chunk_sz V)"
    using blk by (intro unat_array_block) (simp add: array_block_def)
  have "bytes h' (c + of_nat k) = bytes h (c + of_nat k)" if "k < unat (v_chunk_sz V)" for k
  proof -
    have "i * unat (v_chunk_sz V) + k < Suc i * unat (v_chunk_sz V)" using that by simp
    also have "\<dots> \<le> n * unat (v_chunk_sz V)" using i by (intro mult_le_mono1) simp
    finally have lt: "i * unat (v_chunk_sz V) + k < unat (of_nat n * v_chunk_sz V)" by (simp only: u)
    have "bytes h' (a + of_nat (i * unat (v_chunk_sz V) + k))
        = bytes h (a + of_nat (i * unat (v_chunk_sz V) + k))" 
      using bspec[OF eq[unfolded block_data_def prod.case map_eq_conv set_upt], of "i * unat (v_chunk_sz V) + k"]
        lt by (simp only: atLeastLessThan_iff le0 simp_thms)
    then show ?thesis by (simp add: ci add.assoc)
  qed
  then show ?thesis by (simp add: chunk_data_def)
qed

end
