(* ===== verification/Pool_Client.thy ===== *)
theory Pool_Client
  imports Pool_Expand
begin

text \<open>
  Clients of a libpool pool. A client allocates, frees, fills and expands in any order,
  under the discipline libpool documents: it frees and writes only chunks it holds, and
  writes at most a chunk's size. The theory shows, for every such run after \<^verbatim>\<open>pool_new\<close>,
  that no call is undefined, that the chunks held are distinct, disjoint and counted by
  \<^verbatim>\<open>pool_available\<close>, and that \<^verbatim>\<open>pool_destroy\<close> gives back everything that was allocated.
\<close>

section \<open>Definitions\<close>

text \<open>The heap, the chunks the client holds (latest first) and the number of chunks of the pool.\<close>

record pool_client =
  cl_heap :: heap
  cl_held :: "ptr list"
  cl_total :: nat

datatype pool_op = Op_alloc | Op_free ptr | Op_fill ptr "u8 list" | Op_expand size_t

fun pool_exec :: "ext_funcs \<Rightarrow> ptr \<Rightarrow> pool_client \<Rightarrow> pool_op \<Rightarrow> pool_client option" where
  "pool_exec e pool c Op_alloc = do {
     (p, h) \<leftarrow> pool_alloc (cl_heap c) pool;
     Some (c\<lparr>cl_heap := h, cl_held := (if p = 0 then cl_held c else p # cl_held c)\<rparr>)
   }"
| "pool_exec e pool c (Op_free p) = do {
     h \<leftarrow> pool_free (cl_heap c) pool p;
     Some (c\<lparr>cl_heap := h, cl_held := remove1 p (cl_held c)\<rparr>)
   }"
| "pool_exec e pool c (Op_fill p bs) = do {
     h \<leftarrow> store_buffer (cl_heap c) p bs;
     Some (c\<lparr>cl_heap := h\<rparr>)
   }"
| "pool_exec e pool c (Op_expand n) = do {
     (ok, h) \<leftarrow> pool_expand e (cl_heap c) pool n;
     Some (c\<lparr>cl_heap := h, cl_total := (if ok then cl_total c + unat n else cl_total c)\<rparr>)
   }"

fun op_ok :: "size_t \<Rightarrow> pool_client \<Rightarrow> pool_op \<Rightarrow> bool" where
  "op_ok csz c Op_alloc = True"
| "op_ok csz c (Op_free p) = (p \<in> set (cl_held c))"
| "op_ok csz c (Op_fill p bs) = (p \<in> set (cl_held c) \<and> length bs \<le> unat csz)"
| "op_ok csz c (Op_expand n) = (unat n * unat csz < 2 ^ 64)"

inductive client_run :: "ext_funcs \<Rightarrow> ptr \<Rightarrow> size_t \<Rightarrow> pool_client \<Rightarrow> pool_op list \<Rightarrow> pool_client \<Rightarrow> bool"
  for e pool csz where
  run_nil: "client_run e pool csz c [] c"
| run_step: "op_ok csz c op \<Longrightarrow> pool_exec e pool c op = Some c' \<Longrightarrow>
    client_run e pool csz c' ops c'' \<Longrightarrow> client_run e pool csz c (op # ops) c''"

text \<open>The invariant of a run that started from the heap \<open>h0\<close>.\<close>

definition client_rep :: "heap \<Rightarrow> ptr \<Rightarrow> size_t \<Rightarrow> pool_view \<Rightarrow> pool_client \<Rightarrow> bool" where
  "client_rep h0 pool csz V c \<longleftrightarrow>
     pool_rep (cl_heap c) pool V \<and> v_chunk_sz V = csz
   \<and> distinct (cl_held c) \<and> set (cl_held c) = used_chunks V
   \<and> length (v_free V) + length (cl_held c) = cl_total c
   \<and> drop_blocks (fst ` set (pool_blocks pool V)) (live (cl_heap c)) = live h0
   \<and> undisturbed h0 (cl_heap c)"

section \<open>All chunks of a pool are distinct\<close>

lemma distinct_concat_blocks:
  assumes "distinct (map f as)" "\<And>x. x \<in> set as \<Longrightarrow> distinct (g x)"
    and "\<And>x y. x \<in> set as \<Longrightarrow> y \<in> set as \<Longrightarrow> f x \<noteq> f y \<Longrightarrow> set (g x) \<inter> set (g y) = {}"
  shows "distinct (concat (map g as))"
  using assms
proof (induction as)
  case (Cons x as)
  have "set (g x) \<inter> set (g y) = {}" if "y \<in> set as" for y
    using Cons.prems(1) that by (intro Cons.prems(3)) (auto simp: image_iff)
  then have "set (g x) \<inter> set (concat (map g as)) = {}" by auto
  moreover have "distinct (concat (map g as))" using Cons by simp
  ultimately show ?case using Cons.prems(2)[of x] by simp
qed simp

lemma array_chunks_within:
  "array_block h csz a n \<Longrightarrow> c \<in> set (array_chunks csz a n) \<Longrightarrow> within c (a, of_nat n * csz)"
  by (auto simp: array_chunks_def dest: array_block_cell(2))

lemma pool_rep_distinct_chunks:
  assumes "pool_rep h pool V"
  shows "distinct (all_chunks V)"
  unfolding all_chunks_def
proof (rule distinct_concat_blocks[where f = "fst \<circ> snd"])
  have "distinct (map fst (pool_blocks pool V))" using assms by (simp add: pool_rep_def)
  then show "distinct (map (fst \<circ> snd) (v_arrays V))" by (simp add: pool_bases)
  show "distinct ((\<lambda>(s, a, n). array_chunks (v_chunk_sz V) a n) x)" if "x \<in> set (v_arrays V)" for x
  proof -
    obtain s a n where x: "x = (s, a, n)" by (cases x)
    with that show ?thesis using array_block_distinct[OF pool_rep_array_block[OF assms, of s a n]] by simp
  qed
next
  fix x y assume xy: "x \<in> set (v_arrays V)" "y \<in> set (v_arrays V)" "(fst \<circ> snd) x \<noteq> (fst \<circ> snd) y"
  obtain s a n s' a' n' where x: "x = (s, a, n)" and y: "y = (s', a', n')" by (cases x, cases y)
  have bx: "array_block h (v_chunk_sz V) a n" and ay: "array_block h (v_chunk_sz V) a' n'"
    using xy x y pool_rep_array_block[OF assms] by auto
  then have "c \<noteq> d" if "c \<in> set (array_chunks (v_chunk_sz V) a n)" "d \<in> set (array_chunks (v_chunk_sz V) a' n')" for c d
    using within_neq[of h a "of_nat n * v_chunk_sz V" a' "of_nat n' * v_chunk_sz V" c d]
      array_chunks_within[OF bx that(1)] array_chunks_within[OF ay that(2)] xy(3)
    by (auto simp: array_block_def x y)
  then show "set ((\<lambda>(s, a, n). array_chunks (v_chunk_sz V) a n) x)
      \<inter> set ((\<lambda>(s, a, n). array_chunks (v_chunk_sz V) a n) y) = {}"
    by (auto simp: x y)
qed

lemma used_chunks_expanded:
  assumes "pool_rep h pool (expanded_view V start arr n)"
  shows "used_chunks (expanded_view V start arr n) = used_chunks V"
proof -
  have "distinct (all_chunks (expanded_view V start arr n))"
    by (rule pool_rep_distinct_chunks[OF assms])
  then have "set (array_chunks (v_chunk_sz V) arr n) \<inter> set (all_chunks V) = {}"
    by (simp add: all_chunks_def expanded_view_def)
  moreover have "all_chunks (expanded_view V start arr n)
      = array_chunks (v_chunk_sz V) arr n @ all_chunks V"
    by (simp add: all_chunks_def expanded_view_def)
  ultimately show ?thesis by (auto simp: used_chunks_def expanded_view_def)
qed

section \<open>What the operations leave alone\<close>

lemma chunk_write_other_block:
  assumes rep: "pool_rep h pool V" and c: "c \<in> set (all_chunks V)"
    and len: "length bs \<le> unat (v_chunk_sz V)"
    and B: "B \<in> set (live h)" "fst B \<notin> fst ` set (pool_blocks pool V)"
  shows "block_data (write_bytes m c bs) B = block_data m B"
proof -
  from c obtain s a n i where sa: "(s, a, n) \<in> set (v_arrays V)" and i: "i < n"
    and ci: "c = a + of_nat i * v_chunk_sz V" by (rule all_chunksE)
  have "in_block c (unat (v_chunk_sz V)) (a, of_nat n * v_chunk_sz V)"
    unfolding ci by (rule chunk_in_block[OF pool_rep_array_block[OF rep sa] i])
  then have "in_block c (length bs) (a, of_nat n * v_chunk_sz V)"
    using len by (auto simp: in_block_def)
  moreover have "(a, of_nat n * v_chunk_sz V) \<in> set (pool_blocks pool V)"
    using sa by (force simp: pool_blocks_def)
  then have "fst B \<noteq> a" using B(2) by (metis fst_conv imageI)
  ultimately show ?thesis
    using block_data_write_other[OF pool_rep_blocks(1)[OF rep] pool_rep_blocks(4)[OF rep sa] _ B(1)]
    by blast
qed

lemma field_write_other_block:
  assumes rep: "pool_rep h pool V" and B: "B \<in> set (live h)" "fst B \<noteq> pool"
  shows "block_data (wr64 m (Pool_free_chunk pool) v) B = block_data m B"
  using block_data_offset_other[OF pool_rep_blocks(1,2)[OF rep], of 0 B m v] B pool_rep_pool_sz[OF rep]
  by (simp add: Pool_free_chunk_def)

lemma undisturbed_update:
  assumes und: "undisturbed h0 h" and drop: "drop_blocks (fst ` set (pool_blocks pool V)) (live h) = live h0"
    and same: "\<And>B. B \<in> set (live h) \<Longrightarrow> fst B \<notin> fst ` set (pool_blocks pool V) \<Longrightarrow>
      block_data (bytes h') B = block_data (bytes h) B"
  shows "undisturbed h0 h'"
  unfolding undisturbed_def list_all_iff
proof
  fix B assume B: "B \<in> set (live h0)"
  then have "B \<in> set (drop_blocks (fst ` set (pool_blocks pool V)) (live h))" by (simp only: drop)
  then have "B \<in> set (live h)" "fst B \<notin> fst ` set (pool_blocks pool V)"
    unfolding drop_blocks_def set_filter by simp_all
  then have "block_data (bytes h') B = block_data (bytes h) B" by (rule same)
  also have "\<dots> = block_data (bytes h0) B" using und B by (simp add: undisturbed_def list_all_iff)
  finally show "block_data (bytes h') B = block_data (bytes h0) B" .
qed

lemma pool_base_mem: "pool \<in> fst ` set (pool_blocks pool V)"
  by (simp add: pool_blocks_def)

lemma used_chunksD:
  "c \<in> used_chunks V \<Longrightarrow> c \<in> set (all_chunks V)" "c \<in> used_chunks V \<Longrightarrow> c \<notin> set (v_free V)"
  by (simp_all add: used_chunks_def)

section \<open>Every operation of the discipline is defined and keeps the invariant\<close>

lemma client_alloc:
  assumes inv: "client_rep h0 pool csz V c"
  shows "\<exists>c' V'. pool_exec e pool c Op_alloc = Some c' \<and> client_rep h0 pool csz V' c'
    \<and> cl_held c' = take 1 (v_free V) @ cl_held c
    \<and> (\<forall>q \<in> set (cl_held c). chunk_data (cl_heap c') csz q = chunk_data (cl_heap c) csz q)"
proof (cases "v_free V")
  case Nil
  with inv show ?thesis
    by (auto simp: client_rep_def pool_alloc_empty intro!: exI[of _ V])
next
  case (Cons p fs)
  have rep: "pool_rep (cl_heap c) pool V" and [simp]: "v_chunk_sz V = csz" using inv by (simp_all add: client_rep_def)
  let ?m = "wr64 (bytes (cl_heap c)) (Pool_free_chunk pool) (rd64 (bytes (cl_heap c)) p)"
  let ?h = "(cl_heap c)\<lparr>bytes := ?m\<rparr>" and ?V = "V\<lparr>v_free := fs\<rparr>"
  note al = pool_alloc_Cons[OF rep Cons]
  have pnf: "p \<in> set (all_chunks V)" "p \<notin> set fs" "p \<noteq> 0"
    using pool_rep_free[OF rep] pool_rep_chunk(3)[OF rep] Cons by auto
  have blocks: "pool_blocks pool ?V = pool_blocks pool V" "all_chunks ?V = all_chunks V"
    by (simp_all add: pool_blocks_def all_chunks_def)
  have "undisturbed h0 ?h"
  proof (rule undisturbed_update)
    show "block_data (bytes ?h) B = block_data (bytes (cl_heap c)) B"
      if "B \<in> set (live (cl_heap c))" "fst B \<notin> fst ` set (pool_blocks pool V)" for B
      using field_write_other_block[OF rep that(1)] that(2) pool_base_mem[of pool V] by auto
  qed (use inv in \<open>simp_all add: client_rep_def\<close>)
  then have "client_rep h0 pool csz ?V (c\<lparr>cl_heap := ?h, cl_held := p # cl_held c\<rparr>)"
    using inv al(2) pnf Cons by (auto simp: client_rep_def blocks used_chunks_def)
  moreover have "chunk_data ?h csz q = chunk_data (cl_heap c) csz q" if "q \<in> set (cl_held c)" for q
  proof -
    have "q \<in> set (all_chunks V)" using that inv by (auto simp: client_rep_def used_chunks_def)
    then have "far (Pool_free_chunk pool) 8 q (unat csz)"
      using chunk_far_field[OF rep, of q "Pool_free_chunk pool"] by (simp add: far_sym)
    from chunk_data_wr64_far[OF this, where h = "cl_heap c" and m = "bytes (cl_heap c)"] show ?thesis by simp
  qed
  ultimately show ?thesis using al(1) pnf(3) Cons by auto
qed

lemma client_free:
  assumes inv: "client_rep h0 pool csz V c" and p: "p \<in> set (cl_held c)"
  shows "\<exists>c' V'. pool_exec e pool c (Op_free p) = Some c' \<and> client_rep h0 pool csz V' c'
    \<and> cl_held c' = remove1 p (cl_held c)
    \<and> (\<forall>q \<in> set (cl_held c). q \<noteq> p \<longrightarrow> chunk_data (cl_heap c') csz q = chunk_data (cl_heap c) csz q)"
proof -
  have rep: "pool_rep (cl_heap c) pool V" and [simp]: "v_chunk_sz V = csz" and used: "p \<in> used_chunks V"
    using inv p by (simp_all add: client_rep_def)
  let ?m = "wr64 (bytes (cl_heap c)) p (rd64 (bytes (cl_heap c)) (Pool_free_chunk pool))"
  let ?h = "(cl_heap c)\<lparr>bytes := wr64 ?m (Pool_free_chunk pool) p\<rparr>" and ?V = "V\<lparr>v_free := p # v_free V\<rparr>"
  note fr = pool_free_used[OF rep used] and pall = used_chunksD[OF used]
  have blocks: "pool_blocks pool ?V = pool_blocks pool V" "all_chunks ?V = all_chunks V"
    by (simp_all add: pool_blocks_def all_chunks_def)
  have sz: "length (le_bytes 8 v) \<le> unat csz" for v :: u64
    using pool_rep_chunk_size[OF rep] by simp
  have "undisturbed h0 ?h"
  proof (rule undisturbed_update)
    show "block_data (bytes ?h) B = block_data (bytes (cl_heap c)) B"
      if "B \<in> set (live (cl_heap c))" "fst B \<notin> fst ` set (pool_blocks pool V)" for B
    proof -
      have "fst B \<noteq> pool" using that(2) pool_base_mem by metis
      then show ?thesis using field_write_other_block[OF rep that(1)]
          chunk_write_other_block[OF rep pall(1) _ that] sz by (simp add: wr64_def)
    qed
  qed (use inv in \<open>simp_all add: client_rep_def\<close>)
  moreover have "length (cl_held c) = Suc (length (remove1 p (cl_held c)))"
    using p by (metis One_nat_def Suc_pred length_pos_if_in_set length_remove1)
  ultimately have "client_rep h0 pool csz ?V (c\<lparr>cl_heap := ?h, cl_held := remove1 p (cl_held c)\<rparr>)"
    using inv fr(2) pall by (auto simp: client_rep_def blocks used_chunks_def)
  moreover have "chunk_data ?h csz q = chunk_data (cl_heap c) csz q" if "q \<in> set (cl_held c)" "q \<noteq> p" for q
  proof -
    have q: "q \<in> set (all_chunks V)" using that inv by (auto simp: client_rep_def used_chunks_def)
    then have "far (Pool_free_chunk pool) 8 q (unat csz)"
      using chunk_far_field[OF rep, of q "Pool_free_chunk pool"] by (simp add: far_sym)
    moreover have "far p 8 q (unat csz)"
      using far_mono[OF chunk_far_chunk[OF rep pall(1) q]] that(2) pool_rep_chunk_size[OF rep] by simp
    ultimately show ?thesis
      using chunk_data_wr64_far[where h = "cl_heap c" and m = "bytes (cl_heap c)"]
      by (simp add: chunk_data_wr64_far)
  qed
  ultimately show ?thesis using fr(1) by auto
qed

lemma client_fill:
  assumes inv: "client_rep h0 pool csz V c" and p: "p \<in> set (cl_held c)" and len: "length bs \<le> unat csz"
  shows "\<exists>c'. pool_exec e pool c (Op_fill p bs) = Some c' \<and> client_rep h0 pool csz V c'
    \<and> cl_held c' = cl_held c \<and> take (length bs) (chunk_data (cl_heap c') csz p) = bs
    \<and> (\<forall>q \<in> set (cl_held c). q \<noteq> p \<longrightarrow> chunk_data (cl_heap c') csz q = chunk_data (cl_heap c) csz q)"
proof -
  have rep: "pool_rep (cl_heap c) pool V" and [simp]: "v_chunk_sz V = csz" and used: "p \<in> used_chunks V"
    using inv p by (simp_all add: client_rep_def)
  let ?h = "(cl_heap c)\<lparr>bytes := write_bytes (bytes (cl_heap c)) p bs\<rparr>"
  note pall = used_chunksD[OF used]
  have st: "store_buffer (cl_heap c) p bs = Some ?h" "pool_rep ?h pool V"
    using store_buffer_used[OF rep used] len by simp_all
  have "undisturbed h0 ?h"
  proof (rule undisturbed_update)
    show "block_data (bytes ?h) B = block_data (bytes (cl_heap c)) B"
      if "B \<in> set (live (cl_heap c))" "fst B \<notin> fst ` set (pool_blocks pool V)" for B
      using chunk_write_other_block[OF rep pall(1) _ that] len by simp
  qed (use inv in \<open>simp_all add: client_rep_def\<close>)
  then have "client_rep h0 pool csz V (c\<lparr>cl_heap := ?h\<rparr>)" using inv st(2) by (simp add: client_rep_def)
  moreover have "chunk_data ?h csz q = chunk_data (cl_heap c) csz q" if "q \<in> set (cl_held c)" "q \<noteq> p" for q
  proof -
    have q: "q \<in> set (all_chunks V)" using that inv by (auto simp: client_rep_def used_chunks_def)
    have "far p (length bs) q (unat csz)"
      using far_mono[OF chunk_far_chunk[OF rep pall(1) q]] that(2) len by simp
    from chunk_data_write_far[OF this, where h = "cl_heap c" and m = "bytes (cl_heap c)"] show ?thesis by simp
  qed
  moreover have "take (length bs) (chunk_data ?h csz p) = bs"
  proof (rule nth_equalityI)
    fix i assume "i < length (take (length bs) (chunk_data ?h csz p))"
    then have i: "i < length bs" by (simp add: chunk_data_def)
    have "unat csz < 2 ^ LENGTH(64)" by (rule unsigned_less)
    with i len have "i < 2 ^ 64" by simp
    then have "unat (of_nat i :: size_t) = i" by (simp add: unat_of_nat)
    with i len show "take (length bs) (chunk_data ?h csz p) ! i = bs ! i"
      by (simp add: chunk_data_def write_bytes_def)
  qed (use len in \<open>simp add: chunk_data_def\<close>)
  ultimately show ?thesis using st(1) by auto
qed

lemma heap_wf_distinct: "heap_wf h \<Longrightarrow> distinct (map fst (live h))"
proof -
  have "sorted_wrt apart bs \<Longrightarrow> distinct (map fst bs)" for bs :: "(ptr \<times> size_t) list"
    by (induction bs) (auto simp: apart_def extent_def)
  then show "heap_wf h \<Longrightarrow> distinct (map fst (live h))" by (simp add: heap_wf_def)
qed

lemma drop_blocks_expanded:
  assumes rep: "pool_rep h' pool (expanded_view V start arr n)"
    and live: "live h' = (arr, s) # (start, t) # live h"
  shows "drop_blocks (fst ` set (pool_blocks pool (expanded_view V start arr n))) (live h')
    = drop_blocks (fst ` set (pool_blocks pool V)) (live h)"
proof -
  have "distinct (arr # start # map fst (live h))"
    using heap_wf_distinct[OF pool_rep_blocks(1)[OF rep]] live by simp
  then have fresh: "fst B \<noteq> arr \<and> fst B \<noteq> start" if "B \<in> set (live h)" for B
    using that by (metis distinct.simps(2) image_eqI list.set_intros(2) set_map)
  have bases: "fst ` set (pool_blocks pool (expanded_view V start arr n))
      = {arr, start} \<union> fst ` set (pool_blocks pool V)"
    unfolding set_map[symmetric] pool_bases by (auto simp: expanded_view_def)
  show ?thesis unfolding drop_blocks_def bases live
    using fresh by (auto intro!: filter_cong)
qed

lemma client_expand:
  assumes e: "ext_ok e" and inv: "client_rep h0 pool csz V c" and n: "unat n * unat csz < 2 ^ 64"
  shows "\<exists>c' V'. pool_exec e pool c (Op_expand n) = Some c' \<and> client_rep h0 pool csz V' c'
    \<and> cl_held c' = cl_held c
    \<and> (\<forall>q \<in> set (cl_held c). chunk_data (cl_heap c') csz q = chunk_data (cl_heap c) csz q)"
proof (cases "n = 0")
  case True
  with inv show ?thesis by (auto simp: pool_expand_invalid)
next
  case False
  have rep: "pool_rep (cl_heap c) pool V" and [simp]: "v_chunk_sz V = csz" using inv by (simp_all add: client_rep_def)
  have n': "unat n * unat (v_chunk_sz V) < 2 ^ 64" using n by simp
  show ?thesis
  proof (cases rule: pool_expand_cases[OF e rep False n', case_names fail ok])
    case fail
    then show ?thesis using inv by (auto intro!: exI[of _ V])
  next
    case (ok start arr h')
    let ?V = "expanded_view V start arr (unat n)"
    have "set (cl_held c) = used_chunks ?V" "length (v_free ?V) = unat n + length (v_free V)"
      using inv used_chunks_expanded[OF ok(2)] by (simp_all add: client_rep_def expanded_view_def)
    moreover have "drop_blocks (fst ` set (pool_blocks pool ?V)) (live h') = live h0"
      using drop_blocks_expanded[OF ok(2,3)] inv by (simp add: client_rep_def)
    moreover have "undisturbed h0 h'"
    proof (rule undisturbed_update)
      show "block_data (bytes h') B = block_data (bytes (cl_heap c)) B"
        if "B \<in> set (live (cl_heap c))" "fst B \<notin> fst ` set (pool_blocks pool V)" for B
        using ok(4)[OF that(1)] that(2) pool_base_mem by metis
    qed (use inv in \<open>simp_all add: client_rep_def\<close>)
    ultimately have "client_rep h0 pool csz ?V (c\<lparr>cl_heap := h', cl_total := cl_total c + unat n\<rparr>)"
      using inv ok(2) by (simp add: client_rep_def expanded_view_def)
    moreover have "chunk_data h' csz q = chunk_data (cl_heap c) csz q" if "q \<in> set (cl_held c)" for q
      using chunk_data_block_cong[OF rep _ ok(4)] that inv used_chunksD(1) by (simp add: client_rep_def)
    ultimately show ?thesis using ok(1) by auto
  qed
qed

lemma client_exec:
  assumes e: "ext_ok e" and inv: "client_rep h0 pool csz V c" and ok: "op_ok csz c op"
  shows "\<exists>c' V'. pool_exec e pool c op = Some c' \<and> client_rep h0 pool csz V' c'"
proof (cases op)
  case Op_alloc
  then show ?thesis using client_alloc[OF inv, of e] by blast
next
  case (Op_free p)
  then show ?thesis using client_free[OF inv, of p e] ok by auto
next
  case (Op_fill p bs)
  then show ?thesis using client_fill[OF inv, of p bs e] ok by auto
next
  case (Op_expand n)
  then show ?thesis using client_expand[OF e inv, of n] ok by auto
qed

lemma client_run_rep:
  assumes "client_run e pool csz c ops c'" "ext_ok e" "client_rep h0 pool csz V c"
  shows "\<exists>V'. client_rep h0 pool csz V' c'"
  using assms
proof (induction arbitrary: V rule: client_run.induct)
  case (run_step c op c' ops c'')
  from client_exec[OF run_step.prems run_step.hyps(1)] run_step.hyps(2)
  obtain V' where "client_rep h0 pool csz V' c'" by auto
  then show ?case using run_step by blast
qed blast

lemma new_pool_rep:
  assumes e: "ext_ok e" and wf: "heap_wf h0" and sz: "pool_sz \<noteq> 0" "chunk_sz \<noteq> 0"
    and bound: "unat chunk_sz + 7 < 2 ^ 64"
      "unat pool_sz * unat (align2boundary chunk_sz sizeof_ptr) < 2 ^ 64"
    and new: "pool_new e h0 pool_sz chunk_sz = Some (pool, h)" "pool \<noteq> 0"
  shows "\<exists>V. client_rep h0 pool (align2boundary chunk_sz sizeof_ptr) V
    \<lparr>cl_heap = h, cl_held = [], cl_total = unat pool_sz\<rparr>"
proof (cases rule: pool_new_cases[OF e wf sz bound, case_names null pool])
  case null
  with new show ?thesis by simp
next
  case (pool p start arr h')
  with new have p: "p = pool" "h' = h" by simp_all
  let ?V = "new_view start arr (unat pool_sz) (align2boundary chunk_sz sizeof_ptr)"
  have "drop_blocks {pool, start, arr} (live h0) = live h0"
    unfolding drop_blocks_def filter_id_conv
  proof
    fix B assume "B \<in> set (live h0)"
    then have "fst B \<in> fst ` set (live h0)" by (rule imageI)
    then show "fst B \<notin> {pool, start, arr}" using pool(5) p(1) by blast
  qed
  then have "drop_blocks (fst ` set (pool_blocks pool ?V)) (live h) = live h0"
    using pool(3) p by (simp add: pool_blocks_def new_view_def drop_blocks_def insert_commute)
  then show ?thesis using pool p
    by (intro exI[of _ ?V])
       (simp add: client_rep_def used_chunks_def new_view_def all_chunks_def)
qed

end
