(* ===== verification/Mempool.thy ===== *)
theory Mempool
  imports Pool_Client
begin

text \<open>
  The C++ class \<^verbatim>\<open>Mempool\<close> (\<^verbatim>\<open>common/include/common/mempool.hpp\<close>, \<^verbatim>\<open>common/src/mempool.cpp\<close>), a
  wrapper of a libpool pool that throws instead of returning NULL or false.

  The locale \<open>chunk_pool\<close> is what the network classes rely on when they hold a
  \<^verbatim>\<open>Mempool&\<close>; it is interpreted on the class.
\<close>

section \<open>Definitions\<close>

text \<open>The members of the class; the logger is not modelled.\<close>

record mempool =
  mp_chunk_sz :: size_t
  mp_pool_sz :: size_t
  mp_extra_sz :: size_t
  mp_pool :: ptr

record mempool_stats =
  st_chunk_sz :: size_t
  st_pool_sz :: size_t
  st_extra_sz :: size_t
  st_available :: size_t

definition mempool_new :: "ext_funcs \<Rightarrow> heap \<Rightarrow> size_t \<Rightarrow> size_t \<Rightarrow> ((exn + mempool) \<times> heap) option" where
  "mempool_new e h pool_sz chunk_sz = do {
     (pool, h) \<leftarrow> pool_new e h pool_sz chunk_sz;
     if pool = 0 then Some (Inl (Runtime_error ''Failed to initialize libpool''), h)
     else Some (Inr \<lparr>mp_chunk_sz = chunk_sz, mp_pool_sz = pool_sz, mp_extra_sz = 0, mp_pool = pool\<rparr>, h)
   }"

definition mempool_delete :: "ext_funcs \<Rightarrow> heap \<Rightarrow> mempool \<Rightarrow> heap option" where
  "mempool_delete e h mp = pool_destroy e h (mp_pool mp)"

definition mempool_alloc :: "heap \<Rightarrow> mempool \<Rightarrow> ((exn + ptr) \<times> heap) option" where
  "mempool_alloc h mp = do {
     (chunk, h) \<leftarrow> pool_alloc h (mp_pool mp);
     if chunk = 0 then Some (Inl (Runtime_error ''Mempool couldn't allocate chunk''), h)
     else Some (Inr chunk, h)
   }"

definition mempool_free :: "heap \<Rightarrow> mempool \<Rightarrow> ptr \<Rightarrow> heap option" where
  "mempool_free h mp p = pool_free h (mp_pool mp) p"

definition mempool_expand ::
  "ext_funcs \<Rightarrow> heap \<Rightarrow> mempool \<Rightarrow> size_t \<Rightarrow> ((exn + bool) \<times> mempool \<times> heap) option" where
  "mempool_expand e h mp extra_sz = do {
     (status, h) \<leftarrow> pool_expand e h (mp_pool mp) extra_sz;
     if \<not> status
     then do {
       h \<leftarrow> pool_destroy e h (mp_pool mp);
       Some (Inl (Runtime_error ''Failed to expand mempool''), mp, h)
     }
     else Some (Inr status, mp\<lparr>mp_extra_sz := mp_extra_sz mp + extra_sz\<rparr>, h)
   }"

definition mempool_stats_of :: "heap \<Rightarrow> mempool \<Rightarrow> mempool_stats option" where
  "mempool_stats_of h mp = do {
     available \<leftarrow> pool_available h (mp_pool mp);
     Some \<lparr>st_chunk_sz = mp_chunk_sz mp, st_pool_sz = mp_pool_sz mp, st_extra_sz = mp_extra_sz mp,
       st_available = available\<rparr>
   }"

text \<open>
  The state of a \<^verbatim>\<open>Mempool\<close> constructed in the heap \<open>h0\<close>: \<open>n\<close> chunks are free and the chunks
  \<open>U\<close> are in use.
\<close>

definition mp_client :: "mempool \<Rightarrow> heap \<Rightarrow> ptr list \<Rightarrow> pool_client" where
  "mp_client mp h held = \<lparr>cl_heap = h, cl_held = held,
     cl_total = unat (mp_pool_sz mp) + unat (mp_extra_sz mp)\<rparr>"

definition mempool_ok :: "mempool \<Rightarrow> bool" where
  "mempool_ok mp \<longleftrightarrow> mp_chunk_sz mp \<noteq> 0 \<and> unat (mp_chunk_sz mp) + 7 < 2 ^ 64"

definition mempool_rep :: "heap \<Rightarrow> mempool \<Rightarrow> heap \<Rightarrow> nat \<Rightarrow> ptr set \<Rightarrow> bool" where
  "mempool_rep h0 mp h n U \<longleftrightarrow> mempool_ok mp
   \<and> (\<exists>V held. client_rep h0 (mp_pool mp) (align2boundary (mp_chunk_sz mp) sizeof_ptr) V
        (mp_client mp h held) \<and> length (v_free V) = n \<and> set held = U)"

text \<open>The first \<open>cap\<close> bytes of the chunks \<open>U\<close> are the same in both heaps.\<close>

definition same_data :: "nat \<Rightarrow> ptr set \<Rightarrow> heap \<Rightarrow> heap \<Rightarrow> bool" where
  "same_data cap U h h' \<longleftrightarrow>
     (\<forall>p \<in> U. \<forall>i < cap. bytes h' (p + of_nat i) = bytes h (p + of_nat i))"

section \<open>The interface of a chunk pool\<close>

locale chunk_pool =
  fixes alloc :: "heap \<Rightarrow> ((exn + ptr) \<times> heap) option"
    and free :: "heap \<Rightarrow> ptr \<Rightarrow> heap option"
    and rep :: "heap \<Rightarrow> nat \<Rightarrow> ptr set \<Rightarrow> bool"
    and cap :: nat
  assumes cap_less: "cap < 2 ^ 64"
    and alloc_some: "rep h (Suc n) U \<Longrightarrow> \<exists>p h'. alloc h = Some (Inr p, h') \<and> p \<notin> U
      \<and> rep h' n (insert p U) \<and> same_data cap U h h'"
    and alloc_none: "rep h 0 U \<Longrightarrow> \<exists>x. alloc h = Some (Inl x, h)"
    and free_held: "rep h n U \<Longrightarrow> p \<in> U \<Longrightarrow> \<exists>h'. free h p = Some h'
      \<and> rep h' (Suc n) (U - {p}) \<and> same_data cap (U - {p}) h h'"
    and read_held: "rep h n U \<Longrightarrow> p \<in> U \<Longrightarrow> i < cap \<Longrightarrow> accessible h (p + of_nat i) 1"
    and write_held: "rep h n U \<Longrightarrow> p \<in> U \<Longrightarrow> length bs \<le> cap \<Longrightarrow> \<exists>h'. store_buffer h p bs = Some h'
      \<and> rep h' n U \<and> same_data cap (U - {p}) h h'"
begin

lemma same_data_trans:
  "same_data cap U h h' \<Longrightarrow> same_data cap W h' h'' \<Longrightarrow> W \<subseteq> U \<Longrightarrow> same_data cap W h h''"
  by (auto simp: same_data_def)

text \<open>A chunk that has just been freed can always be replaced: the allocation does not throw.\<close>

lemma free_then_alloc:
  assumes "rep h n U" "p \<in> U"
  shows "\<exists>h' q h''. free h p = Some h' \<and> alloc h' = Some (Inr q, h'') \<and> q \<notin> U - {p}
    \<and> rep h'' n (insert q (U - {p})) \<and> same_data cap (U - {p}) h h''"
proof -
  obtain h' where h': "free h p = Some h'" "rep h' (Suc n) (U - {p})" "same_data cap (U - {p}) h h'"
    using free_held[OF assms] by blast
  from alloc_some[OF this(2)] h' show ?thesis using same_data_trans by blast
qed

text \<open>What is written into a held chunk is read back.\<close>

lemma read_back:
  assumes "rep h n U" "p \<in> U" "length bs \<le> cap"
  obtains h' where "store_buffer h p bs = Some h'" "rep h' n U" "same_data cap (U - {p}) h h'"
    "\<And>i. i < length bs \<Longrightarrow> load_char h' (p + of_nat i) = Some (bs ! i)"
proof -
  obtain h' where h': "store_buffer h p bs = Some h'" "rep h' n U" "same_data cap (U - {p}) h h'"
    using write_held[OF assms] by blast
  have "load_char h' (p + of_nat i) = Some (bs ! i)" if i: "i < length bs" for i
  proof -
    have "unat (of_nat i :: size_t) = i" using i assms(3) cap_less by (simp add: unat_of_nat)
    moreover have "accessible h' (p + of_nat i) 1" using read_held[OF h'(2) assms(2)] i assms(3) by simp
    moreover have "bytes h' = write_bytes (bytes h) p bs"
      using h'(1) by (auto simp: store_buffer_def split: if_splits)
    ultimately show ?thesis using i by (simp add: load_char_def write_bytes_def)
  qed
  with h' show thesis by (rule that)
qed

end

section \<open>The class provides the interface\<close>

lemma same_data_chunks:
  assumes "\<forall>q \<in> U. chunk_data h' csz q = chunk_data h csz q" "cap \<le> unat csz"
  shows "same_data cap U h h'"
  unfolding same_data_def
proof (intro ballI allI impI)
  fix p i assume "p \<in> U" "i < cap"
  with assms have "chunk_data h' csz p ! i = chunk_data h csz p ! i" "i < unat csz" by auto
  then show "bytes h' (p + of_nat i) = bytes h (p + of_nat i)" by (simp add: chunk_data_def)
qed

lemma mempool_repI:
  "mempool_ok mp \<Longrightarrow>
   client_rep h0 (mp_pool mp) (align2boundary (mp_chunk_sz mp) sizeof_ptr) V (mp_client mp h held) \<Longrightarrow>
   length (v_free V) = n \<Longrightarrow> set held = U \<Longrightarrow> mempool_rep h0 mp h n U"
  unfolding mempool_rep_def by blast

lemma mempool_repE:
  assumes "mempool_rep h0 mp h n U"
  obtains V held where "mempool_ok mp" "length (v_free V) = n" "set held = U"
    "client_rep h0 (mp_pool mp) (align2boundary (mp_chunk_sz mp) sizeof_ptr) V (mp_client mp h held)"
  using assms unfolding mempool_rep_def by blast

lemma mp_client_simps [simp]:
  "cl_heap (mp_client mp h held) = h" "cl_held (mp_client mp h held) = held"
  "cl_total (mp_client mp h held) = unat (mp_pool_sz mp) + unat (mp_extra_sz mp)"
  by (simp_all add: mp_client_def)

lemma mempool_rep_cap:
  "mempool_rep h0 mp h n U \<Longrightarrow>
   unat (mp_chunk_sz mp) \<le> unat (align2boundary (mp_chunk_sz mp) sizeof_ptr)"
  unfolding mempool_rep_def mempool_ok_def by (blast intro: align2boundary_ok(3))

lemma exec_alloc:
  "pool_exec e pool (mp_client mp h held) Op_alloc = Some c \<Longrightarrow> pool_alloc h pool = Some (p, h') \<Longrightarrow>
   p \<noteq> 0 \<Longrightarrow> c = mp_client mp h' (p # held)"
  by (simp add: mp_client_def)

lemma exec_free:
  "pool_exec e pool (mp_client mp h held) (Op_free p) = Some c \<Longrightarrow>
   \<exists>h'. pool_free h pool p = Some h' \<and> c = mp_client mp h' (remove1 p held)"
  by (auto simp: mp_client_def bind_eq_Some_conv)

lemma exec_fill:
  "pool_exec e pool (mp_client mp h held) (Op_fill p bs) = Some c \<Longrightarrow>
   \<exists>h'. store_buffer h p bs = Some h' \<and> c = mp_client mp h' held"
  by (auto simp: mp_client_def bind_eq_Some_conv)

lemma mempool_alloc_some:
  assumes "mempool_rep h0 mp h (Suc n) U"
  shows "\<exists>p h'. mempool_alloc h mp = Some (Inr p, h') \<and> p \<notin> U
    \<and> mempool_rep h0 mp h' n (insert p U) \<and> same_data (unat (mp_chunk_sz mp)) U h h'"
  using assms
proof (rule mempool_repE)
  let ?csz = "align2boundary (mp_chunk_sz mp) sizeof_ptr"
  fix V held assume ok: "mempool_ok mp" and V: "length (v_free V) = Suc n" "set held = U"
    and inv: "client_rep h0 (mp_pool mp) ?csz V (mp_client mp h held)"
  obtain p fs where fs: "v_free V = p # fs" using V(1) by (cases "v_free V") auto
  have rep: "pool_rep h (mp_pool mp) V" using inv by (simp add: client_rep_def)
  have p: "p \<noteq> 0" "p \<notin> U"
    using pool_rep_chunk(3)[OF rep] pool_rep_free(1)[OF rep] fs inv V(2)
    by (auto simp: client_rep_def used_chunks_def)
  obtain h' where h': "pool_alloc h (mp_pool mp) = Some (p, h')"
    using pool_alloc_Cons(1)[OF rep fs] by blast
  obtain c' V' where c': "pool_exec undefined (mp_pool mp) (mp_client mp h held) Op_alloc = Some c'"
      "client_rep h0 (mp_pool mp) ?csz V' c'"
      "\<forall>q \<in> set held. chunk_data (cl_heap c') ?csz q = chunk_data h ?csz q"
    using client_alloc[OF inv, of undefined] by auto
  have c'': "c' = mp_client mp h' (p # held)" using exec_alloc[OF c'(1) h' p(1)] .
  have "length (v_free V') = n" using c'(2) inv V(1) by (simp add: client_rep_def c'')
  then have "mempool_rep h0 mp h' n (insert p U)"
    using c'(2) V(2) by (intro mempool_repI[OF ok, of _ V' _ "p # held"]) (simp_all add: c'')
  moreover have "same_data (unat (mp_chunk_sz mp)) U h h'"
    using c'(3) V(2) mempool_rep_cap[OF assms] by (intro same_data_chunks) (simp_all add: c'')
  ultimately show ?thesis using h' p by (simp add: mempool_alloc_def)
qed

lemma mempool_alloc_none:
  assumes "mempool_rep h0 mp h 0 U"
  shows "mempool_alloc h mp = Some (Inl (Runtime_error ''Mempool couldn't allocate chunk''), h)"
  using assms
proof (rule mempool_repE)
  fix V held assume "length (v_free V) = 0"
    "client_rep h0 (mp_pool mp) (align2boundary (mp_chunk_sz mp) sizeof_ptr) V (mp_client mp h held)"
  then have "pool_alloc h (mp_pool mp) = Some (0, h)"
    by (intro pool_alloc_empty) (auto simp: client_rep_def)
  then show ?thesis by (simp add: mempool_alloc_def)
qed

lemma mempool_free_held:
  assumes "mempool_rep h0 mp h n U" "p \<in> U"
  shows "\<exists>h'. mempool_free h mp p = Some h' \<and> mempool_rep h0 mp h' (Suc n) (U - {p})
    \<and> same_data (unat (mp_chunk_sz mp)) (U - {p}) h h'"
  using assms(1)
proof (rule mempool_repE)
  let ?csz = "align2boundary (mp_chunk_sz mp) sizeof_ptr"
  fix V held assume ok: "mempool_ok mp" and V: "length (v_free V) = n" "set held = U"
    and inv: "client_rep h0 (mp_pool mp) ?csz V (mp_client mp h held)"
  have "p \<in> set (cl_held (mp_client mp h held))" using assms(2) V(2) by simp
  from client_free[OF inv this, of undefined] obtain c' V'
    where c': "pool_exec undefined (mp_pool mp) (mp_client mp h held) (Op_free p) = Some c'"
      "client_rep h0 (mp_pool mp) ?csz V' c'"
      "\<forall>q \<in> set held. q \<noteq> p \<longrightarrow> chunk_data (cl_heap c') ?csz q = chunk_data h ?csz q"
    by auto
  obtain h' where h': "pool_free h (mp_pool mp) p = Some h'" "c' = mp_client mp h' (remove1 p held)"
    using exec_free[OF c'(1)] by blast
  have d: "distinct held" using inv by (simp add: client_rep_def)
  have "length held = Suc (length (remove1 p held))"
    using assms(2) V(2) by (metis One_nat_def Suc_pred length_pos_if_in_set length_remove1)
  then have "length (v_free V') = Suc n"
    using c'(2) inv V(1) by (simp add: client_rep_def h'(2))
  then have "mempool_rep h0 mp h' (Suc n) (U - {p})"
    using c'(2) V(2) d by (intro mempool_repI[OF ok, of _ V' _ "remove1 p held"]) (simp_all add: h'(2))
  moreover have "same_data (unat (mp_chunk_sz mp)) (U - {p}) h h'"
    using c'(3) V(2) mempool_rep_cap[OF assms(1)] by (intro same_data_chunks) (auto simp: h'(2))
  ultimately show ?thesis using h' by (simp add: mempool_free_def)
qed

lemma mempool_write_held:
  assumes "mempool_rep h0 mp h n U" "p \<in> U" "length bs \<le> unat (mp_chunk_sz mp)"
  shows "\<exists>h'. store_buffer h p bs = Some h' \<and> mempool_rep h0 mp h' n U
    \<and> same_data (unat (mp_chunk_sz mp)) (U - {p}) h h'"
  using assms(1)
proof (rule mempool_repE)
  let ?csz = "align2boundary (mp_chunk_sz mp) sizeof_ptr"
  fix V held assume ok: "mempool_ok mp" and V: "length (v_free V) = n" "set held = U"
    and inv: "client_rep h0 (mp_pool mp) ?csz V (mp_client mp h held)"
  have len: "length bs \<le> unat ?csz" using assms(3) mempool_rep_cap[OF assms(1)] by simp
  have "p \<in> set (cl_held (mp_client mp h held))" using assms(2) V(2) by simp
  from client_fill[OF inv this len, of undefined] obtain c'
    where c': "pool_exec undefined (mp_pool mp) (mp_client mp h held) (Op_fill p bs) = Some c'"
      "client_rep h0 (mp_pool mp) ?csz V c'"
      "\<forall>q \<in> set held. q \<noteq> p \<longrightarrow> chunk_data (cl_heap c') ?csz q = chunk_data h ?csz q"
    by auto
  obtain h' where h': "store_buffer h p bs = Some h'" "c' = mp_client mp h' held"
    using exec_fill[OF c'(1)] by blast
  have "mempool_rep h0 mp h' n U"
    using c'(2) V by (intro mempool_repI[OF ok, of _ V _ held]) (simp_all add: h'(2))
  moreover have "same_data (unat (mp_chunk_sz mp)) (U - {p}) h h'"
    using c'(3) V(2) mempool_rep_cap[OF assms(1)] by (intro same_data_chunks) (auto simp: h'(2))
  ultimately show ?thesis using h' by simp
qed

lemma mempool_read_held:
  assumes "mempool_rep h0 mp h n U" "p \<in> U" "i < unat (mp_chunk_sz mp)"
  shows "accessible h (p + of_nat i) 1"
proof -
  obtain V where rep: "pool_rep h (mp_pool mp) V" and p: "p \<in> set (all_chunks V)"
    and sz: "v_chunk_sz V = align2boundary (mp_chunk_sz mp) sizeof_ptr"
    using assms(1,2) by (auto simp: client_rep_def used_chunks_def elim!: mempool_repE)
  have i: "i < unat (v_chunk_sz V)" using assms(3) mempool_rep_cap[OF assms(1)] sz by simp
  obtain B where B: "B \<in> set (live h)" "in_block p (unat (v_chunk_sz V)) B"
    using pool_rep_chunk(2)[OF rep p] by (auto simp: accessible_def list_ex_iff)
  obtain b s where bs: "B = (b, s)" by (cases B)
  have "unat b + extent s \<le> 2 ^ 64"
    using pool_rep_blocks(1)[OF rep] B(1) bs by (auto simp: heap_wf_def block_ok_def list_all_iff)
  then have s: "unat b + unat s \<le> 2 ^ 64" by (simp add: extent_def)
  have "i < 2 ^ 64" "unat p + i < 2 ^ 64" using B(2) bs i s by (simp_all add: in_block_def)
  then have "unat (p + of_nat i) = unat p + i" by (simp add: unat_add_less unat_of_nat)
  with B(2) bs i have "in_block (p + of_nat i) 1 B" by (simp add: in_block_def)
  with B(1) show ?thesis unfolding accessible_def list_ex_iff by blast
qed

interpretation mempool: chunk_pool "\<lambda>h. mempool_alloc h mp" "\<lambda>h. mempool_free h mp"
  "mempool_rep h0 mp" "unat (mp_chunk_sz mp)" for h0 mp
proof
  have "unat (mp_chunk_sz mp) < 2 ^ LENGTH(64)" by (rule unsigned_less)
  then show "unat (mp_chunk_sz mp) < 2 ^ 64" by simp
  show "\<exists>x. mempool_alloc h mp = Some (Inl x, h)" if "mempool_rep h0 mp h 0 U" for h U
    using mempool_alloc_none[OF that] by blast
qed (rule mempool_alloc_some mempool_free_held mempool_read_held mempool_write_held; assumption)+

section \<open>Construction, statistics, destruction\<close>

lemma mempool_new_cases:
  assumes e: "ext_ok e" and wf: "heap_wf h0" and sz: "pool_sz \<noteq> 0" "chunk_sz \<noteq> 0"
    and bound: "unat chunk_sz + 7 < 2 ^ 64"
      "unat pool_sz * unat (align2boundary chunk_sz sizeof_ptr) < 2 ^ 64"
  obtains (throws) h where "mempool_new e h0 pool_sz chunk_sz
        = Some (Inl (Runtime_error ''Failed to initialize libpool''), h)"
      "live h = live h0" "undisturbed h0 h"
  | (ok) mp h where "mempool_new e h0 pool_sz chunk_sz = Some (Inr mp, h)"
      "mp_chunk_sz mp = chunk_sz" "mp_pool_sz mp = pool_sz" "mp_extra_sz mp = 0"
      "mempool_rep h0 mp h (unat pool_sz) {}"
proof (cases rule: pool_new_cases[OF e wf sz bound, case_names null pool])
  case (null h')
  then show thesis by (intro throws[of h']) (simp_all add: mempool_new_def)
next
  case (pool pool start arr h')
  have nz: "pool \<noteq> 0" using pool_rep_nonnull[OF pool(2)] .
  let ?mp = "\<lparr>mp_chunk_sz = chunk_sz, mp_pool_sz = pool_sz, mp_extra_sz = 0, mp_pool = pool\<rparr>"
  obtain V where V: "client_rep h0 pool (align2boundary chunk_sz sizeof_ptr) V
      \<lparr>cl_heap = h', cl_held = [], cl_total = unat pool_sz\<rparr>"
    using new_pool_rep[OF e wf sz bound pool(1) nz] by blast
  have "mempool_rep h0 ?mp h' (unat pool_sz) {}"
  proof (rule mempool_repI)
    show "mempool_ok ?mp" using sz bound by (simp add: mempool_ok_def)
    show "client_rep h0 (mp_pool ?mp) (align2boundary (mp_chunk_sz ?mp) sizeof_ptr) V (mp_client ?mp h' [])"
      using V by (simp add: mp_client_def)
    show "length (v_free V) = unat pool_sz" using V by (simp add: client_rep_def)
  qed simp
  then show thesis using pool(1) nz by (intro ok[of ?mp h']) (simp_all add: mempool_new_def)
qed

lemma client_rep_total:
  assumes "client_rep h0 pool csz V c"
  shows "length (v_free V) < 2 ^ 64" "cl_total c < 2 ^ 64"
proof -
  have rep: "pool_rep (cl_heap c) pool V" using assms by (simp add: client_rep_def)
  then show "length (v_free V) < 2 ^ 64" by (rule length_free_less)
  have "distinct (v_free V @ cl_held c)"
    using assms pool_rep_free(4)[OF rep] by (auto simp: client_rep_def used_chunks_def)
  moreover have "0 \<notin> set (v_free V @ cl_held c)"
    using assms pool_rep_free(1)[OF rep] pool_rep_chunk(3)[OF rep]
    by (auto simp: client_rep_def used_chunks_def)
  ultimately have "length (v_free V @ cl_held c) < 2 ^ 64" by (rule distinct_ptrs_less)
  then show "cl_total c < 2 ^ 64" using assms by (simp add: client_rep_def)
qed

lemma mempool_rep_count:
  assumes "mempool_rep h0 mp h n U"
  shows "finite U" "n + card U = unat (mp_pool_sz mp) + unat (mp_extra_sz mp)" "n < 2 ^ 64"
proof -
  obtain V held where V: "length (v_free V) = n" "set held = U"
    and inv: "client_rep h0 (mp_pool mp) (align2boundary (mp_chunk_sz mp) sizeof_ptr) V (mp_client mp h held)"
    using assms by (rule mempool_repE)
  then have "card U = length held" using distinct_card[of held] by (simp add: client_rep_def)
  with V inv client_rep_total(1)[OF inv]
  show "finite U" "n + card U = unat (mp_pool_sz mp) + unat (mp_extra_sz mp)" "n < 2 ^ 64"
    by (auto simp: client_rep_def)
qed

lemma mempool_stats_rep:
  assumes "mempool_rep h0 mp h n U"
  shows "mempool_stats_of h mp = Some \<lparr>st_chunk_sz = mp_chunk_sz mp, st_pool_sz = mp_pool_sz mp,
    st_extra_sz = mp_extra_sz mp, st_available = of_nat n\<rparr>"
  using assms
proof (rule mempool_repE)
  fix V held assume "length (v_free V) = n"
    "client_rep h0 (mp_pool mp) (align2boundary (mp_chunk_sz mp) sizeof_ptr) V (mp_client mp h held)"
  then show ?thesis using pool_available_length[of h "mp_pool mp" V]
    by (simp add: client_rep_def mempool_stats_of_def)
qed

lemma mempool_delete_rep:
  assumes "ext_ok e" "mempool_rep h0 mp h n U"
  shows "\<exists>h'. mempool_delete e h mp = Some h' \<and> live h' = live h0 \<and> undisturbed h0 h'"
  using assms(2)
proof (rule mempool_repE)
  fix V held
  assume inv: "client_rep h0 (mp_pool mp) (align2boundary (mp_chunk_sz mp) sizeof_ptr) V (mp_client mp h held)"
  then show ?thesis using pool_destroy_rep[OF assms(1), of h "mp_pool mp" V]
    by (simp add: client_rep_def mempool_delete_def undisturbed_def)
qed

section \<open>Expansion\<close>

lemma mempool_expand_ok:
  assumes e: "ext_ok e" and rep: "mempool_rep h0 mp h n U"
    and bound: "unat extra * unat (align2boundary (mp_chunk_sz mp) sizeof_ptr) < 2 ^ 64"
    and run: "pool_expand e h (mp_pool mp) extra = Some (True, h')"
  shows "mempool_expand e h mp extra = Some (Inr True, mp\<lparr>mp_extra_sz := mp_extra_sz mp + extra\<rparr>, h')"
    "mempool_rep h0 (mp\<lparr>mp_extra_sz := mp_extra_sz mp + extra\<rparr>) h' (n + unat extra) U"
    "unat (mp_extra_sz mp + extra) = unat (mp_extra_sz mp) + unat extra"
    "same_data (unat (mp_chunk_sz mp)) U h h'"
proof -
  let ?csz = "align2boundary (mp_chunk_sz mp) sizeof_ptr"
  let ?mp = "mp\<lparr>mp_extra_sz := mp_extra_sz mp + extra\<rparr>"
  obtain V held where ok: "mempool_ok mp" and V: "length (v_free V) = n" "set held = U"
    and inv: "client_rep h0 (mp_pool mp) ?csz V (mp_client mp h held)"
    using rep by (rule mempool_repE)
  obtain c' V' where c': "pool_exec e (mp_pool mp) (mp_client mp h held) (Op_expand extra) = Some c'"
      "client_rep h0 (mp_pool mp) ?csz V' c'" "cl_held c' = held"
      "\<forall>q \<in> set held. chunk_data (cl_heap c') ?csz q = chunk_data h ?csz q"
    using client_expand[OF e inv bound] by auto
  with run have heap: "cl_heap c' = h'" and tot: "cl_total c' = unat (mp_pool_sz mp) + unat (mp_extra_sz mp) + unat extra"
    by auto
  show u: "unat (mp_extra_sz mp + extra) = unat (mp_extra_sz mp) + unat extra"
    using client_rep_total(2)[OF c'(2)] tot by (intro unat_add_less) simp
  have "c' = mp_client ?mp h' held" using heap tot c'(3) u by (simp add: mp_client_def)
  then have "client_rep h0 (mp_pool ?mp) (align2boundary (mp_chunk_sz ?mp) sizeof_ptr) V' (mp_client ?mp h' held)"
    using c'(2) by simp
  moreover have "length (v_free V') = n + unat extra"
    using c'(2,3) inv tot V(1) by (simp add: client_rep_def)
  ultimately show "mempool_rep h0 ?mp h' (n + unat extra) U"
    using ok V(2) by (intro mempool_repI[of ?mp h0 V' h' held]) (simp_all add: mempool_ok_def)
  show "mempool_expand e h mp extra = Some (Inr True, ?mp, h')" using run by (simp add: mempool_expand_def)
  show "same_data (unat (mp_chunk_sz mp)) U h h'"
    using c'(4) V(2) heap mempool_rep_cap[OF rep] by (intro same_data_chunks) auto
qed

text \<open>An address of the pool structure is not accessible once the pool is gone.\<close>

lemma pool_cell_gone:
  assumes rep: "pool_rep h pool V" and drop: "live h' = drop_blocks (fst ` set (pool_blocks pool V)) (live h)"
    and p: "p \<in> {Pool_free_chunk pool, Pool_array_starts pool, Pool_chunk_sz pool}"
  shows "\<not> cell_ok h' p"
proof
  assume "cell_ok h' p"
  then obtain b s where B: "(b, s) \<in> set (live h')" "in_block p 8 (b, s)"
    by (auto simp: cell_ok_def accessible_def list_ex_iff)
  then have "(b, s) \<in> set (live h)" "b \<notin> fst ` set (pool_blocks pool V)"
    unfolding drop drop_blocks_def set_filter by simp_all
  then have mem: "(b, s) \<in> set (live h)" "b \<noteq> pool" using pool_base_mem[of pool V] by metis+
  have "within p (b, s)" using B(2) by (simp add: in_block_def within_def)
  with within_neq[OF pool_rep_blocks(1,2)[OF rep] mem(1) _ pool_field_within[OF rep p]] mem(2)
  show False by blast
qed

lemma mempool_expand_fail:
  assumes e: "ext_ok e" and rep: "mempool_rep h0 mp h n U"
    and run: "pool_expand e h (mp_pool mp) extra = Some (False, h)"
  shows "\<exists>h'. mempool_expand e h mp extra
      = Some (Inl (Runtime_error ''Failed to expand mempool''), mp, h') \<and> live h' = live h0
    \<and> mempool_delete e h' mp = None \<and> mempool_alloc h' mp = None \<and> mempool_stats_of h' mp = None"
  using rep
proof (rule mempool_repE)
  fix V held
  assume inv: "client_rep h0 (mp_pool mp) (align2boundary (mp_chunk_sz mp) sizeof_ptr) V (mp_client mp h held)"
  then have prep: "pool_rep h (mp_pool mp) V" by (simp add: client_rep_def)
  let ?h = "h\<lparr>live := drop_blocks (fst ` set (pool_blocks (mp_pool mp) V)) (live h)\<rparr>"
  have "mempool_expand e h mp extra = Some (Inl (Runtime_error ''Failed to expand mempool''), mp, ?h)"
    using run pool_destroy_rep[OF e prep] by (simp add: mempool_expand_def)
  moreover have "live ?h = live h0" using inv by (simp add: client_rep_def)
  moreover note pool_cell_gone[OF prep, of ?h]
  ultimately show ?thesis using pool_rep_nonnull[OF prep]
    by (intro exI[of _ ?h])
       (simp add: mempool_delete_def pool_destroy_def mempool_alloc_def pool_alloc_def
         mempool_stats_of_def pool_available_def load_ptr_def)
qed

end
