(* ===== verification/Libpool_Correct.thy ===== *)
theory Libpool_Correct
  imports Pool_Client
begin

text \<open>
  The correctness of libpool (\<^verbatim>\<open>common/src/libpool.c\<close>, \<^verbatim>\<open>common/include/common/libpool.h\<close>): each
  function against the abstract view of the pool, the guarantees a client has over any
  sequence of calls, and what happens outside the documented preconditions.
\<close>

section \<open>Definitions\<close>

text \<open>A small concrete heap for the witnesses: an allocator below 4096, a pool of 3 chunks of 10 bytes.\<close>

definition empty_heap :: heap where
  "empty_heap = \<lparr>bytes = (\<lambda>_. 0), live = []\<rparr>"

definition bump_ext :: "nat \<Rightarrow> ext_funcs" where
  "bump_ext limit = \<lparr>pool_ext_alloc = Some (bump_malloc limit), pool_ext_free = Some ext_free\<rparr>"

definition demo_heap :: heap where
  "demo_heap = \<lparr>bytes = wr64 (wr64 (wr64 (wr64 (wr64 (wr64 (wr64 (wr64 (\<lambda>_. 0)
       24 48) 64 80) 80 96) 96 0) 16 64) 48 0) 56 64) 32 16,
     live = [(64, 48), (48, 16), (16, 24)]\<rparr>"

definition demo_view :: pool_view where
  "demo_view = \<lparr>v_free = [64, 80, 96], v_arrays = [(48, 64, 3)], v_chunk_sz = 16, v_pool_sz = sizeof_Pool\<rparr>"

lemmas demo_eval = new_fill_def demo_heap_def demo_view_def empty_heap_def bump_ext_def pool_assert_ext_funcs_def
  call_alloc_def call_free_def ext_alloc_def ext_free_def sizeof_defs field_defs bump_malloc_def
  bump_top_def extent_def align2boundary_def Let_def load_ptr_def store_ptr_def cell_ok_def
  aligned_def accessible_def in_block_def rd64_wr64_same rd64_wr64_other drop_block_def

section \<open>The concrete pool\<close>

lemma demo_ext_ok: "ext_ok (bump_ext limit)"
  by (simp add: ext_ok_def bump_ext_def bump_malloc_ok)

lemma demo_wf: "heap_wf empty_heap" "heap_wf demo_heap"
  by (simp_all add: heap_wf_def block_ok_def apart_def demo_eval)

lemma demo_new: "pool_new (bump_ext 4096) empty_heap 3 10 = Some (16, demo_heap)"
  by (simp add: pool_new_def link_chunks.simps demo_eval)

lemma demo_rep: "pool_rep demo_heap 16 demo_view"
proof -
  have "array_chunks 16 64 3 = [64, 80, 96]" by (simp add: array_chunks_def upt_rec)
  then have "all_chunks demo_view = [64, 80, 96]" by (simp add: all_chunks_def demo_view_def)
  then show ?thesis using demo_wf
    by (simp add: pool_rep_def array_ok_def pool_blocks_def demo_eval)
qed

section \<open>The operations against the abstract pool\<close>

text \<open>C5. \<^verbatim>\<open>pool_new\<close> with a working allocator, non-zero sizes and a total size that does not
  overflow always returns. It either returns NULL, having released what it allocated, or a
  pool of exactly \<^verbatim>\<open>pool_sz\<close> chunks of the aligned size, all of them free and in address
  order, using three new blocks. The contents of every other block are unchanged.\<close>

theorem pool_new_correct:
  assumes "ext_ok e" "heap_wf h" "pool_sz \<noteq> 0" "chunk_sz \<noteq> 0" "unat chunk_sz + 7 < 2 ^ 64"
    "unat pool_sz * unat (align2boundary chunk_sz sizeof_ptr) < 2 ^ 64"
  shows "\<exists>pool h'. pool_new e h pool_sz chunk_sz = Some (pool, h') \<and> undisturbed h h'
    \<and> (if pool = 0 then live h' = live h
       else \<exists>start arr. pool_rep h' pool (new_view start arr (unat pool_sz) (align2boundary chunk_sz sizeof_ptr))
         \<and> live h' = [(arr, pool_sz * align2boundary chunk_sz sizeof_ptr), (start, sizeof_ArrayStart),
             (pool, sizeof_Pool)] @ live h)"
proof (cases rule: pool_new_cases[OF assms, case_names null pool])
  case null
  then show ?thesis by auto
next
  case (pool pool start arr h')
  then show ?thesis using pool_rep_nonnull[OF pool(2)] by auto
qed

theorem pool_new_correct_witness:
  "\<exists>start arr. pool_rep demo_heap 16 (new_view start arr 3 16)
     \<and> live demo_heap = [(arr, 48), (start, 16), (16, 24)]"
  using pool_new_correct[OF demo_ext_ok demo_wf(1), of 3 10 4096]
  by (simp add: demo_new align2boundary_def sizeof_defs) (simp add: empty_heap_def)

text \<open>C6. \<^verbatim>\<open>pool_alloc\<close> on a pool hands out the first free chunk and removes it from the free
  list, or returns NULL when no chunk is free; it never reads or writes outside the pool,
  and it allocates and releases no block.\<close>

theorem pool_alloc_refines:
  assumes "pool_rep h pool V"
  shows "\<exists>h'. pool_alloc h pool = Some (case v_free V of [] \<Rightarrow> 0 | c # _ \<Rightarrow> c, h')
    \<and> pool_rep h' pool (V\<lparr>v_free := tl (v_free V)\<rparr>) \<and> live h' = live h
    \<and> (v_free V = [] \<longrightarrow> h' = h)"
proof (cases "v_free V")
  case Nil
  then have V: "V\<lparr>v_free := []\<rparr> = V" by (cases V) simp
  show ?thesis using assms pool_alloc_empty[OF assms Nil] by (simp add: Nil V)
next
  case (Cons c fs)
  then show ?thesis using pool_alloc_Cons[OF assms Cons] by auto
qed

theorem pool_alloc_refines_witness:
  "\<exists>h'. pool_alloc demo_heap 16 = Some (64, h') \<and> pool_rep h' 16 (demo_view\<lparr>v_free := [80, 96]\<rparr>)"
  using pool_alloc_refines[OF demo_rep] by (auto simp: demo_view_def)

text \<open>C7. \<^verbatim>\<open>pool_free\<close> of a chunk in use puts that chunk in front of the free list, so that the
  next \<^verbatim>\<open>pool_alloc\<close> hands it out again; the pool is otherwise the same.\<close>

theorem pool_free_refines:
  assumes "pool_rep h pool V" "c \<in> used_chunks V"
  shows "\<exists>h'. pool_free h pool c = Some h' \<and> live h' = live h
    \<and> pool_rep h' pool (V\<lparr>v_free := c # v_free V\<rparr>)
    \<and> (\<exists>h''. pool_alloc h' pool = Some (c, h'') \<and> pool_rep h'' pool V)"
proof -
  note fr = pool_free_used[OF assms]
  note al = pool_alloc_Cons[OF fr(2), of c "v_free V"]
  from al fr show ?thesis by simp
qed

theorem pool_free_refines_witness:
  "\<exists>h h'. pool_alloc demo_heap 16 = Some (64, h) \<and> pool_free h 16 64 = Some h' \<and> pool_rep h' 16 demo_view"
proof -
  obtain h where h: "pool_alloc demo_heap 16 = Some (64, h)" "pool_rep h 16 (demo_view\<lparr>v_free := [80, 96]\<rparr>)"
    using pool_alloc_Cons[OF demo_rep] by (simp add: demo_view_def)
  have "64 \<in> used_chunks (demo_view\<lparr>v_free := [80, 96]\<rparr>)"
    by (simp add: used_chunks_def all_chunks_def array_chunks_def demo_view_def upt_rec)
  from pool_free_refines[OF h(2) this] h(1) show ?thesis by (auto simp: demo_view_def)
qed

text \<open>C9. \<^verbatim>\<open>pool_available\<close> returns, and the result is the number of free chunks, with no
  wrap-around.\<close>

theorem pool_available_correct:
  assumes "pool_rep h pool V"
  shows "\<exists>n. pool_available h pool = Some n \<and> unat n = length (v_free V)"
  using pool_available_length[OF assms] length_free_less[OF assms] by (simp add: unat_of_nat)

theorem pool_available_correct_witness:
  "\<exists>n. pool_available demo_heap 16 = Some n \<and> unat n = 3"
  using pool_available_correct[OF demo_rep] by (simp add: demo_view_def numeral_3_eq_3)

text \<open>C8. \<^verbatim>\<open>pool_expand\<close> by a positive number of chunks whose total size does not overflow always
  returns. On failure it returns false and the heap is exactly as before. On success the
  new chunks are in front of the free list, the chunks in use stay in use, their contents
  and those of every block but the pool's own structure are unchanged.\<close>

theorem pool_expand_correct:
  assumes "ext_ok e" "pool_rep h pool V" "extra_sz \<noteq> 0" "unat extra_sz * unat (v_chunk_sz V) < 2 ^ 64"
  shows "pool_expand e h pool extra_sz = Some (False, h)
    \<or> (\<exists>start arr h'. pool_expand e h pool extra_sz = Some (True, h')
        \<and> pool_rep h' pool (expanded_view V start arr (unat extra_sz))
        \<and> used_chunks (expanded_view V start arr (unat extra_sz)) = used_chunks V
        \<and> list_all (\<lambda>B. fst B = pool \<or> block_data (bytes h') B = block_data (bytes h) B) (live h)
        \<and> (\<forall>c. c \<in> set (all_chunks V) \<longrightarrow> chunk_data h' (v_chunk_sz V) c = chunk_data h (v_chunk_sz V) c))"
proof (cases rule: pool_expand_cases[OF assms, case_names fail ok])
  case fail
  then show ?thesis by simp
next
  case (ok start arr h')
  have "list_all (\<lambda>B. fst B = pool \<or> block_data (bytes h') B = block_data (bytes h) B) (live h)"
    unfolding list_all_iff using ok(4) by blast
  then show ?thesis
    using ok(1,2) used_chunks_expanded[OF ok(2)] chunk_data_block_cong[OF assms(2) _ ok(4)] by blast
qed

lemma demo_expand: "\<exists>h'. pool_expand (bump_ext 4096) demo_heap 16 2 = Some (True, h')"
  by (simp add: pool_expand_def link_extra.simps demo_eval)

theorem pool_expand_correct_witness:
  "\<exists>start arr h'. pool_expand (bump_ext 4096) demo_heap 16 2 = Some (True, h')
     \<and> pool_rep h' 16 (expanded_view demo_view start arr 2)"
  using pool_expand_correct[OF demo_ext_ok demo_rep, of 2 4096] demo_expand
  by (auto simp: demo_view_def)

text \<open>\<^verbatim>\<open>pool_destroy\<close> terminates, releases exactly the blocks of the pool (its structure, the
  \<^verbatim>\<open>ArrayStart\<close> nodes and the chunk arrays), each once, and no other block.\<close>

theorem pool_destroy_correct:
  assumes "ext_ok e" "pool_rep h pool V"
  shows "pool_destroy e h pool
    = Some (h\<lparr>live := filter (\<lambda>B. B \<notin> set (pool_blocks pool V)) (live h)\<rparr>)"
proof -
  have "B \<in> set (pool_blocks pool V)" if "B \<in> set (live h)" "fst B \<in> fst ` set (pool_blocks pool V)" for B
  proof -
    from that(2) obtain B' where B': "B' \<in> set (pool_blocks pool V)" "fst B = fst B'" by auto
    then have "B' \<in> set (live h)" using assms(2) by (auto simp: pool_rep_def)
    then have "B = B'" using heap_wf_distinct[OF pool_rep_blocks(1)[OF assms(2)]] that(1) B'(2)
      by (meson distinct_map inj_onD)
    with B' show ?thesis by simp
  qed
  then have "drop_blocks (fst ` set (pool_blocks pool V)) (live h)
      = filter (\<lambda>B. B \<notin> set (pool_blocks pool V)) (live h)"
    unfolding drop_blocks_def by (intro filter_cong) auto
  then show ?thesis using pool_destroy_rep[OF assms] by simp
qed

theorem pool_destroy_correct_witness:
  "\<exists>h'. pool_destroy (bump_ext 4096) demo_heap 16 = Some h' \<and> live h' = []"
  using pool_destroy_correct[OF demo_ext_ok demo_rep]
  by (simp add: demo_view_def pool_blocks_def) (simp add: demo_heap_def sizeof_defs)

section \<open>What a client can rely on\<close>

lemma demo_csz: "align2boundary 10 sizeof_ptr = 16"
  by (simp add: align2boundary_def sizeof_defs)

lemma demo_run:
  "\<exists>c. client_run (bump_ext 4096) 16 16 \<lparr>cl_heap = demo_heap, cl_held = [], cl_total = 3\<rparr>
     [Op_alloc, Op_alloc, Op_free 64, Op_fill 80 [1, 2, 3]] c \<and> cl_held c = [80] \<and> cl_total c = 3"
proof -
  let ?c1 = "the (pool_exec (bump_ext 4096) 16 \<lparr>cl_heap = demo_heap, cl_held = [], cl_total = 3\<rparr> Op_alloc)"
  let ?c2 = "the (pool_exec (bump_ext 4096) 16 ?c1 Op_alloc)"
  let ?c3 = "the (pool_exec (bump_ext 4096) 16 ?c2 (Op_free 64))"
  let ?c4 = "the (pool_exec (bump_ext 4096) 16 ?c3 (Op_fill 80 [1, 2, 3]))"
  have "client_run (bump_ext 4096) 16 16 \<lparr>cl_heap = demo_heap, cl_held = [], cl_total = 3\<rparr>
     [Op_alloc, Op_alloc, Op_free 64, Op_fill 80 [1, 2, 3]] ?c4"
    by (rule run_step[where c' = ?c1], simp, simp add: pool_alloc_def demo_eval,
        rule run_step[where c' = ?c2], simp, simp add: pool_alloc_def demo_eval,
        rule run_step[where c' = ?c3], simp add: pool_alloc_def demo_eval,
          simp add: pool_alloc_def pool_free_def demo_eval,
        rule run_step[where c' = ?c4], simp add: pool_alloc_def pool_free_def demo_eval,
          simp add: pool_alloc_def pool_free_def store_buffer_def demo_eval, rule run_nil)
  moreover have "cl_held ?c4 = [80] \<and> cl_total ?c4 = 3"
    by (simp add: pool_alloc_def pool_free_def store_buffer_def demo_eval)
  ultimately show ?thesis by blast
qed

text \<open>C1. After a successful \<^verbatim>\<open>pool_new\<close>, no sequence of allocations, frees of held chunks,
  writes into held chunks and expansions, in any order, reaches undefined behaviour: the
  next operation always returns.\<close>

theorem client_never_undefined:
  assumes "ext_ok e" "heap_wf h0" "pool_sz \<noteq> 0" "chunk_sz \<noteq> 0" "unat chunk_sz + 7 < 2 ^ 64"
    "unat pool_sz * unat (align2boundary chunk_sz sizeof_ptr) < 2 ^ 64"
    "pool_new e h0 pool_sz chunk_sz = Some (pool, h)" "pool \<noteq> 0"
    "client_run e pool (align2boundary chunk_sz sizeof_ptr)
       \<lparr>cl_heap = h, cl_held = [], cl_total = unat pool_sz\<rparr> ops c"
    "op_ok (align2boundary chunk_sz sizeof_ptr) c op"
  shows "\<exists>c'. pool_exec e pool c op = Some c'"
proof -
  obtain V where "client_rep h0 pool (align2boundary chunk_sz sizeof_ptr) V
      \<lparr>cl_heap = h, cl_held = [], cl_total = unat pool_sz\<rparr>"
    using new_pool_rep[OF assms(1-8)] by blast
  then obtain V' where "client_rep h0 pool (align2boundary chunk_sz sizeof_ptr) V' c"
    using client_run_rep[OF assms(9,1)] by blast
  from client_exec[OF assms(1) this assms(10)] show ?thesis by blast
qed

theorem client_never_undefined_witness:
  "\<exists>c c'. client_run (bump_ext 4096) 16 16 \<lparr>cl_heap = demo_heap, cl_held = [], cl_total = 3\<rparr>
     [Op_alloc, Op_alloc, Op_free 64, Op_fill 80 [1, 2, 3]] c
     \<and> pool_exec (bump_ext 4096) 16 c (Op_free 80) = Some c'"
proof -
  obtain c where c: "client_run (bump_ext 4096) 16 16 \<lparr>cl_heap = demo_heap, cl_held = [], cl_total = 3\<rparr>
     [Op_alloc, Op_alloc, Op_free 64, Op_fill 80 [1, 2, 3]] c" "cl_held c = [80]"
    using demo_run by blast
  have "\<exists>c'. pool_exec (bump_ext 4096) 16 c (Op_free 80) = Some c'"
    by (rule client_never_undefined[OF demo_ext_ok demo_wf(1) _ _ _ _ demo_new _ _,
          of "[Op_alloc, Op_alloc, Op_free 64, Op_fill 80 [1, 2, 3]]"])
       (use c in \<open>simp_all add: demo_csz\<close>)
  with c show ?thesis by blast
qed

text \<open>C2. After any such sequence the chunks the client holds are distinct, non-null, entirely
  inside allocated memory, they do not overlap each other, and \<^verbatim>\<open>pool_available\<close> returns the
  number of chunks of the pool less the number held.\<close>

theorem client_holds_disjoint_chunks:
  assumes "ext_ok e" "heap_wf h0" "pool_sz \<noteq> 0" "chunk_sz \<noteq> 0" "unat chunk_sz + 7 < 2 ^ 64"
    "unat pool_sz * unat (align2boundary chunk_sz sizeof_ptr) < 2 ^ 64"
    "pool_new e h0 pool_sz chunk_sz = Some (pool, h)" "pool \<noteq> 0"
    "client_run e pool (align2boundary chunk_sz sizeof_ptr)
       \<lparr>cl_heap = h, cl_held = [], cl_total = unat pool_sz\<rparr> ops c"
  shows "distinct (cl_held c) \<and> 0 \<notin> set (cl_held c)
    \<and> list_all (\<lambda>p. accessible (cl_heap c) p (unat chunk_sz)) (cl_held c)
    \<and> (\<forall>p q. p \<in> set (cl_held c) \<longrightarrow> q \<in> set (cl_held c) \<longrightarrow> p \<noteq> q \<longrightarrow>
         far p (unat chunk_sz) q (unat chunk_sz))
    \<and> (\<exists>n. pool_available (cl_heap c) pool = Some n \<and> unat n + length (cl_held c) = cl_total c)"
proof -
  let ?csz = "align2boundary chunk_sz sizeof_ptr"
  obtain V where "client_rep h0 pool ?csz V \<lparr>cl_heap = h, cl_held = [], cl_total = unat pool_sz\<rparr>"
    using new_pool_rep[OF assms(1-8)] by blast
  then obtain V' where inv: "client_rep h0 pool ?csz V' c"
    using client_run_rep[OF assms(9,1)] by blast
  then have rep: "pool_rep (cl_heap c) pool V'" and sz: "v_chunk_sz V' = ?csz"
    and held: "\<And>p. p \<in> set (cl_held c) \<Longrightarrow> p \<in> set (all_chunks V')"
    by (auto simp: client_rep_def used_chunks_def)
  have le: "unat chunk_sz \<le> unat ?csz" using align2boundary_ok(3)[OF assms(5,4)] .
  have far: "far p (unat chunk_sz) q (unat chunk_sz)"
    if "p \<in> set (cl_held c)" "q \<in> set (cl_held c)" "p \<noteq> q" for p q
    using far_mono[OF chunk_far_chunk[OF rep held[OF that(1)] held[OF that(2)] that(3)]] le sz by simp
  have acc: "accessible (cl_heap c) p (unat chunk_sz)" "p \<noteq> 0" if "p \<in> set (cl_held c)" for p
    using accessible_mono[OF pool_rep_chunk(2)[OF rep held[OF that]]] le sz
      pool_rep_chunk(3)[OF rep held[OF that]] by simp_all
  from inv acc far show ?thesis
    using pool_available_length[OF rep] length_free_less[OF rep]
    by (auto simp: client_rep_def list_all_iff unat_of_nat)
qed

theorem client_holds_disjoint_chunks_witness:
  "\<exists>(c :: pool_client) n. cl_held c = [80] \<and> pool_available (cl_heap c) 16 = Some n \<and> unat n + 1 = 3
     \<and> accessible (cl_heap c) 80 10"
proof -
  obtain c where c: "client_run (bump_ext 4096) 16 16 \<lparr>cl_heap = demo_heap, cl_held = [], cl_total = 3\<rparr>
     [Op_alloc, Op_alloc, Op_free 64, Op_fill 80 [1, 2, 3]] c" "cl_held c = [80]" "cl_total c = 3"
    using demo_run by blast
  with client_holds_disjoint_chunks[OF demo_ext_ok demo_wf(1) _ _ _ _ demo_new,
      of "[Op_alloc, Op_alloc, Op_free 64, Op_fill 80 [1, 2, 3]]" c]
  have "accessible (cl_heap c) 80 10 \<and> (\<exists>n. pool_available (cl_heap c) 16 = Some n \<and> unat n + 1 = 3)"
    by (auto simp: demo_csz)
  with c(2) show ?thesis by blast
qed

text \<open>C3. After any such sequence \<^verbatim>\<open>pool_destroy\<close> returns and leaves exactly the blocks that were
  allocated before \<^verbatim>\<open>pool_new\<close>, with the contents they had: nothing leaks, and neither libpool
  nor its client has touched memory that is not the pool's.\<close>

theorem client_destroy_no_leak:
  assumes "ext_ok e" "heap_wf h0" "pool_sz \<noteq> 0" "chunk_sz \<noteq> 0" "unat chunk_sz + 7 < 2 ^ 64"
    "unat pool_sz * unat (align2boundary chunk_sz sizeof_ptr) < 2 ^ 64"
    "pool_new e h0 pool_sz chunk_sz = Some (pool, h)" "pool \<noteq> 0"
    "client_run e pool (align2boundary chunk_sz sizeof_ptr)
       \<lparr>cl_heap = h, cl_held = [], cl_total = unat pool_sz\<rparr> ops c"
  shows "\<exists>h'. pool_destroy e (cl_heap c) pool = Some h' \<and> live h' = live h0 \<and> undisturbed h0 h'"
proof -
  obtain V where "client_rep h0 pool (align2boundary chunk_sz sizeof_ptr) V
      \<lparr>cl_heap = h, cl_held = [], cl_total = unat pool_sz\<rparr>"
    using new_pool_rep[OF assms(1-8)] by blast
  then obtain V' where inv: "client_rep h0 pool (align2boundary chunk_sz sizeof_ptr) V' c"
    using client_run_rep[OF assms(9,1)] by blast
  then show ?thesis using pool_destroy_rep[OF assms(1), of "cl_heap c" pool V']
    by (auto simp: client_rep_def undisturbed_def)
qed

theorem client_destroy_no_leak_witness:
  "\<exists>c h'. client_run (bump_ext 4096) 16 16 \<lparr>cl_heap = demo_heap, cl_held = [], cl_total = 3\<rparr>
     [Op_alloc, Op_alloc, Op_free 64, Op_fill 80 [1, 2, 3]] c
     \<and> pool_destroy (bump_ext 4096) (cl_heap c) 16 = Some h' \<and> live h' = []"
proof -
  obtain c where c: "client_run (bump_ext 4096) 16 16 \<lparr>cl_heap = demo_heap, cl_held = [], cl_total = 3\<rparr>
     [Op_alloc, Op_alloc, Op_free 64, Op_fill 80 [1, 2, 3]] c"
    using demo_run by blast
  with client_destroy_no_leak[OF demo_ext_ok demo_wf(1) _ _ _ _ demo_new,
      of "[Op_alloc, Op_alloc, Op_free 64, Op_fill 80 [1, 2, 3]]" c]
  show ?thesis by (auto simp: demo_csz empty_heap_def)
qed

text \<open>C4. No operation changes the data in a chunk the client holds, other than its own write into
  that chunk, which is read back exactly, or its free.\<close>

theorem client_data_kept:
  assumes "ext_ok e" "client_rep h0 pool csz V c" "op_ok csz c op" "pool_exec e pool c op = Some c'"
    "q \<in> set (cl_held c)"
  shows "case op of
      Op_free p \<Rightarrow> q \<noteq> p \<longrightarrow> chunk_data (cl_heap c') csz q = chunk_data (cl_heap c) csz q
    | Op_fill p bs \<Rightarrow> (if q = p then take (length bs) (chunk_data (cl_heap c') csz q) = bs
        else chunk_data (cl_heap c') csz q = chunk_data (cl_heap c) csz q)
    | _ \<Rightarrow> chunk_data (cl_heap c') csz q = chunk_data (cl_heap c) csz q"
proof (cases op)
  case Op_alloc
  then show ?thesis using client_alloc[OF assms(2), of e] assms(4,5) by auto
next
  case (Op_free p)
  then show ?thesis using client_free[OF assms(2), of p e] assms(3-5) by auto
next
  case (Op_fill p bs)
  then show ?thesis using client_fill[OF assms(2), of p bs e] assms(3-5) by auto
next
  case (Op_expand n)
  then show ?thesis using client_expand[OF assms(1,2), of n] assms(3-5) by auto
qed

theorem client_data_kept_witness:
  "\<exists>c c'. pool_exec (bump_ext 4096) 16 c (Op_fill 80 [4, 5]) = Some c'
     \<and> take 2 (chunk_data (cl_heap c') 16 80) = [4, 5]"
proof -
  obtain c where c: "client_run (bump_ext 4096) 16 16 \<lparr>cl_heap = demo_heap, cl_held = [], cl_total = 3\<rparr>
     [Op_alloc, Op_alloc, Op_free 64, Op_fill 80 [1, 2, 3]] c" "cl_held c = [80]"
    using demo_run by blast
  obtain V where "client_rep empty_heap 16 16 V \<lparr>cl_heap = demo_heap, cl_held = [], cl_total = 3\<rparr>"
    using new_pool_rep[OF demo_ext_ok demo_wf(1) _ _ _ _ demo_new] by (auto simp: demo_csz)
  then obtain V' where V': "client_rep empty_heap 16 16 V' c"
    using client_run_rep[OF c(1) demo_ext_ok] by blast
  obtain c' where c': "pool_exec (bump_ext 4096) 16 c (Op_fill 80 [4, 5]) = Some c'"
    using client_exec[OF demo_ext_ok V', of "Op_fill 80 [4, 5]"] c(2) by auto
  have "op_ok 16 c (Op_fill 80 [4, 5])" using c(2) by simp
  from client_data_kept[OF demo_ext_ok V' this c', of 80] c(2)
  have "take (length [4 :: u8, 5]) (chunk_data (cl_heap c') 16 80) = [4, 5]" by (simp del: list.size)
  moreover have "length [4 :: u8, 5] = 2" by simp
  ultimately have "take 2 (chunk_data (cl_heap c') 16 80) = [4, 5]" by (simp only:)
  with c' show ?thesis by blast
qed

section \<open>Outside the preconditions\<close>

lemma available_loop_cycle:
  assumes "available_loop h p n = Some r"
  shows "p = 0 \<or> rd64 (bytes h) p \<noteq> p"
  using assms
proof (rule available_loop.raw_induct[where P = "\<lambda>h p n r. p = 0 \<or> rd64 (bytes h) p \<noteq> p", rotated])
  fix loop :: "heap \<Rightarrow> ptr \<Rightarrow> size_t \<Rightarrow> size_t option" and h p n r
  assume IH: "\<And>h p n r. loop h p n = Some r \<Longrightarrow> p = 0 \<or> rd64 (bytes h) p \<noteq> p"
    and body: "(if p = 0 then Some n else load_ptr h p \<bind> (\<lambda>nxt. loop h nxt (n + 1))) = Some r"
  show "p = 0 \<or> rd64 (bytes h) p \<noteq> p"
  proof (rule ccontr)
    assume neg: "\<not> (p = 0 \<or> rd64 (bytes h) p \<noteq> p)"
    with body have "loop h p (n + 1) = Some r" by (auto simp: load_ptr_def split: if_splits)
    from IH[OF this] neg show False by blast
  qed
qed

text \<open>Freeing a chunk twice corrupts the pool without any error: both calls return, the chunk
  becomes its own successor in the free list, so that \<^verbatim>\<open>pool_available\<close> never returns and two
  allocations in a row hand out the same chunk.\<close>

theorem pool_double_free:
  assumes "pool_rep h pool V" "c \<in> used_chunks V"
  shows "\<exists>h1 h2 h3 h4. pool_free h pool c = Some h1 \<and> pool_free h1 pool c = Some h2
    \<and> pool_available h2 pool = None
    \<and> pool_alloc h2 pool = Some (c, h3) \<and> pool_alloc h3 pool = Some (c, h4)"
proof -
  define m where "m = wr64 (bytes h) c (rd64 (bytes h) (Pool_free_chunk pool))"
  define h1 where "h1 = h\<lparr>bytes := wr64 m (Pool_free_chunk pool) c\<rparr>"
  have f1: "pool_free h pool c = Some h1" and rep: "pool_rep h1 pool (V\<lparr>v_free := c # v_free V\<rparr>)"
    using pool_free_used[OF assms] by (simp_all add: m_def h1_def)
  have call: "c \<in> set (all_chunks V)" using used_chunksD(1)[OF assms(2)] .
  then have c': "c \<in> set (all_chunks (V\<lparr>v_free := c # v_free V\<rparr>))" by (simp add: all_chunks_def)
  note cell = pool_rep_chunk[OF rep c'] and fld = pool_rep_pool_cells(1)[OF rep]
  have ne: "c \<noteq> Pool_free_chunk pool" using chunk_not_cell(1)[OF rep c'] .
  have pool: "pool \<noteq> 0" using pool_rep_nonnull[OF assms(1)] .
  have fc: "rd64 (bytes h1) (Pool_free_chunk pool) = c" by (simp add: h1_def rd64_wr64_same)
  define h2 where "h2 = h1\<lparr>bytes := wr64 (wr64 (bytes h1) c c) (Pool_free_chunk pool) c\<rparr>"
  have f2: "pool_free h1 pool c = Some h2"
    using pool cell fld fc by (simp add: pool_free_def h2_def)
  have al: "aligned c" "aligned (Pool_free_chunk pool)" using cell(1) fld by (auto simp: cell_ok_def)
  have r: "rd64 (bytes h2) c = c" "rd64 (bytes h2) (Pool_free_chunk pool) = c"
    using al ne by (simp_all add: h2_def rd64_wr64_same rd64_wr64_other)
  have ok: "cell_ok h2 c" "cell_ok h2 (Pool_free_chunk pool)" using cell fld by (simp_all add: h2_def)
  have "pool_available h2 pool = None"
    using available_loop_cycle[of h2 c 0] r cell(3) pool ok
    by (cases "available_loop h2 c 0") (auto simp: pool_available_def)
  moreover have "pool_alloc h2 pool = Some (c, h2\<lparr>bytes := wr64 (bytes h2) (Pool_free_chunk pool) c\<rparr>)"
    using r ok pool cell(3) by (simp add: pool_alloc_def)
  moreover have "\<exists>h4. pool_alloc (h2\<lparr>bytes := wr64 (bytes h2) (Pool_free_chunk pool) c\<rparr>) pool = Some (c, h4)"
    using r ok pool cell(3) al ne by (simp add: pool_alloc_def rd64_wr64_same rd64_wr64_other)
  ultimately show ?thesis using f1 f2 by blast
qed

theorem pool_double_free_witness:
  "\<exists>h h1 h2. pool_alloc demo_heap 16 = Some (64, h) \<and> pool_free h 16 64 = Some h1
     \<and> pool_free h1 16 64 = Some h2 \<and> pool_available h2 16 = None"
proof -
  obtain h where h: "pool_alloc demo_heap 16 = Some (64, h)" "pool_rep h 16 (demo_view\<lparr>v_free := [80, 96]\<rparr>)"
    using pool_alloc_Cons[OF demo_rep] by (simp add: demo_view_def)
  have "64 \<in> used_chunks (demo_view\<lparr>v_free := [80, 96]\<rparr>)"
    by (simp add: used_chunks_def all_chunks_def array_chunks_def demo_view_def upt_rec)
  from pool_double_free[OF h(2) this] h(1) show ?thesis by blast
qed

lemma empty_block_not_accessible:
  assumes "heap_wf h" "(arr, 0) \<in> set (live h)"
  shows "\<not> cell_ok h arr"
proof
  assume "cell_ok h arr"
  then obtain b s where bs: "(b, s) \<in> set (live h)" "in_block arr 8 (b, s)"
    by (auto simp: cell_ok_def accessible_def list_ex_iff)
  show False
  proof (cases "b = arr")
    case True
    then have "s = 0" using heap_wf_distinct[OF assms(1)] assms(2) bs(1)
      by (metis eq_key_imp_eq_value)
    with True bs(2) show False by (simp add: in_block_def)
  next
    case False
    then have "apart (b, s) (arr, 0)" using heap_wf_apart[OF assms(1) bs(1) assms(2)] by simp
    with bs(2) show False by (auto simp: in_block_def apart_def extent_def)
  qed
qed

lemma link_chunks_zero:
  "\<not> cell_ok h arr \<Longrightarrow> link_chunks h arr 0 0 n = (if n = 0 then Some h else None)"
  by (subst link_chunks.simps) (simp add: store_ptr_def word_gt_0)

text \<open>\<^verbatim>\<open>pool_new\<close> does not reject a chunk size of 0, for which it can never build a pool: it
  returns NULL when the allocator fails, and otherwise writes through the address of an
  empty block, which is undefined behaviour.\<close>

theorem pool_new_zero_chunk:
  assumes e: "ext_ok e" and wf: "heap_wf h" and new: "pool_new e h pool_sz 0 = Some (p, h')"
  shows "p = 0"
proof (cases "pool_sz = 0")
  case True
  with new show ?thesis by (simp add: pool_new_def)
next
  case sz: False
  have ext: "pool_assert_ext_funcs e" using e by (auto simp: ext_ok_def pool_assert_ext_funcs_def)
  have csz: "align2boundary 0 sizeof_ptr = 0" by (simp add: align2boundary_def sizeof_ptr_def)
  note eval = pool_new_def Let_def ext csz sz
  show ?thesis
  proof (cases rule: call_alloc_cases[OF e wf, of sizeof_Pool, case_names nopool pool])
    case nopool
    with new show ?thesis by (simp add: eval)
  next
    case p: (pool pool)
    show ?thesis
    proof (cases rule: call_alloc_cases[OF e p(3), of sizeof_ArrayStart, case_names nostart start])
      case nostart
      with p new show ?thesis by (auto simp: eval store_ptr_def load_ptr_def bind_eq_Some_conv rd64_wr64_same split: if_splits)
    next
      case s: (start start)
      let ?h2 = "h\<lparr>live := (start, sizeof_ArrayStart) # (pool, sizeof_Pool) # live h\<rparr>"
      let ?h2' = "?h2\<lparr>bytes := wr64 (bytes h) (Pool_array_starts pool) start\<rparr>"
      have wf2: "heap_wf ?h2'" using s(3) by (simp add: heap_wf_def)
      have cell: "cell_ok ?h2 (Pool_array_starts pool)"
        using fresh_cell(1)[of ?h2 pool sizeof_Pool 8] s(3) by (simp add: Pool_array_starts_def sizeof_Pool_def)
      show ?thesis
      proof (cases rule: call_alloc_cases[OF e wf2, of 0, case_names noarr arr])
        case noarr
        with p s new cell show ?thesis
          by (auto simp: eval bind_eq_Some_conv rd64_wr64_same split: if_splits)
      next
        case a: (arr arr)
        let ?h3 = "?h2'\<lparr>live := (arr, 0) # live ?h2'\<rparr>"
        have bad: "\<not> cell_ok ?h3 arr" using empty_block_not_accessible[OF a(3)] by simp
        have "pool_new e h pool_sz 0 = None"
          using p(1,2) s(1,2) a(1,2) cell bad link_chunks_zero[OF bad, of "pool_sz - 1"]
          by (simp add: eval new_fill_def rd64_wr64_same store_ptr_def)
        with new show ?thesis by simp
      qed
    qed
  qed
qed

theorem pool_new_zero_chunk_witness:
  "\<exists>p h'. pool_new (bump_ext 16) empty_heap 3 0 = Some (p, h') \<and> p = 0
     \<and> pool_new (bump_ext 4096) empty_heap 3 0 = None"
proof -
  have "\<exists>p h'. pool_new (bump_ext 16) empty_heap 3 0 = Some (p, h')"
    by (simp add: pool_new_def demo_eval)
  moreover have "pool_new (bump_ext 4096) empty_heap 3 0 = None"
    by (simp add: pool_new_def link_chunks.simps demo_eval)
  ultimately show ?thesis using pool_new_zero_chunk[OF demo_ext_ok demo_wf(1)] by blast
qed

end
