(* ===== verification/Mempool_Correct.thy ===== *)
theory Mempool_Correct
  imports Mempool Libpool_Correct
begin

text \<open>The guarantees of the class \<^verbatim>\<open>Mempool\<close>, one per member function.\<close>

section \<open>Definitions\<close>

definition demo_mp :: mempool where
  "demo_mp = \<lparr>mp_chunk_sz = 10, mp_pool_sz = 3, mp_extra_sz = 0, mp_pool = 16\<rparr>"

section \<open>A concrete object\<close>

lemma demo_mp_new: "mempool_new (bump_ext 4096) empty_heap 3 10 = Some (Inr demo_mp, demo_heap)"
  by (simp add: mempool_new_def demo_new demo_mp_def)

lemma demo_mp_rep: "mempool_rep empty_heap demo_mp demo_heap 3 {}"
proof (cases rule: mempool_new_cases[OF demo_ext_ok demo_wf(1), of 3 10 4096, case_names a b c d throws ok])
  case (throws h)
  then show ?thesis using demo_mp_new by simp
next
  case (ok mp h)
  then show ?thesis using demo_mp_new by simp
qed (simp_all add: demo_csz)

section \<open>Properties\<close>

text \<open>C14. The constructor, given an allocator that works or fails, non-zero sizes and a total size
  that does not overflow, either throws \<^verbatim>\<open>std::runtime_error\<close> and leaves the heap's blocks as
  they were, or builds an object whose chunks are all free.\<close>

theorem mempool_new_correct:
  assumes "ext_ok e" "heap_wf h0" "pool_sz \<noteq> 0" "chunk_sz \<noteq> 0" "unat chunk_sz + 7 < 2 ^ 64"
    "unat pool_sz * unat (align2boundary chunk_sz sizeof_ptr) < 2 ^ 64"
  shows "(\<exists>h. mempool_new e h0 pool_sz chunk_sz
        = Some (Inl (Runtime_error ''Failed to initialize libpool''), h) \<and> live h = live h0 \<and> undisturbed h0 h)
    \<or> (\<exists>mp h st. mempool_new e h0 pool_sz chunk_sz = Some (Inr mp, h)
        \<and> mempool_rep h0 mp h (unat pool_sz) {} \<and> mempool_stats_of h mp = Some st
        \<and> st = \<lparr>st_chunk_sz = chunk_sz, st_pool_sz = pool_sz, st_extra_sz = 0, st_available = pool_sz\<rparr>)"
proof (cases rule: mempool_new_cases[OF assms, case_names throws ok])
  case (throws h)
  then show ?thesis by blast
next
  case (ok mp h)
  then show ?thesis using mempool_stats_rep[OF ok(5)] by simp
qed

theorem mempool_new_correct_witness:
  "\<exists>h. mempool_new (bump_ext 64) empty_heap 3 10
     = Some (Inl (Runtime_error ''Failed to initialize libpool''), h) \<and> live h = []"
proof -
  have "\<exists>h. mempool_new (bump_ext 64) empty_heap 3 10
      = Some (Inl (Runtime_error ''Failed to initialize libpool''), h)"
    by (simp add: mempool_new_def pool_new_def demo_eval)
  then show ?thesis
    using mempool_new_correct[OF demo_ext_ok demo_wf(1), of 3 10 64]
    by (auto simp: demo_csz empty_heap_def)
qed

text \<open>C15. \<^verbatim>\<open>Mempool::alloc\<close> throws \<^verbatim>\<open>std::runtime_error\<close>, changing nothing, exactly when no chunk is
  available; otherwise it returns a chunk that nobody holds, \<^verbatim>\<open>stats().available\<close> goes down by one,
  and \<^verbatim>\<open>Mempool::free\<close> of that chunk brings it back.\<close>

theorem mempool_alloc_correct:
  assumes "mempool_rep h0 mp h n U"
  shows "if n = 0
    then mempool_alloc h mp = Some (Inl (Runtime_error ''Mempool couldn't allocate chunk''), h)
    else \<exists>p h1 h2 st. mempool_alloc h mp = Some (Inr p, h1) \<and> p \<notin> U
      \<and> mempool_rep h0 mp h1 (n - 1) (insert p U)
      \<and> mempool_stats_of h1 mp = Some st \<and> st_available st = of_nat (n - 1)
      \<and> mempool_free h1 mp p = Some h2 \<and> mempool_rep h0 mp h2 n U"
proof (cases n)
  case 0
  then show ?thesis using mempool_alloc_none assms by simp
next
  case (Suc k)
  with assms obtain p h1 where p: "mempool_alloc h mp = Some (Inr p, h1)" "p \<notin> U"
    "mempool_rep h0 mp h1 k (insert p U)" using mempool.alloc_some by blast
  moreover obtain h2 where "mempool_free h1 mp p = Some h2" "mempool_rep h0 mp h2 n U"
    using mempool.free_held[OF p(3), of p] p(2) Suc by auto
  ultimately show ?thesis using mempool_stats_rep[OF p(3)] Suc by auto
qed

theorem mempool_alloc_correct_witness:
  "\<exists>p h1. mempool_alloc demo_heap demo_mp = Some (Inr p, h1) \<and> mempool_rep empty_heap demo_mp h1 2 {p}"
  using mempool_alloc_correct[OF demo_mp_rep] by auto

text \<open>When libpool expands the pool, \<^verbatim>\<open>Mempool::expand\<close> returns true, \<^verbatim>\<open>extra_sz_\<close> accumulates
  without wrapping around, the new chunks are available, and the data in the chunks in use
  is unchanged.\<close>

theorem mempool_expand_accumulates:
  assumes "ext_ok e" "mempool_rep h0 mp h n U"
    "unat extra * unat (align2boundary (mp_chunk_sz mp) sizeof_ptr) < 2 ^ 64"
    "pool_expand e h (mp_pool mp) extra = Some (True, h')"
  shows "\<exists>mp'. mempool_expand e h mp extra = Some (Inr True, mp', h')
    \<and> unat (mp_extra_sz mp') = unat (mp_extra_sz mp) + unat extra
    \<and> mempool_rep h0 mp' h' (n + unat extra) U \<and> same_data (unat (mp_chunk_sz mp)) U h h'"
  using mempool_expand_ok[OF assms] by simp

theorem mempool_expand_accumulates_witness:
  "\<exists>mp' h'. mempool_expand (bump_ext 4096) demo_heap demo_mp 2 = Some (Inr True, mp', h')
     \<and> unat (mp_extra_sz mp') = 2 \<and> mempool_rep empty_heap mp' h' 5 {}"
proof -
  obtain h' where h': "pool_expand (bump_ext 4096) demo_heap (mp_pool demo_mp) 2 = Some (True, h')"
    using demo_expand by (auto simp: demo_mp_def)
  have "unat (2 :: size_t) * unat (align2boundary (mp_chunk_sz demo_mp) sizeof_ptr) < 2 ^ 64"
    by (simp add: demo_mp_def demo_csz)
  from mempool_expand_accumulates[OF demo_ext_ok demo_mp_rep this h'] obtain mp'
    where mp': "mempool_expand (bump_ext 4096) demo_heap demo_mp 2 = Some (Inr True, mp', h')"
      "unat (mp_extra_sz mp') = unat (mp_extra_sz demo_mp) + unat (2 :: size_t)"
      "mempool_rep empty_heap mp' h' (3 + unat (2 :: size_t)) {}" by blast
  moreover have "unat (mp_extra_sz mp') = 2" using mp'(2) by (simp add: demo_mp_def)
  moreover have "mempool_rep empty_heap mp' h' 5 {}" using mp'(3) by simp
  ultimately show ?thesis by blast
qed

text \<open>C16. When libpool cannot expand the pool, \<^verbatim>\<open>Mempool::expand\<close> destroys it before throwing but
  keeps the pointer: libpool had left the pool intact, and now every later use of the object,
  the destructor included, is undefined behaviour.\<close>

theorem mempool_expand_failure:
  assumes "ext_ok e" "mempool_rep h0 mp h n U" "pool_expand e h (mp_pool mp) extra = Some (False, h)"
  shows "\<exists>h'. mempool_expand e h mp extra
      = Some (Inl (Runtime_error ''Failed to expand mempool''), mp, h') \<and> live h' = live h0
    \<and> mempool_delete e h' mp = None \<and> mempool_alloc h' mp = None \<and> mempool_stats_of h' mp = None"
  using mempool_expand_fail[OF assms] .

theorem mempool_expand_failure_witness:
  "\<exists>h'. mempool_expand (bump_ext 4096) demo_heap demo_mp 0
      = Some (Inl (Runtime_error ''Failed to expand mempool''), demo_mp, h')
     \<and> mempool_delete (bump_ext 4096) h' demo_mp = None"
  using mempool_expand_failure[OF demo_ext_ok demo_mp_rep, of 4096 0]
  by (auto simp: pool_expand_invalid)

text \<open>The destructor releases everything the object allocated, whatever chunks are still in
  use, and nothing else.\<close>

theorem mempool_delete_correct:
  assumes "ext_ok e" "mempool_rep h0 mp h n U"
  shows "\<exists>h'. mempool_delete e h mp = Some h' \<and> live h' = live h0 \<and> undisturbed h0 h'"
  using mempool_delete_rep[OF assms] .

theorem mempool_delete_correct_witness:
  "\<exists>h'. mempool_delete (bump_ext 4096) demo_heap demo_mp = Some h' \<and> live h' = []"
  using mempool_delete_correct[OF demo_ext_ok demo_mp_rep] by (auto simp: empty_heap_def)

end
