(* ===== verification/Pool_Race.thy ===== *)
theory Pool_Race
  imports Libpool_Correct
begin

text \<open>
  \<^verbatim>\<open>pool_alloc\<close> of \<^verbatim>\<open>common/src/libpool.c\<close> access by access, as the build compiles it: without
  \<^verbatim>\<open>LIBPOOL_THREAD_SAFE\<close> there is no lock, while the main programs allocate on the main thread and the
  network handlers allocate on the \<^verbatim>\<open>io_context\<close> thread.
\<close>

section \<open>Definitions\<close>

text \<open>The next access of a call on a pool that is not NULL: the test of \<^verbatim>\<open>pool->free_chunk\<close>, the read of the result, the second read of
  \<^verbatim>\<open>pool->free_chunk\<close>, the read through it, and the store.\<close>

datatype alloc_pc = A_check | A_read | A_load ptr | A_deref ptr ptr | A_store ptr ptr | A_done ptr

fun alloc_access :: "ptr \<Rightarrow> alloc_pc \<Rightarrow> heap \<Rightarrow> (alloc_pc \<times> heap) option" where
  "alloc_access pool A_check h = do {
     fc \<leftarrow> load_ptr h (Pool_free_chunk pool);
     Some (if fc = 0 then A_done 0 else A_read, h)
   }"
| "alloc_access pool A_read h = do { result \<leftarrow> load_ptr h (Pool_free_chunk pool); Some (A_load result, h) }"
| "alloc_access pool (A_load result) h = do { fc \<leftarrow> load_ptr h (Pool_free_chunk pool); Some (A_deref result fc, h) }"
| "alloc_access pool (A_deref result fc) h = do { nxt \<leftarrow> load_ptr h fc; Some (A_store result nxt, h) }"
| "alloc_access pool (A_store result nxt) h = do { h \<leftarrow> store_ptr h (Pool_free_chunk pool) nxt; Some (A_done result, h) }"
| "alloc_access pool (A_done result) h = Some (A_done result, h)"

text \<open>One call run alone for \<open>n\<close> accesses, and two calls under a schedule; \<open>True\<close> moves the first.\<close>

fun alloc_alone :: "ptr \<Rightarrow> nat \<Rightarrow> alloc_pc \<times> heap \<Rightarrow> (alloc_pc \<times> heap) option" where
  "alloc_alone pool 0 s = Some s"
| "alloc_alone pool (Suc n) (pc, h) = do { s \<leftarrow> alloc_access pool pc h; alloc_alone pool n s }"

fun alloc_sched :: "ptr \<Rightarrow> bool list \<Rightarrow> alloc_pc \<times> alloc_pc \<times> heap \<Rightarrow> (alloc_pc \<times> alloc_pc \<times> heap) option" where
  "alloc_sched pool [] s = Some s"
| "alloc_sched pool (True # sch) (a, b, h) = do { (a, h) \<leftarrow> alloc_access pool a h; alloc_sched pool sch (a, b, h) }"
| "alloc_sched pool (False # sch) (a, b, h) = do { (b, h) \<leftarrow> alloc_access pool b h; alloc_sched pool sch (a, b, h) }"

section \<open>Accesses of a pool\<close>

lemma free_list_access:
  assumes "pool_rep h pool V" "v_free V = c # fs"
  shows "load_ptr h (Pool_free_chunk pool) = Some c" "c \<noteq> 0" "load_ptr h c = Some (rd64 (bytes h) c)"
    "store_ptr h (Pool_free_chunk pool) w = Some (h\<lparr>bytes := wr64 (bytes h) (Pool_free_chunk pool) w\<rparr>)"
proof -
  have ch: "rd64 (bytes h) (Pool_free_chunk pool) = c" "c \<noteq> 0" using pool_rep_free(3)[OF assms(1)] assms(2) by auto
  then show "load_ptr h (Pool_free_chunk pool) = Some c" "c \<noteq> 0"
    "store_ptr h (Pool_free_chunk pool) w = Some (h\<lparr>bytes := wr64 (bytes h) (Pool_free_chunk pool) w\<rparr>)"
    using pool_rep_pool_cells[OF assms(1)] by simp_all
  have "pool_alloc h pool \<noteq> None" using pool_alloc_Cons(1)[OF assms] by simp
  then show "load_ptr h c = Some (rd64 (bytes h) c)"
    using \<open>load_ptr h (Pool_free_chunk pool) = Some c\<close> \<open>c \<noteq> 0\<close> pool_rep_nonnull[OF assms(1)]
    by (auto simp: pool_alloc_def load_ptr_def split: if_splits)
qed

section \<open>Properties\<close>

text \<open>C10. Run alone, the five accesses are exactly \<^verbatim>\<open>pool_alloc\<close>. Run by two threads on a pool with a free
  chunk, there is a schedule in which both calls return the same chunk, so two holders share one buffer,
  although each call alone takes a chunk off the list.\<close>

theorem pool_alloc_race:
  assumes "pool_rep h pool V" "v_free V = c # fs"
  shows "\<exists>h'. pool_alloc h pool = Some (c, h') \<and> alloc_alone pool 5 (A_check, h) = Some (A_done c, h')
    \<and> alloc_sched pool [True, True, True, True, False, False, False, False, True, False] (A_check, A_check, h)
        = Some (A_done c, A_done c, h')"
proof -
  let ?h' = "h\<lparr>bytes := wr64 (bytes h) (Pool_free_chunk pool) (rd64 (bytes h) c)\<rparr>"
  note acc = free_list_access[OF assms]
  have again: "store_ptr ?h' (Pool_free_chunk pool) (rd64 (bytes h) c) = Some ?h'"
  proof -
    have rep: "pool_rep ?h' pool (V\<lparr>v_free := fs\<rparr>)" using pool_alloc_Cons(2)[OF assms] .
    have "wr64 (wr64 m p w) p w = wr64 m p w" for m p w by (auto simp: wr64_def write_bytes_def fun_eq_iff)
    then show ?thesis using pool_rep_pool_cells[OF rep] by simp
  qed
  have "pool_alloc h pool = Some (c, ?h')" using pool_alloc_Cons(1)[OF assms] .
  moreover have "alloc_alone pool 5 (A_check, h) = Some (A_done c, ?h')"
    using acc by (simp add: eval_nat_numeral)
  moreover have "alloc_sched pool [True, True, True, True, False, False, False, False, True, False] (A_check, A_check, h)
      = Some (A_done c, A_done c, ?h')" using acc again by simp
  ultimately show ?thesis by blast
qed

theorem pool_alloc_race_witness:
  "\<exists>h'. alloc_sched 16 [True, True, True, True, False, False, False, False, True, False] (A_check, A_check, demo_heap)
     = Some (A_done 64, A_done 64, h')"
  using pool_alloc_race[OF demo_rep, of 64 "[80, 96]"] by (auto simp: demo_view_def)

end
