(* ===== verification/Libpool_Safe.thy ===== *)
theory Libpool_Safe
  imports Libpool_Correct
begin

text \<open>
  \<^verbatim>\<open>common/src/libpool.c\<close> as a build with \<^verbatim>\<open>LIBPOOL_THREAD_SAFE\<close> compiles it: the \<^verbatim>\<open>Pool\<close> structure has a fourth
  member \<^verbatim>\<open>lock\<close>, and the functions work between \<^verbatim>\<open>pool_ext_mutex_lock\<close> and \<^verbatim>\<open>pool_ext_mutex_unlock\<close>. The
  function pointers are bound to the default implementations over pthread. Here one thread runs the functions to
  completion; theory \<open>Pool_Threads\<close> has many threads.

  Of pthread the model has the state of the mutexes and what POSIX says of the four functions: initialising memory
  that is not there, locking or unlocking what is not an initialised mutex, unlocking a mutex that is not locked and
  destroying a locked one are undefined (\<open>None\<close>). Locking twice in one thread would wait for ever and is \<open>None\<close> too.
  The codes that \<^verbatim>\<open>pthread_mutex_init\<close> and \<^verbatim>\<open>pthread_mutex_lock\<close> return are arguments.
\<close>

section \<open>Definitions\<close>

subsection \<open>The state and the mutexes\<close>

record safe =
  ts_heap :: heap
  ts_mutex :: "ptr \<Rightarrow> bool option"

record pthread_codes =
  pt_init :: int
  pt_lock :: int

definition sizeof_pthread_mutex_t :: size_t where "sizeof_pthread_mutex_t = 40"

definition pthread_mutex_init :: "pthread_codes \<Rightarrow> safe \<Rightarrow> ptr \<Rightarrow> (int \<times> safe) option" where
  "pthread_mutex_init pt s p =
     (if \<not> accessible (ts_heap s) p (unat sizeof_pthread_mutex_t) then None
      else if pt_init pt \<noteq> 0 then Some (pt_init pt, s)
      else Some (0, s\<lparr>ts_mutex := (ts_mutex s)(p := Some False)\<rparr>))"

definition pthread_mutex_lock :: "pthread_codes \<Rightarrow> safe \<Rightarrow> ptr \<Rightarrow> (int \<times> safe) option" where
  "pthread_mutex_lock pt s p = (case ts_mutex s p of
     None \<Rightarrow> None
   | Some taken \<Rightarrow> if pt_lock pt \<noteq> 0 then Some (pt_lock pt, s)
       else if taken then None else Some (0, s\<lparr>ts_mutex := (ts_mutex s)(p := Some True)\<rparr>))"

definition pthread_mutex_unlock :: "safe \<Rightarrow> ptr \<Rightarrow> (int \<times> safe) option" where
  "pthread_mutex_unlock s p =
     (if ts_mutex s p = Some True then Some (0, s\<lparr>ts_mutex := (ts_mutex s)(p := Some False)\<rparr>) else None)"

definition pthread_mutex_destroy :: "safe \<Rightarrow> ptr \<Rightarrow> (int \<times> safe) option" where
  "pthread_mutex_destroy s p =
     (if ts_mutex s p = Some False then Some (0, s\<lparr>ts_mutex := (ts_mutex s)(p := None)\<rparr>) else None)"

subsection \<open>The external mutex functions\<close>

record mutex_funcs =
  pool_ext_mutex_new :: "(safe \<Rightarrow> (ptr \<times> safe) option) option"
  pool_ext_mutex_lock :: "(safe \<Rightarrow> ptr \<Rightarrow> (bool \<times> safe) option) option"
  pool_ext_mutex_unlock :: "(safe \<Rightarrow> ptr \<Rightarrow> (bool \<times> safe) option) option"
  pool_ext_mutex_destroy :: "(safe \<Rightarrow> ptr \<Rightarrow> (bool \<times> safe) option) option"

definition pool_ext_mutex_new_impl :: "ext_funcs \<Rightarrow> pthread_codes \<Rightarrow> safe \<Rightarrow> (ptr \<times> safe) option" where
  "pool_ext_mutex_new_impl e pt s = do {
     (mutex, h) \<leftarrow> call_alloc e (ts_heap s) sizeof_pthread_mutex_t;
     (rc, s) \<leftarrow> pthread_mutex_init pt (s\<lparr>ts_heap := h\<rparr>) mutex;
     if rc \<noteq> 0
     then do {
       h \<leftarrow> call_free e (ts_heap s) mutex;
       Some (0, s\<lparr>ts_heap := h\<rparr>)
     }
     else Some (mutex, s)
   }"

definition pool_ext_mutex_lock_impl :: "pthread_codes \<Rightarrow> safe \<Rightarrow> ptr \<Rightarrow> (bool \<times> safe) option" where
  "pool_ext_mutex_lock_impl pt s mutex = do { (rc, s) \<leftarrow> pthread_mutex_lock pt s mutex; Some (rc = 0, s) }"

definition pool_ext_mutex_unlock_impl :: "safe \<Rightarrow> ptr \<Rightarrow> (bool \<times> safe) option" where
  "pool_ext_mutex_unlock_impl s mutex = do { (rc, s) \<leftarrow> pthread_mutex_unlock s mutex; Some (rc = 0, s) }"

definition pool_ext_mutex_destroy_impl :: "safe \<Rightarrow> ptr \<Rightarrow> (bool \<times> safe) option" where
  "pool_ext_mutex_destroy_impl s mutex = do { (rc, s) \<leftarrow> pthread_mutex_destroy s mutex; Some (rc = 0, s) }"

definition default_mutex :: "ext_funcs \<Rightarrow> pthread_codes \<Rightarrow> mutex_funcs" where
  "default_mutex e pt = \<lparr>pool_ext_mutex_new = Some (pool_ext_mutex_new_impl e pt),
     pool_ext_mutex_lock = Some (pool_ext_mutex_lock_impl pt),
     pool_ext_mutex_unlock = Some pool_ext_mutex_unlock_impl,
     pool_ext_mutex_destroy = Some pool_ext_mutex_destroy_impl\<rparr>"

definition safe_assert_ext_funcs :: "ext_funcs \<Rightarrow> mutex_funcs \<Rightarrow> bool" where
  "safe_assert_ext_funcs e mf \<longleftrightarrow> pool_assert_ext_funcs e
     \<and> \<not> (pool_ext_mutex_new mf = None \<or> pool_ext_mutex_lock mf = None
          \<or> pool_ext_mutex_unlock mf = None \<or> pool_ext_mutex_destroy mf = None)"

text \<open>A call through one of the pointers, which is undefined if the pointer is null.\<close>

definition call_mutex :: "(safe \<Rightarrow> ptr \<Rightarrow> (bool \<times> safe) option) option \<Rightarrow> safe \<Rightarrow> ptr \<Rightarrow> (bool \<times> safe) option" where
  "call_mutex f s p = (case f of None \<Rightarrow> None | Some f \<Rightarrow> f s p)"

subsection \<open>The pool functions\<close>

definition sizeof_safe_Pool :: size_t where "sizeof_safe_Pool = 32"

definition Pool_lock :: "ptr \<Rightarrow> ptr" where "Pool_lock p = p + 24"

definition new_lock :: "ext_funcs \<Rightarrow> mutex_funcs \<Rightarrow> safe \<Rightarrow> ptr \<Rightarrow> ptr \<Rightarrow> size_t \<Rightarrow> size_t \<Rightarrow> (ptr \<times> safe) option" where
  "new_lock e mf s pool arr pool_sz chunk_sz = do {
     (mutex, s) \<leftarrow> (case pool_ext_mutex_new mf of None \<Rightarrow> None | Some f \<Rightarrow> f s);
     h \<leftarrow> store_ptr (ts_heap s) (Pool_lock pool) mutex;
     lock \<leftarrow> load_ptr h (Pool_lock pool);
     if lock = 0
     then do {
       h \<leftarrow> call_free e h arr;
       starts \<leftarrow> load_ptr h (Pool_array_starts pool);
       h \<leftarrow> call_free e h starts;
       h \<leftarrow> call_free e h pool;
       Some (0, s\<lparr>ts_heap := h\<rparr>)
     }
     else do {
       h \<leftarrow> new_fill h pool arr pool_sz chunk_sz;
       Some (pool, s\<lparr>ts_heap := h\<rparr>)
     }
   }"

definition safe_pool_new :: "ext_funcs \<Rightarrow> mutex_funcs \<Rightarrow> safe \<Rightarrow> size_t \<Rightarrow> size_t \<Rightarrow> (ptr \<times> safe) option" where
  "safe_pool_new e mf s pool_sz chunk_sz =
     (if pool_sz = 0 then Some (0, s)
      else let chunk_sz = align2boundary chunk_sz sizeof_ptr in
      if \<not> safe_assert_ext_funcs e mf then Some (0, s)
      else do {
        (pool, h) \<leftarrow> call_alloc e (ts_heap s) sizeof_safe_Pool;
        if pool = 0 then Some (0, s\<lparr>ts_heap := h\<rparr>)
        else do {
          (start, h) \<leftarrow> call_alloc e h sizeof_ArrayStart;
          h \<leftarrow> store_ptr h (Pool_array_starts pool) start;
          starts \<leftarrow> load_ptr h (Pool_array_starts pool);
          if starts = 0
          then do {
            h \<leftarrow> call_free e h pool;
            Some (0, s\<lparr>ts_heap := h\<rparr>)
          }
          else do {
            (arr, h) \<leftarrow> call_alloc e h (pool_sz * chunk_sz);
            if arr = 0
            then do {
              starts \<leftarrow> load_ptr h (Pool_array_starts pool);
              h \<leftarrow> call_free e h starts;
              h \<leftarrow> call_free e h pool;
              Some (0, s\<lparr>ts_heap := h\<rparr>)
            }
            else new_lock e mf (s\<lparr>ts_heap := h\<rparr>) pool arr pool_sz chunk_sz
          }
        }
      })"

text \<open>
  The lock is taken, the work of the function is done on the heap, and the lock is given back; \<open>failed\<close> is returned if
  locking fails. The work is the body of the function in \<open>Libpool\<close> after its tests for null pointers.
\<close>

definition with_lock :: "mutex_funcs \<Rightarrow> safe \<Rightarrow> ptr \<Rightarrow> 'a \<Rightarrow> (heap \<Rightarrow> ('a \<times> heap) option) \<Rightarrow> ('a \<times> safe) option" where
  "with_lock mf s pool failed work = do {
     lock \<leftarrow> load_ptr (ts_heap s) (Pool_lock pool);
     (ok, s) \<leftarrow> call_mutex (pool_ext_mutex_lock mf) s lock;
     if \<not> ok then Some (failed, s)
     else do {
       (result, h) \<leftarrow> work (ts_heap s);
       lock \<leftarrow> load_ptr h (Pool_lock pool);
       (_, s) \<leftarrow> call_mutex (pool_ext_mutex_unlock mf) (s\<lparr>ts_heap := h\<rparr>) lock;
       Some (result, s)
     }
   }"

definition safe_pool_alloc :: "mutex_funcs \<Rightarrow> safe \<Rightarrow> ptr \<Rightarrow> (ptr \<times> safe) option" where
  "safe_pool_alloc mf s pool =
     (if pool = 0 then Some (0, s) else with_lock mf s pool 0 (\<lambda>h. pool_alloc h pool))"

definition safe_pool_free :: "mutex_funcs \<Rightarrow> safe \<Rightarrow> ptr \<Rightarrow> ptr \<Rightarrow> (unit \<times> safe) option" where
  "safe_pool_free mf s pool p =
     (if pool = 0 \<or> p = 0 then Some ((), s)
      else with_lock mf s pool () (\<lambda>h. map_option (Pair ()) (pool_free h pool p)))"

definition safe_pool_expand :: "ext_funcs \<Rightarrow> mutex_funcs \<Rightarrow> safe \<Rightarrow> ptr \<Rightarrow> size_t \<Rightarrow> (bool \<times> safe) option" where
  "safe_pool_expand e mf s pool extra_sz =
     (if pool = 0 \<or> extra_sz \<le> 0 then Some (False, s)
      else with_lock mf s pool False (\<lambda>h. pool_expand e h pool extra_sz))"

definition safe_pool_destroy :: "ext_funcs \<Rightarrow> mutex_funcs \<Rightarrow> safe \<Rightarrow> ptr \<Rightarrow> safe option" where
  "safe_pool_destroy e mf s pool =
     (if pool = 0 then Some s
      else do {
        lock \<leftarrow> load_ptr (ts_heap s) (Pool_lock pool);
        (ok, s) \<leftarrow> call_mutex (pool_ext_mutex_lock mf) s lock;
        if \<not> ok then Some s
        else do {
          array_start \<leftarrow> load_ptr (ts_heap s) (Pool_array_starts pool);
          h \<leftarrow> destroy_loop e (ts_heap s) array_start;
          lock \<leftarrow> load_ptr h (Pool_lock pool);
          (_, s) \<leftarrow> call_mutex (pool_ext_mutex_unlock mf) (s\<lparr>ts_heap := h\<rparr>) lock;
          lock \<leftarrow> load_ptr (ts_heap s) (Pool_lock pool);
          (_, s) \<leftarrow> call_mutex (pool_ext_mutex_destroy mf) s lock;
          h \<leftarrow> call_free e (ts_heap s) pool;
          Some (s\<lparr>ts_heap := h\<rparr>)
        }
      })"

text \<open>A pool with an initialised, free mutex of its own.\<close>

definition lock_cell :: "heap \<Rightarrow> ptr \<Rightarrow> pool_view \<Rightarrow> ptr \<Rightarrow> bool" where
  "lock_cell h pool V lock \<longleftrightarrow> v_pool_sz V = sizeof_safe_Pool \<and> rd64 (bytes h) (Pool_lock pool) = lock
     \<and> (lock, sizeof_pthread_mutex_t) \<in> set (live h) \<and> lock \<notin> fst ` set (pool_blocks pool V)"

definition safe_rep :: "safe \<Rightarrow> ptr \<Rightarrow> pool_view \<Rightarrow> ptr \<Rightarrow> bool" where
  "safe_rep s pool V lock \<longleftrightarrow> pool_rep (ts_heap s) pool V \<and> lock_cell (ts_heap s) pool V lock
     \<and> ts_mutex s lock = Some False"

text \<open>The state in which \<^verbatim>\<open>pool_new\<close> turns to the lock: its three blocks have been allocated on top of \<open>h0\<close>.\<close>

definition new_blocks :: "heap \<Rightarrow> heap \<Rightarrow> ptr \<Rightarrow> ptr \<Rightarrow> ptr \<Rightarrow> size_t \<Rightarrow> size_t \<Rightarrow> bool" where
  "new_blocks h0 h pool start arr pool_sz csz \<longleftrightarrow> heap_wf h \<and> undisturbed h0 h
     \<and> live h = (arr, pool_sz * csz) # (start, sizeof_ArrayStart) # (pool, sizeof_safe_Pool) # live h0
     \<and> distinct [pool, start, arr] \<and> {pool, start, arr} \<inter> fst ` set (live h0) = {}
     \<and> rd64 (bytes h) (Pool_array_starts pool) = start \<and> array_block h csz arr (unat pool_sz)"

text \<open>A concrete pool for the witnesses, of three chunks of 16 bytes.\<close>

definition safe_demo_new :: safe where
  "safe_demo_new = \<lparr>ts_heap = empty_heap, ts_mutex = (\<lambda>_. None)\<rparr>"

definition safe_demo :: safe where
  "safe_demo = \<lparr>ts_heap = \<lparr>bytes = wr64 (wr64 (wr64 (wr64 (wr64 (wr64 (wr64 (wr64 (wr64 (\<lambda>_. 0)
       24 48) 40 112) 64 80) 80 96) 96 0) 16 64) 48 0) 56 64) 32 16,
     live = [(112, 40), (64, 48), (48, 16), (16, 32)]\<rparr>, ts_mutex = (\<lambda>_. None)(112 := Some False)\<rparr>"

definition pthread_ok :: pthread_codes where
  "pthread_ok = \<lparr>pt_init = 0, pt_lock = 0\<rparr>"

section \<open>The lock member\<close>

lemmas mutex_defs = default_mutex_def call_mutex_def pool_ext_mutex_lock_impl_def pool_ext_mutex_unlock_impl_def
  pool_ext_mutex_destroy_impl_def pthread_mutex_lock_def pthread_mutex_unlock_def pthread_mutex_destroy_def

lemma lock_cell_ok:
  assumes "pool_rep h pool V" "lock_cell h pool V lock"
  shows "cell_ok h (Pool_lock pool)" "rd64 (bytes h) (Pool_lock pool) = lock" "within (Pool_lock pool) (pool, v_pool_sz V)"
  using cell_ok_offset[OF pool_rep_blocks(1,2)[OF assms(1)], of 24] within_offset[OF pool_rep_blocks(1,2)[OF assms(1)], of 24] assms(2)
  by (simp_all add: lock_cell_def Pool_lock_def sizeof_safe_Pool_def)

lemma lock_cell_wr64:
  assumes rep: "pool_rep h pool V" and lc: "lock_cell h pool V lock"
    and q: "q = Pool_free_chunk pool \<or> q \<in> set (all_chunks V)"
  shows "rd64 (wr64 m q v) (Pool_lock pool) = rd64 m (Pool_lock pool)"
proof (rule rd64_wr64_other)
  show "aligned (Pool_lock pool)" using lock_cell_ok(1)[OF rep lc] by blast
  show "aligned q" using q pool_rep_pool_cells(1)[OF rep] pool_rep_chunk(1)[OF rep] by blast
  have "Pool_free_chunk pool \<noteq> Pool_lock pool" by (simp add: field_defs Pool_lock_def)
  moreover have "q \<noteq> Pool_lock pool" if "q \<in> set (all_chunks V)"
  proof -
    from that obtain s a n i where sa: "(s, a, n) \<in> set (v_arrays V)" and i: "i < n"
      and qi: "q = a + of_nat i * v_chunk_sz V" by (rule all_chunksE)
    have "within q (a, of_nat n * v_chunk_sz V)"
      unfolding qi by (rule array_block_cell(2)[OF pool_rep_array_block[OF rep sa] i])
    from within_neq[OF pool_rep_blocks(1,2)[OF rep] pool_rep_blocks(4)[OF rep sa] pool_rep_bases(2)[OF rep sa]
        lock_cell_ok(3)[OF rep lc] this] show ?thesis by simp
  qed
  ultimately show "q \<noteq> Pool_lock pool" using q by metis
qed

text \<open>What the lock member needs is not touched by the work of the functions.\<close>

lemma lock_cell_alloc:
  assumes "pool_rep h pool V" "lock_cell h pool V lock" "v_free V = c # fs"
  shows "lock_cell (h\<lparr>bytes := wr64 (bytes h) (Pool_free_chunk pool) w\<rparr>) pool (V\<lparr>v_free := fs\<rparr>) lock"
  using assms(2) lock_cell_wr64[OF assms(1,2), of "Pool_free_chunk pool"] by (simp add: lock_cell_def pool_blocks_def)

lemma lock_cell_free:
  assumes "pool_rep h pool V" "lock_cell h pool V lock" "p \<in> used_chunks V"
  shows "lock_cell (h\<lparr>bytes := wr64 (wr64 (bytes h) p w) (Pool_free_chunk pool) x\<rparr>) pool (V\<lparr>v_free := fs\<rparr>) lock"
  using assms(2) lock_cell_wr64[OF assms(1,2), of "Pool_free_chunk pool"] lock_cell_wr64[OF assms(1,2), of p]
    used_chunksD(1)[OF assms(3)] by (simp add: lock_cell_def pool_blocks_def)

lemma lock_cell_expand:
  assumes rep: "pool_rep h pool V" and lc: "lock_cell h pool V lock"
    and live: "live h' = (arr, x) # (start, y) # live h" "heap_wf h'"
    and same: "\<And>q. within q (pool, v_pool_sz V) \<Longrightarrow> aligned q \<Longrightarrow> q \<notin> {Pool_free_chunk pool, Pool_array_starts pool} \<Longrightarrow>
       rd64 (bytes h') q = rd64 (bytes h) q"
  shows "lock_cell h' pool (expanded_view V start arr n) lock"
proof -
  have "Pool_lock pool \<notin> {Pool_free_chunk pool, Pool_array_starts pool}" by (simp add: field_defs Pool_lock_def)
  then have "rd64 (bytes h') (Pool_lock pool) = lock"
    using same[OF lock_cell_ok(3)[OF rep lc]] lock_cell_ok(1,2)[OF rep lc] by blast
  moreover have "distinct (arr # start # map fst (live h))" using heap_wf_distinct[OF live(2)] live(1) by simp
  then have "lock \<noteq> arr" "lock \<noteq> start" using lc by (auto simp: lock_cell_def image_iff)
  then have "lock \<notin> fst ` set (pool_blocks pool (expanded_view V start arr n))"
    using lc unfolding lock_cell_def set_map[symmetric] pool_bases by (auto simp: expanded_view_def)
  ultimately show ?thesis using lc live(1) by (simp add: lock_cell_def expanded_view_def)
qed

section \<open>Working under the lock\<close>

lemma with_lock_ok:
  assumes rep: "safe_rep s pool V lock" and rc: "pt_lock pt = 0"
    and work: "work (ts_heap s) = Some (r, h')" "pool_rep h' pool V'" "lock_cell h' pool V' lock"
  shows "with_lock (default_mutex e pt) s pool failed work = Some (r, s\<lparr>ts_heap := h'\<rparr>)"
    "safe_rep (s\<lparr>ts_heap := h'\<rparr>) pool V' lock"
proof -
  have m: "ts_mutex s lock = Some False" and r: "pool_rep (ts_heap s) pool V" "lock_cell (ts_heap s) pool V lock"
    using rep by (simp_all add: safe_rep_def)
  have "(ts_mutex s)(lock := Some False) = ts_mutex s" using m by (simp add: fun_upd_idem)
  then show "with_lock (default_mutex e pt) s pool failed work = Some (r, s\<lparr>ts_heap := h'\<rparr>)"
    using lock_cell_ok(1,2)[OF r] lock_cell_ok(1,2)[OF work(2,3)] m rc work(1)
    by (cases s) (simp add: with_lock_def mutex_defs)
  show "safe_rep (s\<lparr>ts_heap := h'\<rparr>) pool V' lock" using work(2,3) m by (simp add: safe_rep_def)
qed

lemma with_lock_fails:
  assumes "safe_rep s pool V lock" "pt_lock pt \<noteq> 0"
  shows "with_lock (default_mutex e pt) s pool failed work = Some (failed, s)"
  using assms lock_cell_ok(1,2)[of "ts_heap s" pool V lock]
  by (simp add: with_lock_def mutex_defs safe_rep_def)

lemma safe_alloc_ok:
  assumes "safe_rep s pool V lock" "pt_lock pt = 0"
  shows "\<exists>h' V'. pool_alloc (ts_heap s) pool = Some (if v_free V = [] then 0 else hd (v_free V), h')
    \<and> safe_pool_alloc (default_mutex e pt) s pool = Some (if v_free V = [] then 0 else hd (v_free V), s\<lparr>ts_heap := h'\<rparr>)
    \<and> safe_rep (s\<lparr>ts_heap := h'\<rparr>) pool V' lock \<and> v_free V' = tl (v_free V)"
proof -
  have r: "pool_rep (ts_heap s) pool V" "lock_cell (ts_heap s) pool V lock" using assms(1) by (simp_all add: safe_rep_def)
  note nz = pool_rep_nonnull[OF r(1)]
  show ?thesis
  proof (cases "v_free V")
    case Nil
    note al = pool_alloc_empty[OF r(1) Nil]
    show ?thesis using with_lock_ok[OF assms, of "\<lambda>h. pool_alloc h pool", OF al r] al nz Nil
      by (intro exI[of _ "ts_heap s"] exI[of _ V]) (simp add: safe_pool_alloc_def)
  next
    case (Cons c fs)
    note al = pool_alloc_Cons[OF r(1) Cons]
    show ?thesis using with_lock_ok[OF assms, of "\<lambda>h. pool_alloc h pool", OF al lock_cell_alloc[OF r Cons]] al(1) nz Cons
      by (intro exI[of _ "(ts_heap s)\<lparr>bytes := wr64 (bytes (ts_heap s)) (Pool_free_chunk pool) (rd64 (bytes (ts_heap s)) c)\<rparr>"]
          exI[of _ "V\<lparr>v_free := fs\<rparr>"]) (simp add: safe_pool_alloc_def)
  qed
qed

lemma safe_free_ok:
  assumes "safe_rep s pool V lock" "pt_lock pt = 0" "p \<in> used_chunks V"
  shows "\<exists>h' V'. pool_free (ts_heap s) pool p = Some h'
    \<and> safe_pool_free (default_mutex e pt) s pool p = Some ((), s\<lparr>ts_heap := h'\<rparr>)
    \<and> safe_rep (s\<lparr>ts_heap := h'\<rparr>) pool V' lock \<and> v_free V' = p # v_free V"
proof -
  have r: "pool_rep (ts_heap s) pool V" "lock_cell (ts_heap s) pool V lock" using assms(1) by (simp_all add: safe_rep_def)
  note fr = pool_free_used[OF r(1) assms(3)]
  have nz: "pool \<noteq> 0" "p \<noteq> 0" using pool_rep_nonnull[OF r(1)] pool_rep_chunk(3)[OF r(1) used_chunksD(1)[OF assms(3)]] by auto
  let ?m = "wr64 (bytes (ts_heap s)) p (rd64 (bytes (ts_heap s)) (Pool_free_chunk pool))"
  let ?h = "(ts_heap s)\<lparr>bytes := wr64 ?m (Pool_free_chunk pool) p\<rparr>"
  have "map_option (Pair ()) (pool_free (ts_heap s) pool p) = Some ((), ?h)" using fr(1) by simp
  from with_lock_ok[OF assms(1,2), of "\<lambda>h. map_option (Pair ()) (pool_free h pool p)", OF this fr(2) lock_cell_free[OF r assms(3)]]
  show ?thesis using fr(1) nz by (intro exI[of _ ?h] exI[of _ "V\<lparr>v_free := p # v_free V\<rparr>"]) (simp add: safe_pool_free_def)
qed

lemma safe_expand_ok:
  assumes "safe_rep s pool V lock" "pt_lock pt = 0" "ext_ok e" "n \<noteq> 0" "unat n * unat (v_chunk_sz V) < 2 ^ 64"
  shows "\<exists>ok h' V'. pool_expand e (ts_heap s) pool n = Some (ok, h')
    \<and> safe_pool_expand e (default_mutex e pt) s pool n = Some (ok, s\<lparr>ts_heap := h'\<rparr>)
    \<and> safe_rep (s\<lparr>ts_heap := h'\<rparr>) pool V' lock
    \<and> length (v_free V') = (if ok then unat n else 0) + length (v_free V)"
proof -
  have r: "pool_rep (ts_heap s) pool V" "lock_cell (ts_heap s) pool V lock" using assms(1) by (simp_all add: safe_rep_def)
  have def: "safe_pool_expand e (default_mutex e pt) s pool n
      = with_lock (default_mutex e pt) s pool False (\<lambda>h. pool_expand e h pool n)"
    using pool_rep_nonnull[OF r(1)] assms(4) by (simp add: safe_pool_expand_def)
  note run = with_lock_ok[OF assms(1,2), of "\<lambda>h. pool_expand e h pool n"]
  show ?thesis
  proof (cases rule: pool_expand_cases[OF assms(3) r(1) assms(4,5), case_names fail ok])
    case fail
    show ?thesis unfolding def using run[OF fail r] fail
      by (intro exI[of _ False] exI[of _ "ts_heap s"] exI[of _ V]) simp
  next
    case (ok start arr h')
    have "lock_cell h' pool (expanded_view V start arr (unat n)) lock"
      by (rule lock_cell_expand[OF r ok(3) pool_rep_blocks(1)[OF ok(2)] ok(5)])
    from run[OF ok(1,2) this] ok(1) show ?thesis unfolding def
      by (intro exI[of _ True] exI[of _ h'] exI[of _ "expanded_view V start arr (unat n)"])
         (simp add: expanded_view_def)
  qed
qed

section \<open>Destroying\<close>

lemma heap_wf_drop_blocks: "heap_wf h \<Longrightarrow> heap_wf (h\<lparr>live := drop_blocks ps (live h)\<rparr>)"
  by (auto simp: heap_wf_def drop_blocks_def list_all_iff sorted_wrt_filter)

lemma safe_destroy_rep:
  assumes e: "ext_ok e" and rep: "safe_rep s pool V lock" and rc: "pt_lock pt = 0"
  shows "safe_pool_destroy e (default_mutex e pt) s pool
      = Some \<lparr>ts_heap = (ts_heap s)\<lparr>live := drop_blocks (fst ` set (pool_blocks pool V)) (live (ts_heap s))\<rparr>,
          ts_mutex = (ts_mutex s)(lock := None)\<rparr>"
    "(lock, sizeof_pthread_mutex_t) \<in> set (drop_blocks (fst ` set (pool_blocks pool V)) (live (ts_heap s)))"
proof -
  have m: "ts_mutex s lock = Some False" and r: "pool_rep (ts_heap s) pool V" "lock_cell (ts_heap s) pool V lock"
    using rep by (simp_all add: safe_rep_def)
  let ?h1 = "(ts_heap s)\<lparr>live := drop_blocks (fst ` set (v_arrays V) \<union> (fst \<circ> snd) ` set (v_arrays V)) (live (ts_heap s))\<rparr>"
  have "cell_ok ?h1 (Pool_lock pool)"
    using cell_ok_offset[OF heap_wf_drop_blocks[OF pool_rep_blocks(1)[OF r(1)]] destroy_rest(1)[OF e r(1)], of 24] r(2)
    by (simp add: Pool_lock_def lock_cell_def sizeof_safe_Pool_def)
  then show "safe_pool_destroy e (default_mutex e pt) s pool
      = Some \<lparr>ts_heap = (ts_heap s)\<lparr>live := drop_blocks (fst ` set (pool_blocks pool V)) (live (ts_heap s))\<rparr>,
          ts_mutex = (ts_mutex s)(lock := None)\<rparr>"
    using destroy_loop_rep[OF e r(1)] destroy_rest(2)[OF e r(1)] pool_rep_nonnull[OF r(1)] pool_rep_pool_cells(2)[OF r(1)]
      lock_cell_ok(1,2)[OF r] m rc by (cases s) (simp add: safe_pool_destroy_def mutex_defs)
  show "(lock, sizeof_pthread_mutex_t) \<in> set (drop_blocks (fst ` set (pool_blocks pool V)) (live (ts_heap s)))"
    using r(2) by (simp add: lock_cell_def drop_blocks_def)
qed

section \<open>Creating\<close>

lemma null_not_accessible: "heap_wf h \<Longrightarrow> 0 < n \<Longrightarrow> \<not> accessible h 0 n"
  by (auto simp: accessible_def list_ex_iff in_block_def unat_eq_zero dest: heap_wf_block(1))

lemma mutex_new_cases:
  assumes e: "ext_ok e" and wf: "heap_wf (ts_heap s)"
  obtains (undefined) "pool_ext_mutex_new_impl e pt s = None" "call_alloc e (ts_heap s) sizeof_pthread_mutex_t = Some (0, ts_heap s)"
  | (failed) "pool_ext_mutex_new_impl e pt s = Some (0, s)" "pt_init pt \<noteq> 0"
  | (mutex) lock where "pool_ext_mutex_new_impl e pt s
        = Some (lock, s\<lparr>ts_heap := (ts_heap s)\<lparr>live := (lock, sizeof_pthread_mutex_t) # live (ts_heap s)\<rparr>,
            ts_mutex := (ts_mutex s)(lock := Some False)\<rparr>)"
      "lock \<noteq> 0" "lock \<notin> fst ` set (live (ts_heap s))" "pt_init pt = 0"
      "heap_wf ((ts_heap s)\<lparr>live := (lock, sizeof_pthread_mutex_t) # live (ts_heap s)\<rparr>)"
proof (cases rule: call_alloc_cases[OF e wf, of sizeof_pthread_mutex_t, case_names null block])
  case null
  have "\<not> accessible (ts_heap s) 0 (unat sizeof_pthread_mutex_t)"
    by (rule null_not_accessible[OF wf]) (simp add: sizeof_pthread_mutex_t_def)
  then show thesis using null
    by (intro undefined) (simp_all add: pool_ext_mutex_new_impl_def pthread_mutex_init_def)
next
  case (block lock)
  let ?h = "(ts_heap s)\<lparr>live := (lock, sizeof_pthread_mutex_t) # live (ts_heap s)\<rparr>"
  have acc: "accessible ?h lock (unat sizeof_pthread_mutex_t)" by (simp add: accessible_def in_block_def)
  show thesis
  proof (cases "pt_init pt = 0")
    case True
    with block acc show thesis by (intro mutex[of lock]) (simp_all add: pool_ext_mutex_new_impl_def pthread_mutex_init_def)
  next
    case False
    have "call_free e ?h lock = Some (ts_heap s)"
      using call_free_live[OF e, of lock sizeof_pthread_mutex_t ?h] block(2,4) by (simp add: drop_block_notin)
    with block(1) acc False show thesis
      by (intro failed) (simp_all add: pool_ext_mutex_new_impl_def pthread_mutex_init_def)
  qed
qed

lemma new_blocks_nonnull: "new_blocks h0 h pool start arr pool_sz csz \<Longrightarrow> pool \<noteq> 0 \<and> start \<noteq> 0 \<and> arr \<noteq> 0"
  using heap_wf_block(1)[of h] by (fastforce simp: new_blocks_def)

text \<open>The store of the new lock, into the structure and nothing else.\<close>

lemma new_blocks_lock:
  assumes nb: "new_blocks h0 h pool start arr pool_sz csz"
  shows "cell_ok h (Pool_lock pool)" "rd64 (wr64 (bytes h) (Pool_lock pool) v) (Pool_array_starts pool) = start"
    "B \<in> set (live h0) \<Longrightarrow> block_data (wr64 (bytes h) (Pool_lock pool) v) B = block_data (bytes h0) B"
    "cell_ok h (Pool_array_starts pool)"
proof -
  have wf: "heap_wf h" and mem: "(pool, sizeof_safe_Pool) \<in> set (live h)" using nb by (simp_all add: new_blocks_def)
  note cell = cell_ok_offset[OF wf mem, of 24] cell_ok_offset[OF wf mem, of 8]
  show c: "cell_ok h (Pool_lock pool)" "cell_ok h (Pool_array_starts pool)"
    using cell by (simp_all add: Pool_lock_def Pool_array_starts_def sizeof_safe_Pool_def)
  have "Pool_lock pool \<noteq> Pool_array_starts pool" by (simp add: Pool_lock_def Pool_array_starts_def)
  then show "rd64 (wr64 (bytes h) (Pool_lock pool) v) (Pool_array_starts pool) = start"
    using c nb by (simp add: rd64_wr64_other new_blocks_def cell_ok_def)
  assume B: "B \<in> set (live h0)"
  then have "B \<in> set (live h)" "fst B \<noteq> pool" "block_data (bytes h) B = block_data (bytes h0) B"
    using nb by (auto simp: new_blocks_def undisturbed_def list_all_iff)
  then show "block_data (wr64 (bytes h) (Pool_lock pool) v) B = block_data (bytes h0) B"
    using block_data_offset_other[OF wf mem, of 24 B "bytes h" v] by (simp add: Pool_lock_def sizeof_safe_Pool_def)
qed

lemma call_free_top:
  assumes "ext_ok e" "b \<noteq> 0" "b \<notin> fst ` set bs"
  shows "call_free e \<lparr>bytes = m, live = (b, x) # bs\<rparr> b = Some \<lparr>bytes = m, live = bs\<rparr>"
  using call_free_live[OF assms(1), of b x "\<lparr>bytes = m, live = (b, x) # bs\<rparr>"] assms(2,3) by (simp add: drop_block_notin)

text \<open>The lock member is none of the cells that the last part of \<^verbatim>\<open>pool_new\<close> fills.\<close>

lemma lock_not_filled:
  assumes wf: "heap_wf h" and mem: "(pool, sizeof_safe_Pool) \<in> set (live h)" "(start, sizeof_ArrayStart) \<in> set (live h)"
    and arr: "array_block h csz arr n" and ne: "pool \<noteq> start" "pool \<noteq> arr"
  shows "Pool_lock pool \<notin> {Pool_free_chunk pool, Pool_chunk_sz pool, ArrayStart_next start, ArrayStart_arr start}"
    "Pool_lock pool \<notin> set (array_chunks csz arr n)"
proof -
  have w: "within (Pool_lock pool) (pool, sizeof_safe_Pool)"
    using within_offset[OF wf mem(1), of 24] by (simp add: Pool_lock_def sizeof_safe_Pool_def)
  have "within p (start, sizeof_ArrayStart)" if "p \<in> {ArrayStart_next start, ArrayStart_arr start}" for p
    using that within_offset[OF wf mem(2), of 8] by (auto simp: field_defs sizeof_ArrayStart_def within_base)
  then have "Pool_lock pool \<noteq> p" if "p \<in> {ArrayStart_next start, ArrayStart_arr start}" for p
    using within_neq[OF wf mem ne(1) w] that by blast
  moreover have "Pool_lock pool \<noteq> Pool_free_chunk pool" "Pool_lock pool \<noteq> Pool_chunk_sz pool"
    by (simp_all add: field_defs Pool_lock_def)
  ultimately show "Pool_lock pool \<notin> {Pool_free_chunk pool, Pool_chunk_sz pool, ArrayStart_next start, ArrayStart_arr start}"
    by blast
  have "(arr, of_nat n * csz) \<in> set (live h)" using arr by (simp add: array_block_def)
  from within_neq[OF wf mem(1) this ne(2) w] array_chunks_within[OF arr]
  show "Pool_lock pool \<notin> set (array_chunks csz arr n)" by blast
qed

lemma new_lock_failed:
  assumes e: "ext_ok e" and nb: "new_blocks h0 (ts_heap s) pool start arr pool_sz csz"
    and new: "pool_ext_mutex_new_impl e pt s = Some (0, s)"
  shows "\<exists>m. new_lock e (default_mutex e pt) s pool arr pool_sz csz = Some (0, s\<lparr>ts_heap := h0\<lparr>bytes := m\<rparr>\<rparr>)
    \<and> undisturbed h0 (h0\<lparr>bytes := m\<rparr>)"
proof -
  let ?m = "wr64 (bytes (ts_heap s)) (Pool_lock pool) 0"
  let ?p = "(pool, sizeof_safe_Pool)" and ?s = "(start, sizeof_ArrayStart)"
  note nl = new_blocks_lock[OF nb] and nz = new_blocks_nonnull[OF nb]
  have L: "live (ts_heap s) = (arr, pool_sz * csz) # ?s # ?p # live h0" "heap_wf (ts_heap s)"
    "distinct [pool, start, arr]" "{pool, start, arr} \<inter> fst ` set (live h0) = {}"
    using nb by (simp_all add: new_blocks_def)
  have heap: "(ts_heap s)\<lparr>bytes := ?m\<rparr> = \<lparr>bytes = ?m, live = (arr, pool_sz * csz) # ?s # ?p # live h0\<rparr>"
    using L(1) by (cases "ts_heap s") simp
  have f1: "call_free e ((ts_heap s)\<lparr>bytes := ?m\<rparr>) arr = Some \<lparr>bytes = ?m, live = ?s # ?p # live h0\<rparr>"
    unfolding heap using L(3,4) nz by (intro call_free_top[OF e]) auto
  have f2: "call_free e \<lparr>bytes = ?m, live = ?s # ?p # live h0\<rparr> start = Some \<lparr>bytes = ?m, live = [?p] @ live h0\<rparr>"
    using L(3,4) nz call_free_top[OF e, of start "?p # live h0"] by auto
  have f3: "call_free e \<lparr>bytes = ?m, live = [?p] @ live h0\<rparr> pool = Some \<lparr>bytes = ?m, live = live h0\<rparr>"
    using L(3,4) nz call_free_top[OF e, of pool "live h0"] by auto
  have "heap_wf \<lparr>bytes = ?m, live = ?s # ?p # live h0\<rparr>" using L(1,2) by (simp add: heap_wf_def)
  then have c: "cell_ok \<lparr>bytes = ?m, live = ?s # ?p # live h0\<rparr> (Pool_array_starts pool)"
    using cell_ok_offset[of _ pool sizeof_safe_Pool 8] by (simp add: Pool_array_starts_def sizeof_safe_Pool_def)
  have "new_lock e (default_mutex e pt) s pool arr pool_sz csz = Some (0, s\<lparr>ts_heap := h0\<lparr>bytes := ?m\<rparr>\<rparr>)"
    using new f1 f2 f3 c nl(1,2) nz by (cases h0) (simp add: new_lock_def default_mutex_def rd64_wr64_same)
  moreover have "undisturbed h0 (h0\<lparr>bytes := ?m\<rparr>)" using nl(3) by (simp add: undisturbed_def list_all_iff)
  ultimately show ?thesis by blast
qed

lemma new_lock_ok:
  assumes nb: "new_blocks h0 (ts_heap s) pool start arr pool_sz csz"
    and new: "pool_ext_mutex_new_impl e pt s
        = Some (lock, s\<lparr>ts_heap := (ts_heap s)\<lparr>live := (lock, sizeof_pthread_mutex_t) # live (ts_heap s)\<rparr>,
            ts_mutex := (ts_mutex s)(lock := Some False)\<rparr>)"
    and lock: "lock \<noteq> 0" "lock \<notin> fst ` set (live (ts_heap s))"
      "heap_wf ((ts_heap s)\<lparr>live := (lock, sizeof_pthread_mutex_t) # live (ts_heap s)\<rparr>)"
  obtains s' where "new_lock e (default_mutex e pt) s pool arr pool_sz csz = Some (pool, s')"
    "safe_rep s' pool ((new_view start arr (unat pool_sz) csz)\<lparr>v_pool_sz := sizeof_safe_Pool\<rparr>) lock"
    "live (ts_heap s') = (lock, sizeof_pthread_mutex_t) # live (ts_heap s)" "undisturbed h0 (ts_heap s')"
proof -
  let ?V = "(new_view start arr (unat pool_sz) csz)\<lparr>v_pool_sz := sizeof_safe_Pool\<rparr>"
  let ?h4 = "(ts_heap s)\<lparr>live := (lock, sizeof_pthread_mutex_t) # live (ts_heap s)\<rparr>"
  let ?h = "?h4\<lparr>bytes := wr64 (bytes (ts_heap s)) (Pool_lock pool) lock\<rparr>"
  note nl = new_blocks_lock[OF nb] and nz = new_blocks_nonnull[OF nb]
  have L: "live (ts_heap s) = (arr, pool_sz * csz) # (start, sizeof_ArrayStart) # (pool, sizeof_safe_Pool) # live h0"
    "distinct [pool, start, arr]" "{pool, start, arr} \<inter> fst ` set (live h0) = {}" "array_block (ts_heap s) csz arr (unat pool_sz)"
    using nb by (simp_all add: new_blocks_def)
  have arr: "array_block ?h csz arr (unat pool_sz)" using L(4) lock(3) by (simp add: array_block_def)
  have mem: "(pool, sizeof_safe_Pool) \<in> set (live ?h)" "(start, sizeof_ArrayStart) \<in> set (live ?h)" by (simp_all add: L(1))
  have psz: "24 \<le> unat sizeof_safe_Pool" "8 dvd unat sizeof_safe_Pool" by (simp_all add: sizeof_safe_Pool_def)
  have ne: "pool \<noteq> start" "pool \<noteq> arr" "start \<noteq> arr" using L(2) by auto
  have ptr: "rd64 (bytes ?h) (Pool_array_starts pool) = start" using nl(2) by simp
  obtain m where m: "new_fill ?h pool arr pool_sz csz = Some (?h\<lparr>bytes := m\<rparr>)" "pool_rep (?h\<lparr>bytes := m\<rparr>) pool ?V"
    "\<And>B. B \<in> set (live ?h) \<Longrightarrow> fst B \<notin> {pool, start, arr} \<Longrightarrow> block_data m B = block_data (bytes ?h) B"
    "\<And>q. aligned q \<Longrightarrow> q \<notin> {Pool_free_chunk pool, Pool_chunk_sz pool, ArrayStart_next start, ArrayStart_arr start} \<Longrightarrow>
       q \<notin> set (array_chunks csz arr (unat pool_sz)) \<Longrightarrow> rd64 m q = rd64 (bytes ?h) q"
    using new_fill_rep[OF arr mem(1) psz mem(2) ne ptr] by metis
  have cell: "cell_ok ?h4 (Pool_lock pool)"
    using cell_ok_offset[OF lock(3), of pool sizeof_safe_Pool 24] by (simp add: Pool_lock_def sizeof_safe_Pool_def L(1))
  have "rd64 m (Pool_lock pool) = rd64 (bytes ?h) (Pool_lock pool)"
    using m(4) cell lock_not_filled[OF _ mem arr ne(1,2)] lock(3) by (simp add: cell_ok_def)
  then have rd: "rd64 m (Pool_lock pool) = lock" by (simp add: rd64_wr64_same)
  let ?s' = "s\<lparr>ts_heap := ?h\<lparr>bytes := m\<rparr>, ts_mutex := (ts_mutex s)(lock := Some False)\<rparr>"
  have "new_lock e (default_mutex e pt) s pool arr pool_sz csz = Some (pool, ?s')"
    using new cell lock(1) m(1) by (simp add: new_lock_def default_mutex_def rd64_wr64_same)
  moreover have "lock \<notin> fst ` set (pool_blocks pool ?V)"
    using lock(2) unfolding set_map[symmetric] pool_bases by (simp add: new_view_def L(1))
  then have "safe_rep ?s' pool ?V lock" using m(2) rd by (simp add: safe_rep_def lock_cell_def)
  moreover have "undisturbed h0 (ts_heap ?s')" unfolding undisturbed_def list_all_iff
  proof
    fix B assume B: "B \<in> set (live h0)"
    then have "fst B \<notin> {pool, start, arr}" using L(3) by blast
    with m(3)[of B] nl(3)[OF B] B show "block_data (bytes (ts_heap ?s')) B = block_data (bytes h0) B" by (simp add: L(1))
  qed
  ultimately show thesis by (intro that[of ?s']) simp_all
qed

lemma default_mutex_ext: "ext_ok e \<Longrightarrow> safe_assert_ext_funcs e (default_mutex e pt)"
  by (auto simp: ext_ok_def pool_assert_ext_funcs_def safe_assert_ext_funcs_def default_mutex_def)

lemma safe_new_unfold:
  assumes "pool_sz \<noteq> 0" "ext_ok e"
    and "call_alloc e (ts_heap s) sizeof_safe_Pool = Some (pool, h1)" "pool \<noteq> 0"
    and "call_alloc e h1 sizeof_ArrayStart = Some (start, h2)"
    and "cell_ok h2 (Pool_array_starts pool)"
  shows "safe_pool_new e (default_mutex e pt) s pool_sz chunk_sz =
    (let h = h2\<lparr>bytes := wr64 (bytes h2) (Pool_array_starts pool) start\<rparr>; csz = align2boundary chunk_sz sizeof_ptr in
     if start = 0 then do { h \<leftarrow> call_free e h pool; Some (0, s\<lparr>ts_heap := h\<rparr>) }
     else do {
       (arr, h) \<leftarrow> call_alloc e h (pool_sz * csz);
       if arr = 0
       then do {
         starts \<leftarrow> load_ptr h (Pool_array_starts pool);
         h \<leftarrow> call_free e h starts;
         h \<leftarrow> call_free e h pool;
         Some (0, s\<lparr>ts_heap := h\<rparr>)
       }
       else new_lock e (default_mutex e pt) (s\<lparr>ts_heap := h\<rparr>) pool arr pool_sz csz
     })"
  using assms default_mutex_ext[OF assms(2)] by (simp add: safe_pool_new_def rd64_wr64_same Let_def)

text \<open>Once the structure and the first node are allocated, the run goes on to \<open>new_blocks\<close> or ends with NULL.\<close>

lemma safe_new_allocs:
  assumes e: "ext_ok e" and wf: "heap_wf (ts_heap s)" and sz: "pool_sz \<noteq> 0" "chunk_sz \<noteq> 0"
    and bound: "unat chunk_sz + 7 < 2 ^ 64" "unat pool_sz * unat (align2boundary chunk_sz sizeof_ptr) < 2 ^ 64"
  obtains (null) m where "safe_pool_new e (default_mutex e pt) s pool_sz chunk_sz = Some (0, s\<lparr>ts_heap := (ts_heap s)\<lparr>bytes := m\<rparr>\<rparr>)"
      "undisturbed (ts_heap s) ((ts_heap s)\<lparr>bytes := m\<rparr>)"
  | (blocks) h pool start arr where "new_blocks (ts_heap s) h pool start arr pool_sz (align2boundary chunk_sz sizeof_ptr)"
      "safe_pool_new e (default_mutex e pt) s pool_sz chunk_sz
        = new_lock e (default_mutex e pt) (s\<lparr>ts_heap := h\<rparr>) pool arr pool_sz (align2boundary chunk_sz sizeof_ptr)"
proof -
  let ?csz = "align2boundary chunk_sz sizeof_ptr" and ?h0 = "ts_heap s" and ?new = "safe_pool_new e (default_mutex e pt) s pool_sz chunk_sz"
  show thesis
  proof (cases rule: call_alloc_cases[OF e wf, of sizeof_safe_Pool, case_names nopool pool])
    case nopool
    then have "?new = Some (0, s\<lparr>ts_heap := ?h0\<lparr>bytes := bytes ?h0\<rparr>\<rparr>)"
      using sz(1) default_mutex_ext[OF e] by (simp add: safe_pool_new_def Let_def)
    then show thesis by (rule null) (simp add: undisturbed_def list_all_iff)
  next
    case p: (pool pool)
    define h1 where "h1 = ?h0\<lparr>live := (pool, sizeof_safe_Pool) # live ?h0\<rparr>"
    note p = p[folded h1_def]
    have cell: "cell_ok h (Pool_array_starts pool)" "list_all (\<lambda>B. block_data (wr64 m (Pool_array_starts pool) v) B = block_data m B) (live ?h0)"
      if "heap_wf h" "set (live h1) \<subseteq> set (live h)" for h m v
      using fresh_cell[OF that(1), of pool sizeof_safe_Pool 8] that(2) p(4)
      by (auto simp: h1_def Pool_array_starts_def sizeof_safe_Pool_def)
    show thesis
    proof (cases rule: call_alloc_cases[OF e p(3), of sizeof_ArrayStart, case_names nostart start])
      case nostart
      let ?m = "wr64 (bytes ?h0) (Pool_array_starts pool) 0"
      have "call_free e (h1\<lparr>bytes := ?m\<rparr>) pool = Some (?h0\<lparr>bytes := ?m\<rparr>)"
        using call_free_top[OF e p(2,4), of ?m sizeof_safe_Pool] unfolding h1_def by (cases ?h0) simp
      then have "?new = Some (0, s\<lparr>ts_heap := ?h0\<lparr>bytes := ?m\<rparr>\<rparr>)"
        using safe_new_unfold[OF sz(1) e p(1,2) nostart cell(1)[OF p(3)]] by (simp add: h1_def)
      then show thesis by (rule null) (use cell(2)[OF p(3)] in \<open>simp add: undisturbed_def\<close>)
    next
      case s: (start start)
      define h2 where "h2 = h1\<lparr>live := (start, sizeof_ArrayStart) # live h1\<rparr>"
      note s = s[folded h2_def]
      let ?m = "wr64 (bytes ?h0) (Pool_array_starts pool) start"
      have c: "cell_ok h2 (Pool_array_starts pool)" by (rule cell(1)[OF s(3)]) (auto simp: h2_def)
      note new = safe_new_unfold[OF sz(1) e p(1,2) s(1) c, of pt chunk_sz]
      have und: "undisturbed ?h0 h" if "bytes h = ?m" for h
        using cell(2)[OF p(3)] that by (simp add: undisturbed_def)
      have wf2: "heap_wf (h2\<lparr>bytes := ?m\<rparr>)" using s(3) by simp
      show thesis
      proof (cases rule: call_alloc_cases[OF e wf2, of "pool_sz * ?csz", case_names noarr arr])
        case noarr
        have "call_free e (h2\<lparr>bytes := ?m\<rparr>) start = Some (h1\<lparr>bytes := ?m\<rparr>)" "call_free e (h1\<lparr>bytes := ?m\<rparr>) pool = Some (?h0\<lparr>bytes := ?m\<rparr>)"
          using call_free_top[OF e s(2,4), of ?m sizeof_ArrayStart] call_free_top[OF e p(2,4), of ?m sizeof_safe_Pool]
          unfolding h1_def h2_def by (cases ?h0; simp)+
        then have "?new = Some (0, s\<lparr>ts_heap := ?h0\<lparr>bytes := ?m\<rparr>\<rparr>)"
          using noarr s(2) c unfolding new by (simp add: h1_def h2_def rd64_wr64_same)
        then show thesis by (rule null) (simp add: und)
      next
        case a: (arr arr)
        let ?h3 = "h2\<lparr>bytes := ?m, live := (arr, pool_sz * ?csz) # live h2\<rparr>"
        have "array_block ?h3 ?csz arr (unat pool_sz)"
          using a(3) align2boundary_ok[OF bound(1) sz(2)] bound(2) sz(1) by (auto simp: array_block_def unat_gt_0)
        then have "new_blocks ?h0 ?h3 pool start arr pool_sz ?csz"
          using a(3,4) s(4) p(4) by (auto simp: und new_blocks_def h1_def h2_def rd64_wr64_same)
        then show thesis by (rule blocks) (use a(1,2) s(2) new in \<open>simp add: h1_def h2_def Let_def\<close>)
      qed
    qed
  qed
qed

lemma safe_new_cases:
  assumes e: "ext_ok e" and wf: "heap_wf (ts_heap s)" and sz: "pool_sz \<noteq> 0" "chunk_sz \<noteq> 0"
    and bound: "unat chunk_sz + 7 < 2 ^ 64" "unat pool_sz * unat (align2boundary chunk_sz sizeof_ptr) < 2 ^ 64"
  obtains (null) s' where "safe_pool_new e (default_mutex e pt) s pool_sz chunk_sz = Some (0, s')"
      "live (ts_heap s') = live (ts_heap s)" "undisturbed (ts_heap s) (ts_heap s')" "ts_mutex s' = ts_mutex s"
  | (undefined) h where "safe_pool_new e (default_mutex e pt) s pool_sz chunk_sz = None"
      "call_alloc e h sizeof_pthread_mutex_t = Some (0, h)"
  | (pool) pool start arr lock s' where "safe_pool_new e (default_mutex e pt) s pool_sz chunk_sz = Some (pool, s')"
      "safe_rep s' pool ((new_view start arr (unat pool_sz) (align2boundary chunk_sz sizeof_ptr))\<lparr>v_pool_sz := sizeof_safe_Pool\<rparr>) lock"
      "live (ts_heap s') = [(lock, sizeof_pthread_mutex_t), (arr, pool_sz * align2boundary chunk_sz sizeof_ptr),
         (start, sizeof_ArrayStart), (pool, sizeof_safe_Pool)] @ live (ts_heap s)"
      "{pool, start, arr} \<inter> fst ` set (live (ts_heap s)) = {}" "undisturbed (ts_heap s) (ts_heap s')" "pool \<noteq> 0"
proof (cases rule: safe_new_allocs[OF assms, of pt, case_names null blocks])
  case (null m)
  then show thesis using that(1) by simp
next
  case (blocks h pool start arr)
  let ?s = "s\<lparr>ts_heap := h\<rparr>" and ?csz = "align2boundary chunk_sz sizeof_ptr"
  have nb: "new_blocks (ts_heap s) (ts_heap ?s) pool start arr pool_sz ?csz" using blocks(1) by simp
  have wf3: "heap_wf (ts_heap ?s)" using blocks(1) by (simp add: new_blocks_def)
  show thesis
  proof (cases rule: mutex_new_cases[OF e wf3, of pt, case_names undefined failed mutex])
    case undefined
    show thesis
    proof (rule that(2))
      show "safe_pool_new e (default_mutex e pt) s pool_sz chunk_sz = None"
        unfolding blocks(2) new_lock_def using undefined(1) by (simp add: default_mutex_def)
    qed (use undefined(2) in simp)
  next
    case failed
    then show thesis using new_lock_failed[OF e nb failed(1)] that(1) blocks(2) by auto
  next
    case (mutex lock)
    obtain s' where s': "new_lock e (default_mutex e pt) ?s pool arr pool_sz ?csz = Some (pool, s')"
      "safe_rep s' pool ((new_view start arr (unat pool_sz) ?csz)\<lparr>v_pool_sz := sizeof_safe_Pool\<rparr>) lock"
      "live (ts_heap s') = (lock, sizeof_pthread_mutex_t) # live (ts_heap ?s)" "undisturbed (ts_heap s) (ts_heap s')"
      using new_lock_ok[OF nb mutex(1-3,5)] by blast
    show thesis
      by (rule that(3)[of pool s' start arr lock]) (use s' blocks new_blocks_nonnull[OF nb] in \<open>simp_all add: new_blocks_def\<close>)
  qed
qed

lemma safe_destroy_new:
  assumes e: "ext_ok e" and rep: "safe_rep s' pool (V\<lparr>v_pool_sz := sizeof_safe_Pool\<rparr>) lock" "v_arrays V = [(start, arr, n)]"
    and live: "live (ts_heap s') = [(lock, sizeof_pthread_mutex_t), (arr, x), (start, y), (pool, z)] @ L"
    and fresh: "{pool, start, arr} \<inter> fst ` set L = {}" and rc: "pt_lock pt = 0"
  obtains s2 where "safe_pool_destroy e (default_mutex e pt) s' pool = Some s2"
    "live (ts_heap s2) = (lock, sizeof_pthread_mutex_t) # L" "ts_mutex s2 lock = None" "bytes (ts_heap s2) = bytes (ts_heap s')"
proof -
  let ?V = "V\<lparr>v_pool_sz := sizeof_safe_Pool\<rparr>"
  have ps: "fst ` set (pool_blocks pool ?V) = {pool, start, arr}" using rep(2) unfolding set_map[symmetric] pool_bases by auto
  have "lock \<notin> {pool, start, arr}" using rep(1) ps by (simp add: safe_rep_def lock_cell_def)
  moreover have "drop_blocks {pool, start, arr} L = L" using fresh by (force simp: drop_blocks_def filter_id_conv)
  ultimately have "drop_blocks (fst ` set (pool_blocks pool ?V)) (live (ts_heap s')) = (lock, sizeof_pthread_mutex_t) # L"
    unfolding ps live by (auto simp: drop_blocks_def)
  then show thesis using safe_destroy_rep(1)[OF e rep(1) rc]
    by (intro that[of "\<lparr>ts_heap = (ts_heap s')\<lparr>live := (lock, sizeof_pthread_mutex_t) # L\<rparr>, ts_mutex = (ts_mutex s')(lock := None)\<rparr>"]) simp_all
qed

section \<open>The concrete pool\<close>

lemmas safe_demo_eval = safe_demo_new_def safe_demo_def pthread_ok_def new_lock_def pool_ext_mutex_new_impl_def pthread_mutex_init_def
  sizeof_pthread_mutex_t_def sizeof_safe_Pool_def Pool_lock_def default_mutex_def safe_assert_ext_funcs_def

lemma safe_demo_pool: "safe_pool_new (bump_ext 4096) (default_mutex (bump_ext 4096) pthread_ok) safe_demo_new 3 10 = Some (16, safe_demo)"
  by (simp add: safe_pool_new_def link_chunks.simps safe_demo_eval demo_eval)

text \<open>The memory ends just before the mutex.\<close>

lemma safe_demo_undefined: "safe_pool_new (bump_ext 128) (default_mutex (bump_ext 128) pthread_ok) safe_demo_new 3 10 = None"
  by (simp add: safe_pool_new_def link_chunks.simps safe_demo_eval demo_eval)

lemma safe_demo_new_wf: "heap_wf (ts_heap safe_demo_new)"
  using demo_wf(1) by (simp add: safe_demo_new_def)

lemma safe_demo_size: "unat (10 :: size_t) + 7 < 2 ^ 64" "unat (3 :: size_t) * unat (align2boundary 10 sizeof_ptr) < 2 ^ 64"
  by (simp_all add: demo_eval)

lemma safe_demo_rep: "\<exists>V lock. safe_rep safe_demo 16 V lock \<and> v_chunk_sz V = 16 \<and> length (v_free V) = 3 \<and> used_chunks V = {}"
proof (cases rule: safe_new_cases[OF demo_ext_ok[of 4096] safe_demo_new_wf, of 3 10 pthread_ok, case_names _ _ _ _ null undefined pool])
  case (pool pool start arr lock s')
  then show ?thesis using safe_demo_pool
    by (intro exI[of _ "(new_view start arr 3 16)\<lparr>v_pool_sz := sizeof_safe_Pool\<rparr>"] exI[of _ lock])
       (simp add: new_view_def used_chunks_def all_chunks_def demo_eval)
qed (use safe_demo_pool safe_demo_size in simp_all)

section \<open>Properties\<close>

text \<open>C13. In the thread-safe build every function that gets the lock does what its plain version does to the heap: allocating,
  freeing and expanding give the lock back and keep the pool well formed, and destroying leaves the mutex destroyed and no other
  changed. If locking fails a function does nothing. So \<^verbatim>\<open>pool_free\<close> then returns without
  having freed, and \<^verbatim>\<open>pool_destroy\<close> without having destroyed, and neither tells its caller.\<close>

theorem safe_functions_refine:
  assumes "safe_rep s pool V lock" "ext_ok e"
  shows "(pt_lock pt = 0 \<longrightarrow>
        (\<exists>r h' V'. pool_alloc (ts_heap s) pool = Some (r, h') \<and> safe_pool_alloc (default_mutex e pt) s pool = Some (r, s\<lparr>ts_heap := h'\<rparr>)
          \<and> safe_rep (s\<lparr>ts_heap := h'\<rparr>) pool V' lock \<and> v_free V' = tl (v_free V))
      \<and> (\<forall>p \<in> used_chunks V. \<exists>h' V'. pool_free (ts_heap s) pool p = Some h'
          \<and> safe_pool_free (default_mutex e pt) s pool p = Some ((), s\<lparr>ts_heap := h'\<rparr>)
          \<and> safe_rep (s\<lparr>ts_heap := h'\<rparr>) pool V' lock \<and> v_free V' = p # v_free V)
      \<and> (\<forall>n. n \<noteq> 0 \<and> unat n * unat (v_chunk_sz V) < 2 ^ 64 \<longrightarrow>
          (\<exists>ok h' V'. pool_expand e (ts_heap s) pool n = Some (ok, h')
            \<and> safe_pool_expand e (default_mutex e pt) s pool n = Some (ok, s\<lparr>ts_heap := h'\<rparr>)
            \<and> safe_rep (s\<lparr>ts_heap := h'\<rparr>) pool V' lock \<and> length (v_free V') = (if ok then unat n else 0) + length (v_free V)))
      \<and> (\<exists>h'. pool_destroy e (ts_heap s) pool = Some h'
          \<and> safe_pool_destroy e (default_mutex e pt) s pool = Some (s\<lparr>ts_heap := h', ts_mutex := (ts_mutex s)(lock := None)\<rparr>)))
    \<and> (pt_lock pt \<noteq> 0 \<longrightarrow> safe_pool_alloc (default_mutex e pt) s pool = Some (0, s)
        \<and> safe_pool_free (default_mutex e pt) s pool p = Some ((), s)
        \<and> safe_pool_expand e (default_mutex e pt) s pool n = Some (False, s)
        \<and> safe_pool_destroy e (default_mutex e pt) s pool = Some s)"
proof -
  have r: "pool_rep (ts_heap s) pool V" "lock_cell (ts_heap s) pool V lock" "ts_mutex s lock = Some False"
    using assms(1) by (simp_all add: safe_rep_def)
  have "safe_pool_destroy e (default_mutex e pt) s pool = Some s" if "pt_lock pt \<noteq> 0"
    using lock_cell_ok(1,2)[OF r(1,2)] r(3) that by (simp add: safe_pool_destroy_def mutex_defs)
  moreover have "safe_pool_alloc (default_mutex e pt) s pool = Some (0, s)" "safe_pool_free (default_mutex e pt) s pool p = Some ((), s)"
    "safe_pool_expand e (default_mutex e pt) s pool n = Some (False, s)" if "pt_lock pt \<noteq> 0"
    by (simp_all add: safe_pool_alloc_def safe_pool_free_def safe_pool_expand_def with_lock_fails[OF assms(1) that])
  moreover have "\<exists>h'. pool_destroy e (ts_heap s) pool = Some h'
      \<and> safe_pool_destroy e (default_mutex e pt) s pool = Some (s\<lparr>ts_heap := h', ts_mutex := (ts_mutex s)(lock := None)\<rparr>)"
    if "pt_lock pt = 0"
    using pool_destroy_rep[OF assms(2) r(1)] safe_destroy_rep(1)[OF assms(2,1) that] by simp
  ultimately show ?thesis
    using safe_alloc_ok[OF assms(1)] safe_free_ok[OF assms(1)] safe_expand_ok[OF assms(1) _ assms(2)] by blast
qed

theorem safe_functions_refine_witness:
  "\<exists>r h'. safe_pool_alloc (default_mutex (bump_ext 4096) pthread_ok) safe_demo 16 = Some (r, safe_demo\<lparr>ts_heap := h'\<rparr>)
     \<and> pool_alloc (ts_heap safe_demo) 16 = Some (r, h')"
proof -
  obtain V lock where "safe_rep safe_demo 16 V lock" using safe_demo_rep by blast
  from conjunct1[OF safe_functions_refine[OF this demo_ext_ok[of 4096], of pthread_ok]] show ?thesis
    by (auto simp: pthread_ok_def)
qed

text \<open>In the thread-safe build \<^verbatim>\<open>pool_destroy\<close> leaks: \<^verbatim>\<open>pool_ext_mutex_destroy_impl\<close> destroys the mutex but does not free the
  memory that \<^verbatim>\<open>pool_ext_mutex_new_impl\<close> allocated for it. After creating and destroying a pool exactly that block of 40
  bytes is left, and it is no mutex any more.\<close>

theorem safe_destroy_leaks_mutex:
  assumes "ext_ok e" "heap_wf (ts_heap s)" "pool_sz \<noteq> 0" "chunk_sz \<noteq> 0" "unat chunk_sz + 7 < 2 ^ 64"
    "unat pool_sz * unat (align2boundary chunk_sz sizeof_ptr) < 2 ^ 64"
    "safe_pool_new e (default_mutex e pt) s pool_sz chunk_sz = Some (pool, s1)" "pool \<noteq> 0" "pt_lock pt' = 0"
  shows "\<exists>lock s2. safe_pool_destroy e (default_mutex e pt') s1 pool = Some s2
    \<and> live (ts_heap s2) = (lock, sizeof_pthread_mutex_t) # live (ts_heap s) \<and> ts_mutex s2 lock = None"
proof (cases rule: safe_new_cases[OF assms(1-6), of pt, case_names null undefined pool])
  case (pool pool' start arr lock s')
  let ?csz = "align2boundary chunk_sz sizeof_ptr"
  have p: "pool' = pool" "s' = s1" using pool(1) assms(7) by simp_all
  have "v_arrays (new_view start arr (unat pool_sz) ?csz) = [(start, arr, unat pool_sz)]" by (simp add: new_view_def)
  from safe_destroy_new[OF assms(1) pool(2) this pool(3,4) assms(9)] show ?thesis unfolding p by blast
qed (use assms(7,8) in simp_all)

theorem safe_destroy_leaks_mutex_witness:
  "\<exists>lock s2. safe_pool_destroy (bump_ext 4096) (default_mutex (bump_ext 4096) pthread_ok) safe_demo 16 = Some s2
     \<and> live (ts_heap s2) = [(lock, 40)]"
  using safe_destroy_leaks_mutex[OF demo_ext_ok safe_demo_new_wf _ _ safe_demo_size safe_demo_pool, of pthread_ok]
  by (auto simp: pthread_ok_def sizeof_pthread_mutex_t_def safe_demo_new_def empty_heap_def)

text \<open>\<^verbatim>\<open>pool_new\<close> of the thread-safe build returns NULL without leaking or a pool with all chunks free, except that it does not
  test the memory for the mutex: if that allocation fails, \<^verbatim>\<open>pthread_mutex_init\<close> is called on NULL, which is undefined.\<close>

theorem safe_pool_new_outcomes:
  assumes "ext_ok e" "heap_wf (ts_heap s)" "pool_sz \<noteq> 0" "chunk_sz \<noteq> 0" "unat chunk_sz + 7 < 2 ^ 64"
    "unat pool_sz * unat (align2boundary chunk_sz sizeof_ptr) < 2 ^ 64"
  shows "(\<exists>s'. safe_pool_new e (default_mutex e pt) s pool_sz chunk_sz = Some (0, s')
        \<and> live (ts_heap s') = live (ts_heap s) \<and> undisturbed (ts_heap s) (ts_heap s'))
    \<or> (\<exists>pool lock V s'. safe_pool_new e (default_mutex e pt) s pool_sz chunk_sz = Some (pool, s') \<and> safe_rep s' pool V lock
        \<and> v_free V = all_chunks V \<and> length (v_free V) = unat pool_sz)
    \<or> (safe_pool_new e (default_mutex e pt) s pool_sz chunk_sz = None \<and> (\<exists>h. call_alloc e h sizeof_pthread_mutex_t = Some (0, h)))"
proof (cases rule: safe_new_cases[OF assms, of pt, case_names null undefined pool])
  case (pool pool start arr lock s')
  then have "\<exists>V. safe_rep s' pool V lock \<and> v_free V = all_chunks V \<and> length (v_free V) = unat pool_sz"
    by (intro exI[of _ "(new_view start arr (unat pool_sz) (align2boundary chunk_sz sizeof_ptr))\<lparr>v_pool_sz := sizeof_safe_Pool\<rparr>"])
       (simp add: new_view_def all_chunks_def)
  with pool(1) show ?thesis by blast
qed blast+

end
