(* ===== verification/Interleaving.thy ===== *)
theory Interleaving
  imports Prelude
begin

text \<open>
  Processes that share a state: a step function gives, for each choice of who moves and with what outcome,
  the next state, where \<open>None\<close> is undefined behaviour. The locale \<open>safe_steps\<close> is the contract of a
  system with an inductive invariant: no choice is undefined and every step keeps the invariant. Its lemmas carry the
  invariant to all reachable states.
\<close>

section \<open>Definitions\<close>

inductive reach :: "('c \<Rightarrow> 's \<Rightarrow> 's option) \<Rightarrow> 's \<Rightarrow> 's \<Rightarrow> bool" for step s0 where
  start: "reach step s0 s0"
| step: "reach step s0 s \<Longrightarrow> step c s = Some s' \<Longrightarrow> reach step s0 s'"

text \<open>The run of a given schedule.\<close>

fun schedule :: "('c \<Rightarrow> 's \<Rightarrow> 's option) \<Rightarrow> 'c list \<Rightarrow> 's \<Rightarrow> 's option" where
  "schedule step [] s = Some s"
| "schedule step (c # cs) s = (case step c s of None \<Rightarrow> None | Some s' \<Rightarrow> schedule step cs s')"

section \<open>Lemmas\<close>

lemma schedule_append:
  "schedule step (cs @ ds) s = (case schedule step cs s of None \<Rightarrow> None | Some s' \<Rightarrow> schedule step ds s')"
  by (induction cs arbitrary: s) (auto split: option.split)

lemma schedule_reach_from: "reach step s0 s \<Longrightarrow> schedule step cs s = Some s' \<Longrightarrow> reach step s0 s'"
  by (induction cs arbitrary: s) (auto intro: reach.step split: option.splits)

lemma reach_iff_schedule: "reach step s0 s \<longleftrightarrow> (\<exists>cs. schedule step cs s0 = Some s)"
proof
  assume "reach step s0 s"
  then show "\<exists>cs. schedule step cs s0 = Some s"
  proof induction
    case start
    have "schedule step [] s0 = Some s0" by simp
    then show ?case by blast
  next
    case (step s c s')
    then obtain cs where "schedule step cs s0 = Some s" by blast
    with step have "schedule step (cs @ [c]) s0 = Some s'" by (simp add: schedule_append)
    then show ?case by blast
  qed
qed (blast intro: schedule_reach_from reach.start)

lemmas schedule_reach = schedule_reach_from[OF reach.start]

section \<open>Systems with an invariant\<close>

locale safe_steps =
  fixes step :: "'c \<Rightarrow> 's \<Rightarrow> 's option" and inv :: "'s \<Rightarrow> bool"
  assumes keeps: "inv s \<Longrightarrow> \<exists>s'. step c s = Some s' \<and> inv s'"
begin

lemma reach_inv: "reach step s0 s \<Longrightarrow> inv s0 \<Longrightarrow> inv s"
  by (induction rule: reach.induct) (metis keeps option.inject)+

lemma reach_defined: "reach step s0 s \<Longrightarrow> inv s0 \<Longrightarrow> step c s \<noteq> None"
  using keeps[OF reach_inv, of s0 s c] by auto

lemma schedule_total: "inv s \<Longrightarrow> \<exists>s'. schedule step cs s = Some s' \<and> inv s'"
proof (induction cs arbitrary: s)
  case (Cons c cs)
  from keeps[OF Cons.prems] obtain s1 where "step c s = Some s1" "inv s1" by blast
  with Cons.IH[of s1] show ?case by simp
qed simp

end

end
