(* ===== verification/Pool_Threads.thy ===== *)
theory Pool_Threads
  imports Pool_Race Libpool_Safe Interleaving
begin

text \<open>
  Many threads on one pool of the thread-safe build (\<^verbatim>\<open>common/src/libpool.c\<close> with \<^verbatim>\<open>LIBPOOL_THREAD_SAFE\<close>). Each thread
  calls \<^verbatim>\<open>pool_alloc\<close>, \<^verbatim>\<open>pool_free\<close> and \<^verbatim>\<open>pool_expand\<close> and writes into the chunks it holds, in any order and as
  often as it likes; it frees and writes only chunks it holds, and not while a call of its own is running. The threads
  interleave at every access to the pool. Locking waits until the mutex is free, or fails.
\<close>

section \<open>Definitions\<close>

datatype pool_call = Alloc | Free ptr | Expand size_t

text \<open>
  The accesses of a call between lock and unlock. Those of \<^verbatim>\<open>pool_alloc\<close> are in \<open>Pool_Race\<close>; \<^verbatim>\<open>pool_free\<close> loads
  \<^verbatim>\<open>pool->free_chunk\<close>, stores it into the chunk, and stores the chunk. The work of \<^verbatim>\<open>pool_expand\<close> is one step: what it
  accesses is new memory, or members of the pool that other threads access only under the lock.
\<close>

datatype free_pc = F_load | F_store ptr | F_link

datatype work = W_alloc alloc_pc | W_free ptr free_pc | W_expand size_t | W_done ptr

fun work_access :: "ext_funcs \<Rightarrow> ptr \<Rightarrow> work \<Rightarrow> heap \<Rightarrow> (work \<times> heap) option" where
  "work_access e pool (W_alloc pc) h = do {
     (pc, h) \<leftarrow> alloc_access pool pc h;
     Some (case pc of A_done result \<Rightarrow> W_done result | _ \<Rightarrow> W_alloc pc, h)
   }"
| "work_access e pool (W_free p F_load) h = do { fc \<leftarrow> load_ptr h (Pool_free_chunk pool); Some (W_free p (F_store fc), h) }"
| "work_access e pool (W_free p (F_store fc)) h = do { h \<leftarrow> store_ptr h p fc; Some (W_free p F_link, h) }"
| "work_access e pool (W_free p F_link) h = do { h \<leftarrow> store_ptr h (Pool_free_chunk pool) p; Some (W_done 0, h) }"
| "work_access e pool (W_expand n) h = do { (ok, h) \<leftarrow> pool_expand e h pool n; Some (W_done 0, h) }"
| "work_access e pool (W_done r) h = Some (W_done r, h)"

fun enter :: "pool_call \<Rightarrow> work" where
  "enter Alloc = W_alloc A_check"
| "enter (Free p) = W_free p F_load"
| "enter (Expand n) = W_expand n"

datatype thread_pc = T_idle | T_lock pool_call | T_in work

text \<open>
  The mutexes have an owner or none; \<open>th_held\<close> are the chunks a thread holds. \<open>th_lost\<close> records chunks whose \<^verbatim>\<open>pool_free\<close>
  could not lock.
\<close>

record threads =
  th_heap :: heap
  th_mutex :: "ptr \<Rightarrow> nat option option"
  th_pc :: "nat \<Rightarrow> thread_pc"
  th_held :: "nat \<Rightarrow> ptr list"
  th_lost :: "ptr set"

text \<open>A thread begins a call, writes into a chunk, or goes on with its call; \<open>Go True\<close> is a lock that fails.\<close>

datatype move = Begin pool_call | Write ptr "u8 list" | Go bool

fun call_ok :: "size_t \<Rightarrow> ptr list \<Rightarrow> pool_call \<Rightarrow> bool" where
  "call_ok csz held Alloc = True"
| "call_ok csz held (Free p) = (p \<in> set held)"
| "call_ok csz held (Expand n) = (n \<noteq> 0 \<and> unat n * unat csz < 2 ^ 64)"

fun without :: "pool_call \<Rightarrow> ptr list \<Rightarrow> ptr list" where
  "without (Free p) held = remove1 p held"
| "without c held = held"

fun unfreed :: "pool_call \<Rightarrow> ptr set" where
  "unfreed (Free p) = {p}"
| "unfreed c = {}"

definition set_pc :: "threads \<Rightarrow> nat \<Rightarrow> thread_pc \<Rightarrow> threads" where
  "set_pc s t pc = s\<lparr>th_pc := (th_pc s)(t := pc)\<rparr>"

definition lock_step :: "ptr \<Rightarrow> nat \<Rightarrow> pool_call \<Rightarrow> bool \<Rightarrow> threads \<Rightarrow> threads option" where
  "lock_step pool t c fails s = do {
     lock \<leftarrow> load_ptr (th_heap s) (Pool_lock pool);
     case th_mutex s lock of
       None \<Rightarrow> None
     | Some owner \<Rightarrow> Some
         (if fails then (set_pc s t T_idle)\<lparr>th_lost := th_lost s \<union> unfreed c\<rparr>
          else if owner = None then (set_pc s t (T_in (enter c)))\<lparr>th_mutex := (th_mutex s)(lock := Some (Some t))\<rparr>
          else s)
   }"

definition unlock_step :: "ptr \<Rightarrow> nat \<Rightarrow> ptr \<Rightarrow> threads \<Rightarrow> threads option" where
  "unlock_step pool t r s = do {
     lock \<leftarrow> load_ptr (th_heap s) (Pool_lock pool);
     if th_mutex s lock = Some (Some t)
     then Some ((set_pc s t T_idle)\<lparr>th_mutex := (th_mutex s)(lock := Some None),
       th_held := (th_held s)(t := (if r = 0 then th_held s t else r # th_held s t))\<rparr>)
     else None
   }"

fun go_step :: "ext_funcs \<Rightarrow> ptr \<Rightarrow> nat \<Rightarrow> bool \<Rightarrow> thread_pc \<Rightarrow> threads \<Rightarrow> threads option" where
  "go_step e pool t fails T_idle s = Some s"
| "go_step e pool t fails (T_lock c) s = lock_step pool t c fails s"
| "go_step e pool t fails (T_in (W_done r)) s = unlock_step pool t r s"
| "go_step e pool t fails (T_in w) s = do {
     (w, h) \<leftarrow> work_access e pool w (th_heap s);
     Some ((set_pc s t (T_in w))\<lparr>th_heap := h\<rparr>)
   }"

fun thread_step :: "ext_funcs \<Rightarrow> ptr \<Rightarrow> size_t \<Rightarrow> nat \<times> move \<Rightarrow> threads \<Rightarrow> threads option" where
  "thread_step e pool csz (t, Begin c) s = Some
     (if th_pc s t = T_idle \<and> call_ok csz (th_held s t) c
      then (set_pc s t (T_lock c))\<lparr>th_held := (th_held s)(t := without c (th_held s t))\<rparr> else s)"
| "thread_step e pool csz (t, Write p bs) s =
     (if th_pc s t = T_idle \<and> p \<in> set (th_held s t) \<and> length bs \<le> unat csz
      then do { h \<leftarrow> store_buffer (th_heap s) p bs; Some (s\<lparr>th_heap := h\<rparr>) } else Some s)"
| "thread_step e pool csz (t, Go fails) s = go_step e pool t fails (th_pc s t) s"

definition threads_init :: "safe \<Rightarrow> threads" where
  "threads_init s = \<lparr>th_heap = ts_heap s, th_mutex = (\<lambda>p. if ts_mutex s p = Some False then Some None else None),
     th_pc = (\<lambda>_. T_idle), th_held = (\<lambda>_. []), th_lost = {}\<rparr>"

text \<open>The chunks of a thread: those it holds, the one it is about to free and the one it is about to return.\<close>

fun in_transit :: "thread_pc \<Rightarrow> ptr list" where
  "in_transit (T_lock (Free p)) = [p]"
| "in_transit (T_in (W_free p pc)) = [p]"
| "in_transit (T_in (W_done r)) = (if r = 0 then [] else [r])"
| "in_transit pc = []"

definition own :: "threads \<Rightarrow> nat \<Rightarrow> ptr list" where
  "own s t = in_transit (th_pc s t) @ th_held s t"

definition owners_ok :: "ptr set \<Rightarrow> threads \<Rightarrow> bool" where
  "owners_ok U s \<longleftrightarrow> (\<forall>t. distinct (own s t)) \<and> (\<forall>t u. t \<noteq> u \<longrightarrow> set (own s t) \<inter> set (own s u) = {})
     \<and> (\<forall>t. th_lost s \<inter> set (own s t) = {}) \<and> U = th_lost s \<union> (\<Union>t. set (own s t))"

definition mutex_ok :: "ptr \<Rightarrow> threads \<Rightarrow> bool" where
  "mutex_ok lock s \<longleftrightarrow> (\<exists>owner. th_mutex s lock = Some owner \<and> (\<forall>t. (\<exists>w. th_pc s t = T_in w) \<longleftrightarrow> owner = Some t))"

text \<open>What the thread inside knows of the free list.\<close>

fun alloc_ok :: "heap \<Rightarrow> ptr list \<Rightarrow> alloc_pc \<Rightarrow> bool" where
  "alloc_ok h fs A_check = True"
| "alloc_ok h fs A_read = (fs \<noteq> [])"
| "alloc_ok h fs (A_load r) = (fs \<noteq> [] \<and> r = hd fs)"
| "alloc_ok h fs (A_deref r fc) = (fs \<noteq> [] \<and> r = hd fs \<and> fc = hd fs)"
| "alloc_ok h fs (A_store r nxt) = (fs \<noteq> [] \<and> r = hd fs \<and> nxt = rd64 (bytes h) r)"
| "alloc_ok h fs (A_done r) = False"

fun pc_ok :: "size_t \<Rightarrow> ptr \<Rightarrow> heap \<Rightarrow> ptr list \<Rightarrow> thread_pc \<Rightarrow> bool" where
  "pc_ok csz pool h fs (T_lock (Expand n)) = (n \<noteq> 0 \<and> unat n * unat csz < 2 ^ 64)"
| "pc_ok csz pool h fs (T_in (W_alloc pc)) = alloc_ok h fs pc"
| "pc_ok csz pool h fs (T_in (W_free p (F_store fc))) = (fc = rd64 (bytes h) (Pool_free_chunk pool))"
| "pc_ok csz pool h fs (T_in (W_free p F_link)) = (rd64 (bytes h) p = rd64 (bytes h) (Pool_free_chunk pool))"
| "pc_ok csz pool h fs (T_in (W_expand n)) = (n \<noteq> 0 \<and> unat n * unat csz < 2 ^ 64)"
| "pc_ok csz pool h fs pc = True"

definition threads_rep :: "ptr \<Rightarrow> size_t \<Rightarrow> ptr \<Rightarrow> pool_view \<Rightarrow> threads \<Rightarrow> bool" where
  "threads_rep pool csz lock V s \<longleftrightarrow> pool_rep (th_heap s) pool V \<and> v_chunk_sz V = csz \<and> lock_cell (th_heap s) pool V lock
     \<and> owners_ok (used_chunks V) s \<and> mutex_ok lock s \<and> (\<forall>t. pc_ok csz pool (th_heap s) (v_free V) (th_pc s t))"

definition threads_inv :: "ptr \<Rightarrow> size_t \<Rightarrow> ptr \<Rightarrow> threads \<Rightarrow> bool" where
  "threads_inv pool csz lock s \<longleftrightarrow> (\<exists>V. threads_rep pool csz lock V s)"

text \<open>A move keeps the data of every chunk that is held, except where its own thread writes.\<close>

definition held_data_kept :: "size_t \<Rightarrow> nat \<times> move \<Rightarrow> threads \<Rightarrow> threads \<Rightarrow> bool" where
  "held_data_kept csz c s s' \<longleftrightarrow> (\<forall>u. \<forall>q \<in> set (th_held s u). (\<forall>bs. c \<noteq> (u, Write q bs)) \<longrightarrow>
     chunk_data (th_heap s') csz q = chunk_data (th_heap s) csz q)"

text \<open>One access of the thread inside: the step it takes, the invariant and the data of the chunks held.\<close>

definition good_work :: "ext_funcs \<Rightarrow> ptr \<Rightarrow> size_t \<Rightarrow> ptr \<Rightarrow> nat \<Rightarrow> work \<Rightarrow> threads \<Rightarrow> bool" where
  "good_work e pool csz lock t w s \<longleftrightarrow> (\<exists>w' h' V'. work_access e pool w (th_heap s) = Some (w', h')
     \<and> threads_rep pool csz lock V' ((set_pc s t (T_in w'))\<lparr>th_heap := h'\<rparr>)
     \<and> (\<forall>u. \<forall>q \<in> set (th_held s u). chunk_data h' csz q = chunk_data (th_heap s) csz q))"

text \<open>How many accesses a call still makes under the lock.\<close>

fun work_left :: "work \<Rightarrow> nat" where
  "work_left (W_alloc A_check) = 6"
| "work_left (W_alloc A_read) = 5"
| "work_left (W_alloc (A_load r)) = 4"
| "work_left (W_alloc (A_deref r fc)) = 3"
| "work_left (W_alloc (A_store r nxt)) = 2"
| "work_left (W_alloc (A_done r)) = 1"
| "work_left (W_free p F_load) = 3"
| "work_left (W_free p (F_store fc)) = 2"
| "work_left (W_free p F_link) = 1"
| "work_left (W_expand n) = 1"
| "work_left (W_done r) = 0"

section \<open>Who owns what\<close>

lemma set_pc_simps [simp]:
  "th_heap (set_pc s t pc) = th_heap s" "th_mutex (set_pc s t pc) = th_mutex s" "th_held (set_pc s t pc) = th_held s"
  "th_lost (set_pc s t pc) = th_lost s" "th_pc (set_pc s t pc) = (th_pc s)(t := pc)"
  by (simp_all add: set_pc_def)

lemma owners_okD:
  assumes "owners_ok U s"
  shows "distinct (own s t)" "q \<in> set (own s t) \<Longrightarrow> q \<in> set (own s u) \<Longrightarrow> u = t"
    "q \<in> set (in_transit (th_pc s t)) \<Longrightarrow> q \<notin> set (th_held s t)" "q \<in> set (in_transit (th_pc s t)) \<Longrightarrow> q \<notin> set (th_held s u)"
    "q \<in> set (th_held s t) \<Longrightarrow> q \<in> set (th_held s u) \<Longrightarrow> u = t"
proof -
  show d: "distinct (own s t)" for t using assms by (simp add: owners_ok_def)
  show u: "q \<in> set (own s t) \<Longrightarrow> q \<in> set (own s u) \<Longrightarrow> u = t" for t u using assms unfolding owners_ok_def by blast
  show n: "q \<in> set (in_transit (th_pc s t)) \<Longrightarrow> q \<notin> set (th_held s t)" using d[of t] by (auto simp: own_def)
  show "q \<in> set (in_transit (th_pc s t)) \<Longrightarrow> q \<notin> set (th_held s u)" using n u[of t u] by (auto simp: own_def)
  show "q \<in> set (th_held s t) \<Longrightarrow> q \<in> set (th_held s u) \<Longrightarrow> u = t" using u by (simp add: own_def)
qed

lemma owners_ok_same:
  assumes "owners_ok U s" "th_lost s' = th_lost s" "\<And>u. set (own s' u) = set (own s u)" "\<And>u. distinct (own s' u)"
  shows "owners_ok U s'"
  using assms by (simp add: owners_ok_def)

lemma owners_ok_take:
  assumes "owners_ok U s" "c \<notin> U" "th_lost s' = th_lost s" "own s' t = c # own s t" "\<And>u. u \<noteq> t \<Longrightarrow> own s' u = own s u"
  shows "owners_ok (insert c U) s'"
proof -
  have o: "set (own s' u) = (if u = t then insert c (set (own s u)) else set (own s u))" for u using assms(4,5) by simp
  have c: "c \<notin> set (own s u)" "c \<notin> th_lost s" for u using assms(1,2) by (auto simp: owners_ok_def)
  have "distinct (own s' u)" for u using assms(1,4,5) c by (cases "u = t") (simp_all add: owners_ok_def)
  moreover have "(\<Union>u. set (own s' u)) = insert c (\<Union>u. set (own s u))" unfolding o by auto
  ultimately show ?thesis using assms(1,3) c unfolding owners_ok_def o by auto
qed

lemma owners_ok_drop:
  assumes "owners_ok U s" "p \<in> set (own s t)" "set (own s' t) = set (own s t) - {p}" "distinct (own s' t)"
    and "\<And>u. u \<noteq> t \<Longrightarrow> own s' u = own s u"
  shows "th_lost s' = th_lost s \<Longrightarrow> owners_ok (U - {p}) s'" "th_lost s' = insert p (th_lost s) \<Longrightarrow> owners_ok U s'"
proof -
  have o: "set (own s' u) = (if u = t then set (own s u) - {p} else set (own s u))" for u using assms(3,5) by simp
  have p: "p \<notin> set (own s u)" if "u \<noteq> t" for u using assms(1,2) that unfolding owners_ok_def by blast
  have un: "(\<Union>u. set (own s' u)) = (\<Union>u. set (own s u)) - {p}"
  proof (rule set_eqI)
    fix x show "x \<in> (\<Union>u. set (own s' u)) \<longleftrightarrow> x \<in> (\<Union>u. set (own s u)) - {p}"
      using p unfolding UN_iff o by (cases "x = p") (simp_all, metis)
  qed
  have d: "distinct (own s' u)" for u using assms(1,4,5) by (cases "u = t") (simp_all add: owners_ok_def)
  have sub: "set (own s' u) \<subseteq> set (own s u)" "p \<notin> set (own s' u)" for u using p o by auto
  have dis: "\<forall>t u. t \<noteq> u \<longrightarrow> set (own s' t) \<inter> set (own s' u) = {}" and lost: "\<forall>t. th_lost s \<inter> set (own s' t) = {}"
    and U: "U = th_lost s \<union> (\<Union>t. set (own s t))" "p \<notin> th_lost s"
    using assms(1,2) sub(1) unfolding owners_ok_def by blast+
  show "owners_ok (U - {p}) s'" if "th_lost s' = th_lost s"
    using dis lost d un U that unfolding owners_ok_def by auto
  have "p \<in> (\<Union>t. set (own s t))" using assms(2) by blast
  then have "U = insert p (th_lost s) \<union> (\<Union>t. set (own s' t))" unfolding un U(1) by blast
  then show "owners_ok U s'" if "th_lost s' = insert p (th_lost s)"
    using dis lost d sub(2) that unfolding owners_ok_def by simp
qed

section \<open>Frames\<close>

lemma wr64_rd64_same: "wr64 m p (rd64 m p) = m"
proof -
  have "le_bytes 8 (rd64 m p) = map (\<lambda>i. m (p + of_nat i)) [0..<8]" unfolding rd64_def by (rule le_bytes_le_word) simp_all
  then show ?thesis by (auto simp: wr64_def write_bytes_def fun_eq_iff)
qed

lemma chunk_far_lock:
  assumes rep: "pool_rep h pool V" and lc: "lock_cell h pool V lock" and c: "c \<in> set (all_chunks V)"
  shows "far c (unat (v_chunk_sz V)) (Pool_lock pool) 8"
proof -
  from c obtain s a n i where sa: "(s, a, n) \<in> set (v_arrays V)" and i: "i < n"
    and ci: "c = a + of_nat i * v_chunk_sz V" by (rule all_chunksE)
  have "in_block (Pool_lock pool) 8 (pool, v_pool_sz V)"
    using lock_cell_ok(1,3)[OF rep lc]
    by (intro in_block_of_within[OF pool_rep_blocks(1,2)[OF rep]]) (auto simp: pool_rep_pool_sz(2)[OF rep])
  moreover have "in_block c (unat (v_chunk_sz V)) (a, of_nat n * v_chunk_sz V)"
    unfolding ci by (rule chunk_in_block[OF pool_rep_array_block[OF rep sa] i])
  ultimately show ?thesis
    using far_blocks[OF pool_rep_blocks(1)[OF rep] pool_rep_blocks(4)[OF rep sa] pool_rep_blocks(2)[OF rep]]
      pool_rep_bases(2)[OF rep sa] by blast
qed

text \<open>A write into a chunk in use, within its size.\<close>

lemma chunk_write_frame:
  assumes rep: "pool_rep h pool V" and lc: "lock_cell h pool V lock" and c: "c \<in> used_chunks V"
    and len: "length bs \<le> unat (v_chunk_sz V)"
  defines "h' \<equiv> h\<lparr>bytes := write_bytes (bytes h) c bs\<rparr>"
  shows "pool_rep h' pool V" "lock_cell h' pool V lock"
    "rd64 (bytes h') (Pool_free_chunk pool) = rd64 (bytes h) (Pool_free_chunk pool)"
    "\<And>q. q \<in> set (all_chunks V) \<Longrightarrow> q \<noteq> c \<Longrightarrow> rd64 (bytes h') q = rd64 (bytes h) q"
    "\<And>q. q \<in> set (all_chunks V) \<Longrightarrow> q \<noteq> c \<Longrightarrow> chunk_data h' (v_chunk_sz V) q = chunk_data h (v_chunk_sz V) q"
proof -
  have call: "c \<in> set (all_chunks V)" by (rule used_chunksD(1)[OF c])
  show "pool_rep h' pool V" unfolding h'_def by (rule store_buffer_used(2)[OF rep c len])
  have "far c (length bs) (Pool_lock pool) 8" by (rule far_mono[OF chunk_far_lock[OF rep lc call] len]) simp
  then show "lock_cell h' pool V lock" using lc by (simp add: lock_cell_def h'_def rd64_write_bytes_other)
  have "far c (length bs) (Pool_free_chunk pool) 8" using far_mono[OF chunk_far_field[OF rep call, of "Pool_free_chunk pool"] len] by simp
  then show "rd64 (bytes h') (Pool_free_chunk pool) = rd64 (bytes h) (Pool_free_chunk pool)"
    by (simp add: h'_def rd64_write_bytes_other)
  fix q assume q: "q \<in> set (all_chunks V)" "q \<noteq> c"
  have far: "far c (length bs) q (unat (v_chunk_sz V))" using far_mono[OF chunk_far_chunk[OF rep call q(1)] len] q(2) by simp
  then have "far c (length bs) q 8" using far_mono pool_rep_chunk_size[OF rep] by blast
  then show "rd64 (bytes h') q = rd64 (bytes h) q" by (simp add: h'_def rd64_write_bytes_other)
  show "chunk_data h' (v_chunk_sz V) q = chunk_data h (v_chunk_sz V) q"
    using chunk_data_write_far[OF far, where h = h and m = "bytes h"] by (simp add: h'_def)
qed

lemma field_write_data:
  assumes "pool_rep h pool V" "q \<in> set (all_chunks V)"
  shows "chunk_data (h\<lparr>bytes := wr64 (bytes h) (Pool_free_chunk pool) v\<rparr>) (v_chunk_sz V) q = chunk_data h (v_chunk_sz V) q"
  using chunk_data_wr64_far[OF far_sym[THEN iffD1, OF chunk_far_field[OF assms, of "Pool_free_chunk pool"]], where h = h and m = "bytes h" and v = v]
  by simp

section \<open>Every move is defined and keeps the invariant\<close>

lemma threads_repI [intro]:
  "pool_rep (th_heap s) pool V \<Longrightarrow> v_chunk_sz V = csz \<Longrightarrow> lock_cell (th_heap s) pool V lock \<Longrightarrow> owners_ok (used_chunks V) s \<Longrightarrow>
   mutex_ok lock s \<Longrightarrow> (\<And>t. pc_ok csz pool (th_heap s) (v_free V) (th_pc s t)) \<Longrightarrow> threads_rep pool csz lock V s"
  by (simp add: threads_rep_def)

lemma threads_repD:
  assumes "threads_rep pool csz lock V s"
  shows "pool_rep (th_heap s) pool V" "v_chunk_sz V = csz" "lock_cell (th_heap s) pool V lock" "owners_ok (used_chunks V) s"
    "mutex_ok lock s" "pc_ok csz pool (th_heap s) (v_free V) (th_pc s t)"
    "q \<in> set (own s t) \<Longrightarrow> q \<in> used_chunks V" "q \<in> set (th_held s t) \<Longrightarrow> q \<in> used_chunks V"
    "q \<in> set (th_held s t) \<Longrightarrow> q \<in> set (all_chunks V)"
  using assms by (auto simp: threads_rep_def owners_ok_def own_def used_chunks_def)

lemma mutex_ok_only: "mutex_ok lock s \<Longrightarrow> th_pc s t = T_in w \<Longrightarrow> th_pc s u = T_in w' \<Longrightarrow> u = t"
  unfolding mutex_ok_def by (metis option.inject)

lemma mutex_ok_owner: "mutex_ok lock s \<Longrightarrow> th_pc s t = T_in w \<Longrightarrow> th_mutex s lock = Some (Some t)"
  unfolding mutex_ok_def by metis

lemma mutex_ok_outside: "mutex_ok lock s \<Longrightarrow> \<forall>w. th_pc s t \<noteq> T_in w \<Longrightarrow> th_mutex s lock \<noteq> Some (Some t)"
  unfolding mutex_ok_def by (metis option.inject)

lemma mutex_ok_keep:
  assumes "mutex_ok lock s" "th_mutex s' lock = th_mutex s lock" "\<And>u. (\<exists>w. th_pc s' u = T_in w) = (\<exists>w. th_pc s u = T_in w)"
  shows "mutex_ok lock s'"
  using assms by (simp add: mutex_ok_def)

lemma pc_ok_outside: "\<forall>w. pc \<noteq> T_in w \<Longrightarrow> pc_ok csz pool h fs pc = pc_ok csz pool h' fs' pc"
proof (cases pc)
  case (T_lock c)
  then show ?thesis by (cases c) simp_all
qed simp_all

lemma step_begin:
  assumes rep: "threads_rep pool csz lock V s" and idle: "th_pc s t = T_idle" and ok: "call_ok csz (th_held s t) c"
  shows "threads_rep pool csz lock V ((set_pc s t (T_lock c))\<lparr>th_held := (th_held s)(t := without c (th_held s t))\<rparr>)"
proof -
  let ?s = "(set_pc s t (T_lock c))\<lparr>th_held := (th_held s)(t := without c (th_held s t))\<rparr>"
  note r = threads_repD[OF rep]
  have d: "distinct (own s u)" for u using r(4) by (simp add: owners_ok_def)
  have "set (own ?s u) = set (own s u) \<and> distinct (own ?s u)" for u
    using d[of u] ok idle by (cases "u = t"; cases c) (auto simp: own_def)
  then have "owners_ok (used_chunks V) ?s" by (intro owners_ok_same[OF r(4)]) simp_all
  moreover have "mutex_ok lock ?s" using idle by (intro mutex_ok_keep[OF r(5)]) auto
  moreover have "pc_ok csz pool (th_heap s) (v_free V) (T_lock c)" using ok by (cases c) simp_all
  ultimately show ?thesis using r(1-3,6) by (intro threads_repI) simp_all
qed

lemma step_write:
  assumes rep: "threads_rep pool csz lock V s" and p: "p \<in> set (th_held s t)" and len: "length bs \<le> unat csz"
  defines "s' \<equiv> s\<lparr>th_heap := (th_heap s)\<lparr>bytes := write_bytes (bytes (th_heap s)) p bs\<rparr>\<rparr>"
  shows "store_buffer (th_heap s) p bs = Some (th_heap s')" "threads_rep pool csz lock V s'"
    "held_data_kept csz (t, Write p bs) s s'"
proof -
  note r = threads_repD[OF rep]
  have pu: "p \<in> used_chunks V" using r(8)[OF p] .
  have len': "length bs \<le> unat (v_chunk_sz V)" using len r(2) by simp
  show "store_buffer (th_heap s) p bs = Some (th_heap s')" unfolding s'_def using store_buffer_used(1)[OF r(1) pu len'] by simp
  note fr = chunk_write_frame[OF r(1,3) pu len']
  have own: "own s' u = own s u" for u by (simp add: own_def s'_def)
  have "pc_ok csz pool (th_heap s') (v_free V) (th_pc s u)" for u
  proof (cases "th_pc s u")
    case (T_in w)
    have free: "rd64 (bytes (th_heap s')) q = rd64 (bytes (th_heap s)) q" if "q \<in> set (v_free V)" for q
      using fr(4)[of q] that pool_rep_free(1)[OF r(1)] used_chunksD(2)[OF pu] by (auto simp: s'_def)
    show ?thesis
    proof (cases w)
      case (W_alloc pc)
      then show ?thesis using r(6)[of u] T_in free by (cases pc) auto
    next
      case (W_free q pc)
      then have qu: "q \<in> set (in_transit (th_pc s u))" using T_in by simp
      then have "q \<noteq> p" "q \<in> set (own s u)" using owners_okD(4)[OF r(4)] p by (auto simp: own_def)
      then have "rd64 (bytes (th_heap s')) q = rd64 (bytes (th_heap s)) q"
        using fr(4) used_chunksD(1)[OF r(7)] by (simp add: s'_def)
      with fr(3) W_free T_in r(6)[of u] show ?thesis by (cases pc) (simp_all add: s'_def)
    qed (use r(6)[of u] T_in in simp_all)
  qed (use r(6)[of u] pc_ok_outside[of "th_pc s u" csz pool "th_heap s'" "v_free V" "th_heap s" "v_free V"] in simp_all)
  then show "threads_rep pool csz lock V s'"
    using fr(1,2) r(2,4,5) owners_ok_same[OF r(4), of s'] own
    by (intro threads_repI) (simp_all add: s'_def mutex_ok_def owners_ok_def)
  show "held_data_kept csz (t, Write p bs) s s'" unfolding held_data_kept_def
  proof clarify
    fix u q assume q: "q \<in> set (th_held s u)" "\<forall>bs'. (t, Write p bs) \<noteq> (u, Write q bs')"
    have "q \<noteq> p" using q p owners_okD(5)[OF r(4)] by auto
    then show "chunk_data (th_heap s') csz q = chunk_data (th_heap s) csz q"
      using fr(5)[OF r(9)[OF q(1)]] r(2) by (simp add: s'_def)
  qed
qed

lemma step_lock:
  assumes rep: "threads_rep pool csz lock V s" and pc: "th_pc s t = T_lock c"
  shows "\<exists>s'. lock_step pool t c fails s = Some s' \<and> threads_rep pool csz lock V s' \<and> th_heap s' = th_heap s"
proof -
  note r = threads_repD[OF rep]
  obtain owner where owner: "th_mutex s lock = Some owner" "\<And>t. (\<exists>w. th_pc s t = T_in w) = (owner = Some t)"
    using r(5) by (auto simp: mutex_ok_def)
  let ?f = "(set_pc s t T_idle)\<lparr>th_lost := th_lost s \<union> unfreed c\<rparr>"
  let ?g = "(set_pc s t (T_in (enter c)))\<lparr>th_mutex := (th_mutex s)(lock := Some (Some t))\<rparr>"
  have d: "distinct (own s u)" for u by (rule owners_okD(1)[OF r(4)])
  have other: "own ?f u = own s u" if "u \<noteq> t" for u using that by (simp add: own_def)
  have "owners_ok (used_chunks V) ?f"
  proof (cases c)
    case (Free p)
    with pc d[of t] other show ?thesis by (intro owners_ok_drop(2)[OF r(4), of p t]) (auto simp: own_def)
  qed (use pc d other in \<open>intro owners_ok_same[OF r(4)]; auto simp: own_def\<close>)+
  moreover have "mutex_ok lock ?f" using pc by (intro mutex_ok_keep[OF r(5)]) auto
  ultimately have f: "threads_rep pool csz lock V ?f" using r(1-3,6) by (intro threads_repI) simp_all
  have "own ?g u = own s u" for u using pc by (cases c) (simp_all add: own_def)
  then have "owners_ok (used_chunks V) ?g" using d by (intro owners_ok_same[OF r(4)]) simp_all
  moreover have "mutex_ok lock ?g" if "owner = None" using owner that by (simp add: mutex_ok_def)
  moreover have "pc_ok csz pool (th_heap s) (v_free V) (T_in (enter c))" using r(6)[of t] pc by (cases c) simp_all
  ultimately have g: "threads_rep pool csz lock V ?g" if "owner = None"
    using r(1-3,6) that by (intro threads_repI) simp_all
  show ?thesis using f g rep owner(1) lock_cell_ok(1,2)[OF r(1,3)] by (simp add: lock_step_def)
qed

lemma step_unlock:
  assumes rep: "threads_rep pool csz lock V s" and pc: "th_pc s t = T_in (W_done res)"
  shows "\<exists>s'. unlock_step pool t res s = Some s' \<and> threads_rep pool csz lock V s' \<and> th_heap s' = th_heap s"
proof -
  note r = threads_repD[OF rep]
  let ?s = "(set_pc s t T_idle)\<lparr>th_mutex := (th_mutex s)(lock := Some None),
     th_held := (th_held s)(t := (if res = 0 then th_held s t else res # th_held s t))\<rparr>"
  have "own ?s u = own s u" for u using pc by (simp add: own_def)
  then have "owners_ok (used_chunks V) ?s" using owners_okD(1)[OF r(4)] by (intro owners_ok_same[OF r(4)]) simp_all
  moreover have "mutex_ok lock ?s" using mutex_ok_only[OF r(5) pc] by (auto simp: mutex_ok_def)
  ultimately have "threads_rep pool csz lock V ?s" using r(1-3,6) by (intro threads_repI) simp_all
  then show ?thesis using mutex_ok_owner[OF r(5) pc] lock_cell_ok(1,2)[OF r(1,3)] by (simp add: unlock_step_def)
qed

text \<open>The thread inside moves the pool from \<open>V\<close> to \<open>V'\<close>.\<close>

lemma work_frame:
  assumes rep: "threads_rep pool csz lock V s" and pc: "th_pc s t = T_in w"
    and new: "pool_rep h' pool V'" "v_chunk_sz V' = csz" "lock_cell h' pool V' lock" "pc_ok csz pool h' (v_free V') (T_in w')"
    and own: "owners_ok (used_chunks V') ((set_pc s t (T_in w'))\<lparr>th_heap := h'\<rparr>)"
  shows "threads_rep pool csz lock V' ((set_pc s t (T_in w'))\<lparr>th_heap := h'\<rparr>)"
proof -
  note r = threads_repD[OF rep]
  let ?s = "(set_pc s t (T_in w'))\<lparr>th_heap := h'\<rparr>"
  have "mutex_ok lock ?s" using pc by (intro mutex_ok_keep[OF r(5)]) auto
  moreover have "pc_ok csz pool h' (v_free V') (th_pc s u)" if "u \<noteq> t" for u
    using pc_ok_outside[of "th_pc s u"] mutex_ok_only[OF r(5) pc, of u] that r(6)[of u] by metis
  ultimately show ?thesis using new own by (intro threads_repI) simp_all
qed

lemma work_frame_same:
  assumes rep: "threads_rep pool csz lock V s" and pc: "th_pc s t = T_in w"
    and new: "pool_rep h' pool V" "lock_cell h' pool V lock" "pc_ok csz pool h' (v_free V) (T_in w')"
    and same: "in_transit (T_in w') = in_transit (T_in w)"
  shows "threads_rep pool csz lock V ((set_pc s t (T_in w'))\<lparr>th_heap := h'\<rparr>)"
proof (rule work_frame[OF rep pc new(1) threads_repD(2)[OF rep] new(2,3)])
  note r = threads_repD[OF rep]
  have "own ((set_pc s t (T_in w'))\<lparr>th_heap := h'\<rparr>) u = own s u" for u using pc same by (simp add: own_def)
  then show "owners_ok (used_chunks V) ((set_pc s t (T_in w'))\<lparr>th_heap := h'\<rparr>)"
    using owners_okD(1)[OF r(4)] by (intro owners_ok_same[OF r(4)]) simp_all
qed

lemma empty_list_access:
  assumes "pool_rep h pool V" "v_free V = []"
  shows "load_ptr h (Pool_free_chunk pool) = Some 0"
  using pool_rep_free(3)[OF assms(1)] assms(2) pool_rep_pool_cells[OF assms(1)] by simp

lemma good_work_same:
  assumes "threads_rep pool csz lock V s" "th_pc s t = T_in w" "work_access e pool w (th_heap s) = Some (w', th_heap s)"
    "pc_ok csz pool (th_heap s) (v_free V) (T_in w')" "in_transit (T_in w') = in_transit (T_in w)"
  shows "good_work e pool csz lock t w s"
  unfolding good_work_def using work_frame_same[OF assms(1,2) threads_repD(1,3)[OF assms(1)] assms(4,5)] assms(3) by blast

lemma work_alloc:
  assumes rep: "threads_rep pool csz lock V s" and pc: "th_pc s t = T_in (W_alloc a)"
  shows "good_work e pool csz lock t (W_alloc a) s"
proof -
  note r = threads_repD[OF rep]
  have ok: "alloc_ok (th_heap s) (v_free V) a" using r(6)[of t] pc by simp
  show ?thesis
  proof (cases "v_free V")
    case Nil
    then have "a = A_check" using ok by (cases a) auto
    then show ?thesis using empty_list_access[OF r(1) Nil] by (intro good_work_same[OF rep pc, where w' = "W_done 0"]) simp_all
  next
    case (Cons c fs)
    note acc = free_list_access[OF r(1) Cons] and same = good_work_same[OF rep pc]
    show ?thesis
    proof (cases a)
      case (A_store res nxt)
      let ?h = "(th_heap s)\<lparr>bytes := wr64 (bytes (th_heap s)) (Pool_free_chunk pool) (rd64 (bytes (th_heap s)) c)\<rparr>"
      let ?V = "V\<lparr>v_free := fs\<rparr>" and ?s = "(set_pc s t (T_in (W_done c)))\<lparr>th_heap := (th_heap s)\<lparr>bytes :=
        wr64 (bytes (th_heap s)) (Pool_free_chunk pool) (rd64 (bytes (th_heap s)) c)\<rparr>\<rparr>"
      have eq: "res = c" "nxt = rd64 (bytes (th_heap s)) c" using ok A_store Cons by simp_all
      have c: "c \<in> set (all_chunks V)" "c \<notin> set fs" "c \<notin> used_chunks V"
        using pool_rep_free(1,4)[OF r(1)] Cons by (auto simp: used_chunks_def)
      have used: "used_chunks ?V = insert c (used_chunks V)" using c Cons by (auto simp: used_chunks_def all_chunks_def)
      have "owners_ok (used_chunks ?V) ?s" unfolding used
        using pc acc(2) c(3) by (intro owners_ok_take[OF r(4)]) (auto simp: own_def)
      then have "threads_rep pool csz lock ?V ?s"
        using pool_alloc_Cons(2)[OF r(1) Cons] lock_cell_alloc[OF r(1,3) Cons] r(2)
        by (intro work_frame[OF rep pc]) simp_all
      moreover have "work_access e pool (W_alloc a) (th_heap s) = Some (W_done c, ?h)"
        using acc(4) by (simp add: A_store eq)
      moreover have "chunk_data ?h csz q = chunk_data (th_heap s) csz q" if "q \<in> set (th_held s u)" for u q
        using field_write_data[OF r(1) r(9)[OF that]] r(2) by simp
      ultimately show ?thesis unfolding good_work_def by blast
    next
      case A_check
      then show ?thesis using acc(1,2) Cons by (intro same[where w' = "W_alloc A_read"]) simp_all
    next
      case A_read
      then show ?thesis using acc(1) Cons by (intro same[where w' = "W_alloc (A_load c)"]) simp_all
    next
      case (A_load res)
      then show ?thesis using acc(1) Cons ok by (intro same[where w' = "W_alloc (A_deref res c)"]) simp_all
    next
      case (A_deref res fc)
      then show ?thesis using acc(3) Cons ok by (intro same[where w' = "W_alloc (A_store res (rd64 (bytes (th_heap s)) c))"]) simp_all
    qed (use ok in simp)
  qed
qed

lemma work_free:
  assumes rep: "threads_rep pool csz lock V s" and pc: "th_pc s t = T_in (W_free p f)"
  shows "good_work e pool csz lock t (W_free p f) s"
proof -
  note r = threads_repD[OF rep]
  have p: "p \<in> set (own s t)" "p \<in> set (in_transit (th_pc s t))" using pc by (simp_all add: own_def)
  have pu: "p \<in> used_chunks V" by (rule r(7)[OF p(1)])
  note pall = used_chunksD[OF pu] and cells = pool_rep_pool_cells(1)[OF r(1)] pool_rep_chunk(1)[OF r(1) used_chunksD(1)[OF pu]]
  have ne: "q \<noteq> p" if "q \<in> set (th_held s u)" for u q using owners_okD(4)[OF r(4) p(2)] that by blast
  show ?thesis
  proof (cases f)
    case F_load
    then show ?thesis using cells(1) by (intro good_work_same[OF rep pc, where w' = "W_free p (F_store (rd64 (bytes (th_heap s)) (Pool_free_chunk pool)))"]) simp_all
  next
    case (F_store fc)
    have fc: "fc = rd64 (bytes (th_heap s)) (Pool_free_chunk pool)" using r(6)[of t] pc F_store by simp
    let ?h = "(th_heap s)\<lparr>bytes := wr64 (bytes (th_heap s)) p fc\<rparr>"
    have "length (le_bytes 8 fc) \<le> unat (v_chunk_sz V)" using pool_rep_chunk_size[OF r(1)] by simp
    note fr = chunk_write_frame[OF r(1,3) pu this, folded wr64_def]
    have "threads_rep pool csz lock V ((set_pc s t (T_in (W_free p F_link)))\<lparr>th_heap := ?h\<rparr>)"
      using fr(1-3) fc by (intro work_frame_same[OF rep pc]) (simp_all add: rd64_wr64_same)
    moreover have "work_access e pool (W_free p f) (th_heap s) = Some (W_free p F_link, ?h)" using cells(2) F_store by simp
    moreover have "chunk_data ?h csz q = chunk_data (th_heap s) csz q" if "q \<in> set (th_held s u)" for u q
      using fr(5)[OF r(9)[OF that] ne[OF that]] r(2) by simp
    ultimately show ?thesis unfolding good_work_def by blast
  next
    case F_link
    let ?h = "(th_heap s)\<lparr>bytes := wr64 (bytes (th_heap s)) (Pool_free_chunk pool) p\<rparr>"
    let ?V = "V\<lparr>v_free := p # v_free V\<rparr>" and ?s = "(set_pc s t (T_in (W_done 0)))\<lparr>th_heap := (th_heap s)\<lparr>bytes :=
      wr64 (bytes (th_heap s)) (Pool_free_chunk pool) p\<rparr>\<rparr>"
    have "rd64 (bytes (th_heap s)) (Pool_free_chunk pool) = rd64 (bytes (th_heap s)) p" using r(6)[of t] pc F_link by simp
    then have m: "wr64 (bytes (th_heap s)) p (rd64 (bytes (th_heap s)) (Pool_free_chunk pool)) = bytes (th_heap s)"
      by (simp add: wr64_rd64_same)
    have new: "pool_rep ?h pool ?V" "lock_cell ?h pool ?V lock"
      using pool_free_used(2)[OF r(1) pu] lock_cell_free[OF r(1,3) pu, of "rd64 (bytes (th_heap s)) (Pool_free_chunk pool)" p "p # v_free V"]
      unfolding m by simp_all
    have used: "used_chunks ?V = used_chunks V - {p}" by (auto simp: used_chunks_def all_chunks_def)
    have "owners_ok (used_chunks ?V) ?s" unfolding used
      using pc owners_okD(1)[OF r(4), of t] by (intro owners_ok_drop(1)[OF r(4) p(1)]) (auto simp: own_def)
    then have "threads_rep pool csz lock ?V ?s" using new r(2) by (intro work_frame[OF rep pc]) simp_all
    moreover have "work_access e pool (W_free p f) (th_heap s) = Some (W_done 0, ?h)" using cells(1) F_link by simp
    moreover have "chunk_data ?h csz q = chunk_data (th_heap s) csz q" if "q \<in> set (th_held s u)" for u q
      using field_write_data[OF r(1) r(9)[OF that]] r(2) by simp
    ultimately show ?thesis unfolding good_work_def by blast
  qed
qed

lemma work_expand:
  assumes e: "ext_ok e" and rep: "threads_rep pool csz lock V s" and pc: "th_pc s t = T_in (W_expand n)"
  shows "good_work e pool csz lock t (W_expand n) s"
proof -
  note r = threads_repD[OF rep]
  have n: "n \<noteq> 0" "unat n * unat (v_chunk_sz V) < 2 ^ 64" using r(2) r(6)[of t] pc by simp_all
  show ?thesis
  proof (cases rule: pool_expand_cases[OF e r(1) n, case_names fail ok])
    case fail
    then show ?thesis by (intro good_work_same[OF rep pc, where w' = "W_done 0"]) simp_all
  next
    case (ok start arr h')
    let ?V = "expanded_view V start arr (unat n)"
    have lc: "lock_cell h' pool ?V lock" by (rule lock_cell_expand[OF r(1,3) ok(3) pool_rep_blocks(1)[OF ok(2)] ok(5)])
    have "own ((set_pc s t (T_in (W_done 0)))\<lparr>th_heap := h'\<rparr>) u = own s u" for u using pc by (simp add: own_def)
    then have "owners_ok (used_chunks ?V) ((set_pc s t (T_in (W_done 0)))\<lparr>th_heap := h'\<rparr>)"
      unfolding used_chunks_expanded[OF ok(2)] using owners_okD(1)[OF r(4)] by (intro owners_ok_same[OF r(4)]) simp_all
    then have "threads_rep pool csz lock ?V ((set_pc s t (T_in (W_done 0)))\<lparr>th_heap := h'\<rparr>)"
      using r(2) by (intro work_frame[OF rep pc ok(2) _ lc]) (simp_all add: expanded_view_def)
    moreover have "chunk_data h' csz q = chunk_data (th_heap s) csz q" if "q \<in> set (th_held s u)" for u q
      using chunk_data_block_cong[OF r(1) r(9)[OF that] ok(4)] r(2) by simp
    ultimately show ?thesis unfolding good_work_def using ok(1) by auto
  qed
qed

lemma thread_step_ok:
  assumes e: "ext_ok e" and inv: "threads_inv pool csz lock s"
  shows "\<exists>s'. thread_step e pool csz c s = Some s' \<and> threads_inv pool csz lock s' \<and> held_data_kept csz c s s'"
proof -
  obtain V where rep: "threads_rep pool csz lock V s" using inv by (auto simp: threads_inv_def)
  have same: "held_data_kept csz c s s'" if "th_heap s' = th_heap s" for s' using that by (simp add: held_data_kept_def)
  obtain t m where c: "c = (t, m)" by (cases c)
  show ?thesis
  proof (cases m)
    case (Begin call)
    then show ?thesis using step_begin[OF rep, of t call] same inv unfolding c threads_inv_def by auto
  next
    case (Write p bs)
    then show ?thesis using step_write[OF rep, of p t bs] same inv unfolding c threads_inv_def by auto
  next
    case (Go fails)
    show ?thesis
    proof (cases "th_pc s t")
      case T_idle
      then show ?thesis using same inv unfolding c Go by auto
    next
      case (T_lock call)
      then show ?thesis using step_lock[OF rep T_lock, of fails] same unfolding c Go threads_inv_def by auto
    next
      case (T_in w)
      show ?thesis
      proof (cases "\<exists>r. w = W_done r")
        case True
        then show ?thesis using step_unlock[OF rep] T_in same unfolding c Go threads_inv_def by fastforce
      next
        case False
        have "good_work e pool csz lock t w s"
          using work_alloc[OF rep] work_free[OF rep] work_expand[OF e rep] T_in False by (cases w) auto
        moreover have "go_step e pool t fails (T_in w) s
            = do { (w, h) \<leftarrow> work_access e pool w (th_heap s); Some ((set_pc s t (T_in w))\<lparr>th_heap := h\<rparr>) }"
          using False by (cases w) simp_all
        ultimately show ?thesis unfolding good_work_def c Go threads_inv_def held_data_kept_def using T_in by fastforce
      qed
    qed
  qed
qed

interpretation locked: safe_steps "thread_step e pool csz" "\<lambda>s. ext_ok e \<and> threads_inv pool csz lock s"
  by unfold_locales (use thread_step_ok in blast)

lemma threads_init_inv:
  assumes "safe_rep s pool V lock" "used_chunks V = {}"
  shows "threads_inv pool (v_chunk_sz V) lock (threads_init s)"
proof -
  have "owners_ok (used_chunks V) (threads_init s)" using assms(2) by (simp add: owners_ok_def own_def threads_init_def)
  moreover have "mutex_ok lock (threads_init s)" using assms(1) by (simp add: mutex_ok_def threads_init_def safe_rep_def)
  ultimately have "threads_rep pool (v_chunk_sz V) lock V (threads_init s)"
    using assms(1) by (intro threads_repI) (simp_all add: threads_init_def safe_rep_def)
  then show ?thesis by (auto simp: threads_inv_def)
qed

section \<open>Calls come to an end\<close>

lemma work_access_left: "work_access e pool w h = Some (w', h') \<Longrightarrow> \<forall>r. w \<noteq> W_done r \<Longrightarrow> work_left w' < work_left w"
proof (cases w)
  case (W_alloc pc)
  then show "work_access e pool w h = Some (w', h') \<Longrightarrow> \<forall>r. w \<noteq> W_done r \<Longrightarrow> work_left w' < work_left w"
    by (cases pc) (auto simp: bind_eq_Some_conv split: if_splits)
next
  case (W_free p f)
  then show "work_access e pool w h = Some (w', h') \<Longrightarrow> \<forall>r. w \<noteq> W_done r \<Longrightarrow> work_left w' < work_left w"
    by (cases f) (auto simp: bind_eq_Some_conv)
qed (auto simp: bind_eq_Some_conv)

lemma inside_finishes:
  assumes "ext_ok e" "threads_inv pool csz lock s" "th_pc s t = T_in w"
  shows "\<exists>n s'. schedule (thread_step e pool csz) (replicate n (t, Go False)) s = Some s' \<and> threads_inv pool csz lock s'
    \<and> th_pc s' = (th_pc s)(t := T_idle)"
  using assms(2,3)
proof (induction "work_left w" arbitrary: s w rule: less_induct)
  case less
  obtain s1 where s1: "thread_step e pool csz (t, Go False) s = Some s1" "threads_inv pool csz lock s1"
    using thread_step_ok[OF assms(1) less.prems(1)] by blast
  show ?case
  proof (cases "\<exists>r. w = W_done r")
    case True
    then have "th_pc s1 = (th_pc s)(t := T_idle)"
      using s1(1) less.prems(2) by (auto simp: unlock_step_def bind_eq_Some_conv split: if_splits)
    then show ?thesis using s1 by (intro exI[of _ 1] exI[of _ s1]) simp
  next
    case False
    then obtain w' h' where w': "work_access e pool w (th_heap s) = Some (w', h')" "s1 = (set_pc s t (T_in w'))\<lparr>th_heap := h'\<rparr>"
      using s1(1) less.prems(2) by (cases w) (auto simp: bind_eq_Some_conv)
    have pc: "th_pc s1 t = T_in w'" by (simp add: w'(2))
    from less.hyps[OF work_access_left[OF w'(1)] s1(2) pc] False obtain n s' where
      "schedule (thread_step e pool csz) (replicate n (t, Go False)) s1 = Some s'" "threads_inv pool csz lock s'"
      "th_pc s' = (th_pc s1)(t := T_idle)" by blast
    then show ?thesis using s1(1) by (intro exI[of _ "Suc n"] exI[of _ s']) (simp add: w'(2))
  qed
qed

text \<open>While nobody is inside, a waiting call gets the lock and runs to its end.\<close>

lemma waiting_finishes:
  assumes e: "ext_ok e" and inv: "threads_inv pool csz lock s" and pc: "th_pc s t = T_lock c" and free: "\<forall>u w. th_pc s u \<noteq> T_in w"
  shows "\<exists>n s'. schedule (thread_step e pool csz) (replicate n (t, Go False)) s = Some s' \<and> th_pc s' t = T_idle"
proof -
  obtain V where rep: "threads_rep pool csz lock V s" using inv by (auto simp: threads_inv_def)
  note r = threads_repD[OF rep]
  have "th_mutex s lock = Some None" using r(5) free unfolding mutex_ok_def by (metis not_Some_eq)
  then obtain s1 where s1: "thread_step e pool csz (t, Go False) s = Some s1" "th_pc s1 t = T_in (enter c)"
    using pc lock_cell_ok(1,2)[OF r(1,3)] by (simp add: lock_step_def)
  have "threads_inv pool csz lock s1" using thread_step_ok[OF e inv, of "(t, Go False)"] s1(1) by auto
  from inside_finishes[OF e this s1(2)] obtain n s' where
    "schedule (thread_step e pool csz) (replicate n (t, Go False)) s1 = Some s'" "th_pc s' t = T_idle" by auto
  with s1(1) show ?thesis by (intro exI[of _ "Suc n"] exI[of _ s']) simp
qed

lemma goes_replicate: "replicate n (t, Go False) = map (\<lambda>u. (u, Go False)) (replicate n t)"
  by simp

lemma call_can_return:
  assumes e: "ext_ok e" and inv: "threads_inv pool csz lock s"
  shows "\<exists>us s'. schedule (thread_step e pool csz) (map (\<lambda>u. (u, Go False)) us) s = Some s' \<and> th_pc s' t = T_idle"
proof (cases "th_pc s t")
  case T_idle
  then show ?thesis by (intro exI[of _ "[]"]) simp
next
  case (T_in w)
  from inside_finishes[OF e inv this] obtain n s' where
    "schedule (thread_step e pool csz) (replicate n (t, Go False)) s = Some s'" "th_pc s' = (th_pc s)(t := T_idle)" by blast
  then show ?thesis unfolding goes_replicate by (intro exI[of _ "replicate n t"] exI[of _ s']) simp
next
  case (T_lock c)
  show ?thesis
  proof (cases "\<exists>u w. th_pc s u = T_in w")
    case False
    then show ?thesis using waiting_finishes[OF e inv T_lock] unfolding goes_replicate by blast
  next
    case True
    then obtain u w where u: "th_pc s u = T_in w" by blast
    obtain V where V: "threads_rep pool csz lock V s" using inv by (auto simp: threads_inv_def)
    from inside_finishes[OF e inv u] obtain n s1 where
      s1: "schedule (thread_step e pool csz) (replicate n (u, Go False)) s = Some s1" "threads_inv pool csz lock s1"
        "th_pc s1 = (th_pc s)(u := T_idle)" by blast
    have "t \<noteq> u" using u T_lock by auto
    then have "th_pc s1 t = T_lock c" "\<forall>v w. th_pc s1 v \<noteq> T_in w"
      using s1(3) T_lock mutex_ok_only[OF threads_repD(5)[OF V] u] by auto
    from waiting_finishes[OF e s1(2) this] obtain m s' where
      "schedule (thread_step e pool csz) (replicate m (t, Go False)) s1 = Some s'" "th_pc s' t = T_idle" by blast
    then show ?thesis using s1(1)
      by (intro exI[of _ "replicate n u @ replicate m t"] exI[of _ s']) (simp add: schedule_append)
  qed
qed

lemma new_pool_threads:
  assumes "ext_ok e" "heap_wf (ts_heap s0)" "pool_sz \<noteq> 0" "chunk_sz \<noteq> 0" "unat chunk_sz + 7 < 2 ^ 64"
    "unat pool_sz * unat (align2boundary chunk_sz sizeof_ptr) < 2 ^ 64"
    "safe_pool_new e (default_mutex e pt) s0 pool_sz chunk_sz = Some (pool, s1)" "pool \<noteq> 0"
    "csz = align2boundary chunk_sz sizeof_ptr" "reach (thread_step e pool csz) (threads_init s1) s"
  obtains lock where "threads_inv pool csz lock s"
proof -
  obtain V0 lock where V0: "safe_rep s1 pool V0 lock" "v_chunk_sz V0 = csz" "used_chunks V0 = {}"
  proof (cases rule: safe_new_cases[OF assms(1-6), of pt, case_names null undefined pool])
    case (pool pool' start arr lock s')
    with assms(7,9) show thesis
      by (intro that[of "(new_view start arr (unat pool_sz) csz)\<lparr>v_pool_sz := sizeof_safe_Pool\<rparr>" lock])
         (simp_all add: new_view_def used_chunks_def all_chunks_def)
  qed (use assms(7,8) in simp_all)
  have "threads_inv pool csz lock (threads_init s1)" using threads_init_inv[OF V0(1,3)] V0(2) by simp
  then have "threads_inv pool csz lock s" using locked.reach_inv[OF assms(10)] assms(1) by blast
  then show thesis by (rule that)
qed

text \<open>The concrete pool, with one call waiting for the lock.\<close>

lemma demo_wait:
  "reach (thread_step (bump_ext 4096) 16 16) (threads_init safe_demo) (set_pc (threads_init safe_demo) 0 (T_lock Alloc))"
  "16 = align2boundary 10 sizeof_ptr"
proof -
  have "thread_step (bump_ext 4096) 16 16 (0, Begin Alloc) (threads_init safe_demo)
      = Some (set_pc (threads_init safe_demo) 0 (T_lock Alloc))"
    by (simp add: threads_init_def set_pc_def fun_eq_iff)
  then show "reach (thread_step (bump_ext 4096) 16 16) (threads_init safe_demo) (set_pc (threads_init safe_demo) 0 (T_lock Alloc))"
    by (rule reach.step[OF reach.start])
  show "16 = align2boundary 10 sizeof_ptr" by (simp add: demo_eval)
qed

section \<open>Properties\<close>

text \<open>C11. With \<^verbatim>\<open>LIBPOOL_THREAD_SAFE\<close> any number of threads may use one pool at once. After creating it, under every
  interleaving of allocations, frees, expansions and writes, and with any locks failing: no access is undefined and at most
  one thread is inside; the chunks that threads hold are accessible in full, not on the free list, and no two of them
  overlap, neither in one thread nor across threads; every chunk is free, or with a thread, or was given up by a
  \<^verbatim>\<open>pool_free\<close> that could not lock; and no move of a thread changes the data in a chunk that another thread holds, nor in
  its own except by writing there.\<close>

theorem threads_isolated:
  assumes "ext_ok e" "heap_wf (ts_heap s0)" "pool_sz \<noteq> 0" "chunk_sz \<noteq> 0" "unat chunk_sz + 7 < 2 ^ 64"
    "unat pool_sz * unat (align2boundary chunk_sz sizeof_ptr) < 2 ^ 64"
    "safe_pool_new e (default_mutex e pt) s0 pool_sz chunk_sz = Some (pool, s1)" "pool \<noteq> 0"
    "csz = align2boundary chunk_sz sizeof_ptr" "reach (thread_step e pool csz) (threads_init s1) s"
  shows "(\<forall>t u w w'. th_pc s t = T_in w \<longrightarrow> th_pc s u = T_in w' \<longrightarrow> t = u)
    \<and> (\<exists>s'. thread_step e pool csz c s = Some s' \<and> held_data_kept csz c s s')
    \<and> (\<forall>t. distinct (th_held s t))
    \<and> (\<exists>V. pool_rep (th_heap s) pool V \<and> set (all_chunks V) = set (v_free V) \<union> th_lost s \<union> (\<Union>t. set (own s t))
        \<and> (\<forall>t. \<forall>p \<in> set (th_held s t). p \<notin> set (v_free V) \<and> accessible (th_heap s) p (unat csz)
            \<and> (\<forall>u. \<forall>q \<in> set (th_held s u). (t, p) \<noteq> (u, q) \<longrightarrow> far p (unat csz) q (unat csz))))"
proof -
  obtain lock where inv: "threads_inv pool csz lock s" by (rule new_pool_threads[OF assms])
  then obtain V where rep: "threads_rep pool csz lock V s" by (auto simp: threads_inv_def)
  note r = threads_repD[OF rep]
  have held: "p \<notin> set (v_free V) \<and> accessible (th_heap s) p (unat csz)
      \<and> (\<forall>u. \<forall>q \<in> set (th_held s u). (t, p) \<noteq> (u, q) \<longrightarrow> far p (unat csz) q (unat csz))" if p: "p \<in> set (th_held s t)" for t p
  proof -
    have "far p (unat csz) q (unat csz)" if q: "q \<in> set (th_held s u)" "(t, p) \<noteq> (u, q)" for u q
    proof -
      have "p \<noteq> q" using owners_okD(5)[OF r(4)] p q by auto
      then show ?thesis using chunk_far_chunk[OF r(1) r(9)[OF p] r(9)[OF q(1)]] r(2) by simp
    qed
    then show ?thesis using used_chunksD(2)[OF r(8)[OF p]] pool_rep_chunk(2)[OF r(1) r(9)[OF p]] r(2) by blast
  qed
  have "set (all_chunks V) = set (v_free V) \<union> th_lost s \<union> (\<Union>t. set (own s t))"
  proof -
    have "used_chunks V = th_lost s \<union> (\<Union>t. set (own s t))" using r(4) by (simp add: owners_ok_def)
    moreover have "set (all_chunks V) = set (v_free V) \<union> used_chunks V" using pool_rep_free(1)[OF r(1)] by (auto simp: used_chunks_def)
    ultimately show ?thesis by (simp only: Un_assoc)
  qed
  moreover have "distinct (th_held s t)" for t using owners_okD(1)[OF r(4), of t] by (simp add: own_def)
  moreover have "\<exists>s'. thread_step e pool csz c s = Some s' \<and> held_data_kept csz c s s'"
    using thread_step_ok[OF assms(1) inv, of c] by blast
  ultimately show ?thesis
    using mutex_ok_only[OF r(5)] r(1) held by (intro conjI exI[of _ V]) simp_all
qed

theorem threads_isolated_witness:
  "\<exists>s. reach (thread_step (bump_ext 4096) 16 16) (threads_init safe_demo) s \<and> th_pc s 0 = T_lock Alloc
    \<and> (\<exists>s'. thread_step (bump_ext 4096) 16 16 (0, Go False) s = Some s' \<and> held_data_kept 16 (0, Go False) s s')"
proof -
  let ?s = "set_pc (threads_init safe_demo) 0 (T_lock Alloc)"
  have nz: "(3 :: size_t) \<noteq> 0" "(10 :: size_t) \<noteq> 0" "(16 :: ptr) \<noteq> 0" by simp_all
  from threads_isolated[OF demo_ext_ok safe_demo_new_wf nz(1,2) safe_demo_size safe_demo_pool nz(3) demo_wait(2,1), of "(0, Go False)"]
  have "\<exists>s'. thread_step (bump_ext 4096) 16 16 (0, Go False) ?s = Some s' \<and> held_data_kept 16 (0, Go False) ?s s'" by blast
  then show ?thesis using demo_wait(1) by (intro exI[of _ ?s]) (simp del: thread_step.simps)
qed

text \<open>C12. No call on a pool of the thread-safe build can be shut out for ever: from every reachable state, whatever the other
  threads are doing, there is a continuation in which threads only go on with their calls and no lock fails, and after which a given
  thread is back from its call. So whoever is inside always gets to the end and gives the lock back.\<close>

theorem threads_can_return:
  assumes "ext_ok e" "heap_wf (ts_heap s0)" "pool_sz \<noteq> 0" "chunk_sz \<noteq> 0" "unat chunk_sz + 7 < 2 ^ 64"
    "unat pool_sz * unat (align2boundary chunk_sz sizeof_ptr) < 2 ^ 64"
    "safe_pool_new e (default_mutex e pt) s0 pool_sz chunk_sz = Some (pool, s1)" "pool \<noteq> 0"
    "csz = align2boundary chunk_sz sizeof_ptr" "reach (thread_step e pool csz) (threads_init s1) s"
  shows "\<exists>us s'. schedule (thread_step e pool csz) (map (\<lambda>u. (u, Go False)) us) s = Some s' \<and> th_pc s' t = T_idle"
proof -
  obtain lock where "threads_inv pool csz lock s" by (rule new_pool_threads[OF assms])
  then show ?thesis by (rule call_can_return[OF assms(1)])
qed

theorem threads_can_return_witness:
  "\<exists>s us s'. reach (thread_step (bump_ext 4096) 16 16) (threads_init safe_demo) s \<and> th_pc s 0 = T_lock Alloc
    \<and> schedule (thread_step (bump_ext 4096) 16 16) (map (\<lambda>u. (u, Go False)) us) s = Some s' \<and> th_pc s' 0 = T_idle"
proof -
  from threads_can_return[OF demo_ext_ok safe_demo_new_wf _ _ safe_demo_size safe_demo_pool _ demo_wait(2,1), where t = 0]
  have "\<exists>us s'. schedule (thread_step (bump_ext 4096) 16 16) (map (\<lambda>u. (u, Go False)) us) (set_pc (threads_init safe_demo) 0 (T_lock Alloc)) = Some s'
      \<and> th_pc s' 0 = T_idle" by simp
  then show ?thesis using demo_wait(1) by (intro exI[of _ "set_pc (threads_init safe_demo) 0 (T_lock Alloc)"]) simp
qed

end
