(* ===== verification/Udp.thy ===== *)
theory Udp
  imports Mempool
begin

text \<open>
  What the two asynchronous UDP classes share: the console they print to, the operations
  they have outstanding with asio, and the event loop that completes them
  (\<^verbatim>\<open>io_context.run()\<close>). asio is a third-party library: the order in which outstanding
  operations complete, the datagrams that arrive and the errors reported are a list of
  events, restricted by \<open>event_ok\<close> to what asio documents (only outstanding operations
  complete, and a receive writes no more than the buffer it was given).

  The locale \<open>udp_endpoint\<close> states what the completion handlers of an endpoint do with the
  chunks; it is interpreted on the handlers of the server and of the client.
\<close>

section \<open>Definitions\<close>

subsection \<open>Console output\<close>

text \<open>\<^verbatim>\<open>std::cout\<close>: the characters printed and the sticky \<^verbatim>\<open>std::hex\<close> flag.\<close>

record console =
  c_out :: string
  c_hex :: bool

definition show_num :: "console \<Rightarrow> nat \<Rightarrow> string" where
  "show_num c n = show_base (if c_hex c then 16 else 10) n"

definition put :: "string \<Rightarrow> console \<Rightarrow> console" where
  "put s c = c\<lparr>c_out := c_out c @ s\<rparr>"

text \<open>
  \<^verbatim>\<open>std::cout << std::hex << std::setw(2) << std::setfill('0') << static_cast<int>(chunk[i]) << std::endl\<close>:
  the \<^verbatim>\<open>char\<close> is signed on the supported hosts, so the conversion to \<^verbatim>\<open>int\<close> extends its sign.
\<close>

definition hex_line :: "u8 \<Rightarrow> string" where
  "hex_line b = (let d = show_base 16 (unat (scast b :: u32))
     in replicate (2 - length d) (CHR ''0'') @ d @ ''\<newline>'')"

definition put_hex_byte :: "u8 \<Rightarrow> console \<Rightarrow> console" where
  "put_hex_byte b c = (put (hex_line b) c)\<lparr>c_hex := True\<rparr>"

subsection \<open>Endpoints and outstanding operations\<close>

type_synonym endpoint = "u32 \<times> u16"

datatype pending = Recv ptr size_t | Send ptr size_t endpoint

fun chunk_of :: "pending \<Rightarrow> ptr" where
  "chunk_of (Recv p n) = p"
| "chunk_of (Send p n ep) = p"

fun buffer_size :: "pending \<Rightarrow> nat" where
  "buffer_size (Recv p n) = unat n"
| "buffer_size (Send p n ep) = unat n"

fun is_recv :: "pending \<Rightarrow> bool" where
  "is_recv (Recv p n) = True"
| "is_recv (Send p n ep) = False"

text \<open>The members of \<^verbatim>\<open>Udp_server\<close> and \<^verbatim>\<open>Udp_client\<close>, the heap, and what the process prints.\<close>

record udp =
  u_heap :: heap
  u_chunk_size :: size_t
  u_remote :: endpoint
  u_pending :: "pending list"
  u_cout :: console
  u_cerr :: string

definition u_put :: "string \<Rightarrow> udp \<Rightarrow> udp" where
  "u_put s u = u\<lparr>u_cout := put s (u_cout u)\<rparr>"

text \<open>
  \<^verbatim>\<open>for (int i = 0; i < bytes_received; ++i)\<close> over \<^verbatim>\<open>chunk[i]\<close>; overflowing the \<^verbatim>\<open>int\<close> is undefined.
\<close>

function print_bytes :: "udp \<Rightarrow> ptr \<Rightarrow> nat \<Rightarrow> nat \<Rightarrow> udp option" where
  "print_bytes u chunk i n =
     (if i < n
      then do {
        b \<leftarrow> load_char (u_heap u) (chunk + of_nat i);
        if i + 1 < 2 ^ 31
        then print_bytes (u\<lparr>u_cout := put_hex_byte b (u_cout u)\<rparr>) chunk (i + 1) n
        else None
      }
      else Some u)"
  by pat_completeness auto
termination
  by (relation "measure (\<lambda>(u, chunk, i, n). n - i)") auto

declare print_bytes.simps [simp del]

subsection \<open>The event loop\<close>

type_synonym handler = "udp \<Rightarrow> ptr \<Rightarrow> string option \<Rightarrow> size_t \<Rightarrow> ((exn + unit) \<times> udp) option"

datatype event =
    Ev_recv ptr endpoint "u8 list"
  | Ev_recv_fail ptr string
  | Ev_send_done ptr
  | Ev_send_fail ptr string

definition take_pending :: "ptr \<Rightarrow> udp \<Rightarrow> udp" where
  "take_pending p u = u\<lparr>u_pending := filter (\<lambda>op. chunk_of op \<noteq> p) (u_pending u)\<rparr>"

fun send_length :: "ptr \<Rightarrow> pending list \<Rightarrow> size_t" where
  "send_length p [] = 0"
| "send_length p (Send q n ep # ops) = (if q = p then n else send_length p ops)"
| "send_length p (Recv q n # ops) = send_length p ops"

fun recv_on :: "ptr \<Rightarrow> nat \<Rightarrow> pending \<Rightarrow> bool" where
  "recv_on p k (Recv q n) = (q = p \<and> k \<le> unat n)"
| "recv_on p k (Send q n ep) = False"

fun send_on :: "ptr \<Rightarrow> pending \<Rightarrow> bool" where
  "send_on p (Send q n ep) = (q = p)"
| "send_on p (Recv q n) = False"

fun event_ok :: "event \<Rightarrow> udp \<Rightarrow> bool" where
  "event_ok (Ev_recv p ep bs) u = (length bs \<le> 65507 \<and> list_ex (recv_on p (length bs)) (u_pending u))"
| "event_ok (Ev_recv_fail p msg) u = list_ex (recv_on p 0) (u_pending u)"
| "event_ok (Ev_send_done p) u = list_ex (send_on p) (u_pending u)"
| "event_ok (Ev_send_fail p msg) u = list_ex (send_on p) (u_pending u)"

text \<open>
  A completed receive has the datagram in its buffer and the sender in \<^verbatim>\<open>remote_endpoint_\<close> when
  its handler runs.
\<close>

fun run_event :: "handler \<Rightarrow> handler \<Rightarrow> udp \<Rightarrow> event \<Rightarrow> ((exn + unit) \<times> udp) option" where
  "run_event rh sh u (Ev_recv p ep bs) = do {
     h \<leftarrow> store_buffer (u_heap u) p bs;
     rh ((take_pending p u)\<lparr>u_heap := h, u_remote := ep\<rparr>) p None (of_nat (length bs))
   }"
| "run_event rh sh u (Ev_recv_fail p msg) = rh (take_pending p u) p (Some msg) 0"
| "run_event rh sh u (Ev_send_done p) =
     sh (take_pending p u) p None (send_length p (u_pending u))"
| "run_event rh sh u (Ev_send_fail p msg) = sh (take_pending p u) p (Some msg) 0"

text \<open>
  What happens to an endpoint: an event completes, or the application allocates a chunk,
  fills it and passes it to \<^verbatim>\<open>async_send\<close>, as \<^verbatim>\<open>client/main.cpp\<close> does. An exception leaves the
  loop (\<^verbatim>\<open>io_context.run()\<close> does not catch it), so a run ends there.
\<close>

datatype action = Event event | App_send "u8 list"

fun action_ok :: "mempool \<Rightarrow> action \<Rightarrow> udp \<Rightarrow> bool" where
  "action_ok mp (Event ev) u = event_ok ev u"
| "action_ok mp (App_send bs) u = (length bs \<le> unat (mp_chunk_sz mp))"

type_synonym sender = "udp \<Rightarrow> ptr \<Rightarrow> size_t \<Rightarrow> udp"

fun run_action :: "mempool \<Rightarrow> handler \<Rightarrow> handler \<Rightarrow> sender \<Rightarrow> udp \<Rightarrow> action \<Rightarrow> ((exn + unit) \<times> udp) option" where
  "run_action mp rh sh asend u (Event ev) = run_event rh sh u ev"
| "run_action mp rh sh asend u (App_send bs) = do {
     (r, h) \<leftarrow> mempool_alloc (u_heap u) mp;
     case r of
       Inl x \<Rightarrow> Some (Inl x, u\<lparr>u_heap := h\<rparr>)
     | Inr p \<Rightarrow> do {
         h \<leftarrow> store_buffer h p bs;
         Some (Inr (), asend (u\<lparr>u_heap := h\<rparr>) p (of_nat (length bs)))
       }
   }"

inductive udp_run :: "mempool \<Rightarrow> handler \<Rightarrow> handler \<Rightarrow> sender \<Rightarrow> udp \<Rightarrow> action list \<Rightarrow> udp \<Rightarrow> bool"
  for mp rh sh asend where
  udp_nil: "udp_run mp rh sh asend u [] u"
| udp_step: "udp_run mp rh sh asend u acts u' \<Longrightarrow> action_ok mp a u' \<Longrightarrow>
    run_action mp rh sh asend u' a = Some (Inr (), u'') \<Longrightarrow> udp_run mp rh sh asend u (acts @ [a]) u''"

subsection \<open>Accounting\<close>

fun failure :: "action \<Rightarrow> bool" where
  "failure (Event (Ev_recv_fail p msg)) = True"
| "failure (Event (Ev_send_fail p msg)) = True"
| "failure a = False"

fun recv_failure :: "action \<Rightarrow> bool" where
  "recv_failure (Event (Ev_recv_fail p msg)) = True"
| "recv_failure a = False"

text \<open>The chunks whose operation an action completes, and the ones nobody will free afterwards.\<close>

fun completed :: "action \<Rightarrow> ptr set" where
  "completed (Event (Ev_recv p ep bs)) = {p}"
| "completed (Event (Ev_recv_fail p msg)) = {p}"
| "completed (Event (Ev_send_done p)) = {p}"
| "completed (Event (Ev_send_fail p msg)) = {p}"
| "completed (App_send bs) = {}"

definition lost :: "action \<Rightarrow> ptr set" where
  "lost a = (if failure a then completed a else {})"

definition armed :: "udp \<Rightarrow> nat" where
  "armed u = length (filter is_recv (u_pending u))"

definition pending_chunks :: "udp \<Rightarrow> ptr set" where
  "pending_chunks u = chunk_of ` set (u_pending u)"

text \<open>What one action does to the outstanding operations and to the data of the others.\<close>

definition kept :: "mempool \<Rightarrow> action \<Rightarrow> udp \<Rightarrow> udp \<Rightarrow> bool" where
  "kept mp a u u' \<longleftrightarrow>
     take (length (filter (\<lambda>op. chunk_of op \<notin> completed a) (u_pending u))) (u_pending u')
       = filter (\<lambda>op. chunk_of op \<notin> completed a) (u_pending u)
   \<and> same_data (unat (mp_chunk_sz mp)) (pending_chunks u - completed a) (u_heap u) (u_heap u')"

definition same_members :: "udp \<Rightarrow> udp \<Rightarrow> bool" where
  "same_members u u' \<longleftrightarrow> u_chunk_size u' = u_chunk_size u \<and> u_remote u' = u_remote u"

text \<open>
  \<open>udp_rep h0 mp L u\<close>: the chunks in use are the ones of the outstanding operations and the
  lost chunks \<open>L\<close>, which no operation will free.
\<close>

definition udp_rep :: "heap \<Rightarrow> mempool \<Rightarrow> ptr set \<Rightarrow> udp \<Rightarrow> bool" where
  "udp_rep h0 mp L u \<longleftrightarrow>
     (\<exists>n. mempool_rep h0 mp (u_heap u) n (pending_chunks u \<union> L))
   \<and> distinct (map chunk_of (u_pending u)) \<and> pending_chunks u \<inter> L = {}
   \<and> list_all (\<lambda>op. buffer_size op \<le> unat (mp_chunk_sz mp)) (u_pending u)
   \<and> unat (u_chunk_size u) \<le> unat (mp_chunk_sz mp)"

section \<open>The console\<close>

lemma u_put_simps [simp]:
  "u_heap (u_put s u) = u_heap u" "u_pending (u_put s u) = u_pending u"
  "u_chunk_size (u_put s u) = u_chunk_size u" "u_remote (u_put s u) = u_remote u"
  "u_cout (u_put s u) = put s (u_cout u)" "u_cerr (u_put s u) = u_cerr u"
  by (simp_all add: u_put_def)

lemma u_put_u_put: "u_put s (u_put t u) = u_put (t @ s) u"
  by (simp add: u_put_def put_def)

lemma show_num_put [simp]: "show_num (put s c) n = show_num c n"
  by (simp add: show_num_def put_def)

lemma print_bytes_ok:
  assumes "\<And>j. j < n \<Longrightarrow> load_char (u_heap u) (chunk + of_nat j) = Some (bs ! j)"
    and "length bs = n" "n < 2 ^ 31" "i \<le> n"
  shows "print_bytes u chunk i n
    = Some (u\<lparr>u_cout := fold put_hex_byte (drop i bs) (u_cout u)\<rparr>)"
  using assms
proof (induction "n - i" arbitrary: i u)
  case 0
  then have "drop i bs = []" "i = n" by simp_all
  then show ?case by (subst print_bytes.simps) simp
next
  case (Suc k)
  then have i: "i < n" "drop i bs = bs ! i # drop (Suc i) bs" by (simp_all add: Cons_nth_drop_Suc)
  let ?u = "u\<lparr>u_cout := put_hex_byte (bs ! i) (u_cout u)\<rparr>"
  have "print_bytes ?u chunk (Suc i) n = Some (?u\<lparr>u_cout := fold put_hex_byte (drop (Suc i) bs) (u_cout ?u)\<rparr>)"
    using Suc.prems i Suc.hyps(2) by (intro Suc.hyps(1)) auto
  with i Suc.prems show ?case by (subst print_bytes.simps) simp
qed

lemma fold_put_hex:
  "fold put_hex_byte bs c = c\<lparr>c_out := c_out c @ concat (map hex_line bs), c_hex := c_hex c \<or> bs \<noteq> []\<rparr>"
  by (induction bs arbitrary: c) (simp_all add: put_hex_byte_def put_def)

text \<open>The bytes of a held chunk are printed without leaving the chunk.\<close>

lemma print_held:
  assumes "mempool_rep h0 mp (u_heap u) n U" "p \<in> U" "k \<le> unat (mp_chunk_sz mp)" "k < 2 ^ 31"
  shows "print_bytes u p 0 k
    = Some (u\<lparr>u_cout := fold put_hex_byte (map (\<lambda>i. bytes (u_heap u) (p + of_nat i)) [0..<k]) (u_cout u)\<rparr>)"
proof -
  have "load_char (u_heap u) (p + of_nat j) = Some (map (\<lambda>i. bytes (u_heap u) (p + of_nat i)) [0..<k] ! j)"
    if "j < k" for j
    using that mempool.read_held[OF assms(1,2), of j] assms(3) by (simp add: load_char_def)
  from print_bytes_ok[OF this, where i = 0] assms(4) show ?thesis by simp
qed

section \<open>The interface of an endpoint\<close>

locale udp_endpoint =
  fixes mp :: mempool and rh sh :: handler and asend :: sender
  assumes rh_ok: "mempool_rep h0 mp (u_heap u) n U \<Longrightarrow> p \<in> U \<Longrightarrow> unat k \<le> unat (mp_chunk_sz mp) \<Longrightarrow>
      unat k < 2 ^ 31 \<Longrightarrow> \<exists>q u'. rh u p None k = Some (Inr (), u') \<and> q \<notin> U - {p}
      \<and> mempool_rep h0 mp (u_heap u') n (insert q (U - {p})) \<and> same_members u u'
      \<and> u_pending u' = u_pending u @ [Recv q (u_chunk_size u)]
      \<and> same_data (unat (mp_chunk_sz mp)) (U - {p}) (u_heap u) (u_heap u')"
    and rh_err: "\<exists>u'. rh u p (Some msg) k = Some (Inr (), u') \<and> u_heap u' = u_heap u
      \<and> u_pending u' = u_pending u \<and> same_members u u'"
    and sh_ok: "mempool_rep h0 mp (u_heap u) n U \<Longrightarrow> p \<in> U \<Longrightarrow>
      \<exists>u'. sh u p None k = Some (Inr (), u') \<and> u_pending u' = u_pending u \<and> same_members u u'
      \<and> mempool_rep h0 mp (u_heap u') (Suc n) (U - {p})
      \<and> same_data (unat (mp_chunk_sz mp)) (U - {p}) (u_heap u) (u_heap u')"
    and sh_err: "\<exists>u'. sh u p (Some msg) k = Some (Inr (), u') \<and> u_heap u' = u_heap u
      \<and> u_pending u' = u_pending u \<and> same_members u u'"
    and asend: "asend u p k = u\<lparr>u_pending := u_pending u @ [Send p k (u_remote u)]\<rparr>"

section \<open>Outstanding operations\<close>

lemma take_pending_simps [simp]:
  "u_heap (take_pending p u) = u_heap u" "u_chunk_size (take_pending p u) = u_chunk_size u"
  "u_remote (take_pending p u) = u_remote u"
  "u_pending (take_pending p u) = filter (\<lambda>op. chunk_of op \<noteq> p) (u_pending u)"
  by (simp_all add: take_pending_def)

lemma take_pending_chunks:
  "chunk_of ` set (filter (\<lambda>op. chunk_of op \<noteq> p) ops) = chunk_of ` set ops - {p}"
  by auto

lemma distinct_filter_map: "distinct (map f xs) \<Longrightarrow> distinct (map f (filter P xs))"
  by (induction xs) auto

lemma recv_on_iff: "recv_on p k op \<longleftrightarrow> (\<exists>n. op = Recv p n \<and> k \<le> unat n)"
  by (cases op) auto

lemma send_on_iff: "send_on p op \<longleftrightarrow> (\<exists>n ep. op = Send p n ep)"
  by (cases op) auto

lemma event_ok_pending:
  "event_ok (Ev_recv p ep bs) u \<Longrightarrow> \<exists>n. Recv p n \<in> set (u_pending u) \<and> length bs \<le> unat n"
  "event_ok (Ev_recv_fail p msg) u \<Longrightarrow> \<exists>n. Recv p n \<in> set (u_pending u)"
  "event_ok (Ev_send_done p) u \<Longrightarrow> \<exists>n ep. Send p n ep \<in> set (u_pending u)"
  "event_ok (Ev_send_fail p msg) u \<Longrightarrow> \<exists>n ep. Send p n ep \<in> set (u_pending u)"
  unfolding event_ok.simps list_ex_iff recv_on_iff send_on_iff by blast+

lemma pending_chunkI:
  "Recv p n \<in> set (u_pending u) \<Longrightarrow> p \<in> pending_chunks u"
  "Send p n ep \<in> set (u_pending u) \<Longrightarrow> p \<in> pending_chunks u"
  unfolding pending_chunks_def by (force intro: rev_image_eqI)+

lemma udp_repE:
  assumes "udp_rep h0 mp L u"
  obtains n where "mempool_rep h0 mp (u_heap u) n (pending_chunks u \<union> L)"
    "distinct (map chunk_of (u_pending u))" "pending_chunks u \<inter> L = {}"
    "list_all (\<lambda>op. buffer_size op \<le> unat (mp_chunk_sz mp)) (u_pending u)"
    "unat (u_chunk_size u) \<le> unat (mp_chunk_sz mp)"
  using assms unfolding udp_rep_def by blast

text \<open>An operation has completed and its chunk is freed, lost, or replaced by that of a new operation.\<close>

lemma udp_rep_completed:
  assumes rep: "udp_rep h0 mp L u" and p: "p \<in> pending_chunks u"
    and ops: "u_pending u' = filter (\<lambda>op. chunk_of op \<noteq> p) (u_pending u) @ new"
    and sz: "u_chunk_size u' = u_chunk_size u"
    and mem: "mempool_rep h0 mp (u_heap u') n (chunk_of ` set new \<union> (pending_chunks u \<union> L - {p}) \<union> L')"
    and new: "distinct (map chunk_of new)" "chunk_of ` set new \<inter> (pending_chunks u \<union> L - {p}) = {}"
      "list_all (\<lambda>op. buffer_size op \<le> unat (mp_chunk_sz mp)) new"
    and L': "L' \<subseteq> {p}" "L' = {} \<or> new = []"
  shows "udp_rep h0 mp (L \<union> L') u'"
  using rep
proof (rule udp_repE)
  fix k
  assume k: "distinct (map chunk_of (u_pending u))" "pending_chunks u \<inter> L = {}"
    "list_all (\<lambda>op. buffer_size op \<le> unat (mp_chunk_sz mp)) (u_pending u)"
    "unat (u_chunk_size u) \<le> unat (mp_chunk_sz mp)"
  have pc: "pending_chunks u' = (pending_chunks u - {p}) \<union> chunk_of ` set new"
    unfolding pending_chunks_def ops set_append image_Un take_pending_chunks ..
  have pL: "p \<notin> L" using p k(2) by blast
  then have "chunk_of ` set new \<union> (pending_chunks u \<union> L - {p}) \<union> L' = pending_chunks u' \<union> (L \<union> L')"
    unfolding pc by blast
  moreover have "distinct (map chunk_of (u_pending u'))"
    unfolding ops map_append distinct_append set_map take_pending_chunks
    using k(1) new(1,2) by (auto simp: distinct_filter_map pending_chunks_def)
  moreover have "pending_chunks u' \<inter> (L \<union> L') = {}"
    unfolding pc using k(2) new(2) L' pL by auto
  moreover have "list_all (\<lambda>op. buffer_size op \<le> unat (mp_chunk_sz mp)) (u_pending u')"
    using k(3) new(3) unfolding ops by (auto simp: list_all_iff)
  ultimately show ?thesis using mem k(4) unfolding udp_rep_def sz by metis
qed

lemma udp_run_one:
  "action_ok mp a u \<Longrightarrow> run_action mp rh sh asend u a = Some (Inr (), u') \<Longrightarrow>
   udp_run mp rh sh asend u [a] u'"
  using udp_step[OF udp_nil] by fastforce

lemma filter_chunk_remove1:
  assumes "distinct (map chunk_of ops)" "op \<in> set ops"
  shows "filter (\<lambda>x. chunk_of x \<noteq> chunk_of op) ops = remove1 op ops"
  using assms
proof (induction ops)
  case (Cons x ops)
  show ?case
  proof (cases "x = op")
    case True
    have "chunk_of y \<noteq> chunk_of op" if "y \<in> set ops" for y
      using that Cons.prems(1) True by (auto simp: image_iff)
    then show ?thesis using True by (auto simp: filter_id_conv)
  next
    case False
    with Cons.prems have "op \<in> set ops" "chunk_of x \<noteq> chunk_of op" by (auto simp: image_iff)
    with Cons False show ?thesis by simp
  qed
qed simp

lemma armed_completed:
  assumes "distinct (map chunk_of ops)" "op \<in> set ops"
  shows "length (filter is_recv ops)
    = length (filter is_recv (filter (\<lambda>x. chunk_of x \<noteq> chunk_of op) ops)) + (if is_recv op then 1 else 0)"
proof -
  have "length (filter is_recv ops) = length (filter is_recv (remove1 op ops)) + (if is_recv op then 1 else 0)"
    using assms(2) by (induction ops) auto
  then show ?thesis using filter_chunk_remove1[OF assms] by simp
qed

lemma udp_rep_distinct: "udp_rep h0 mp L u \<Longrightarrow> distinct (map chunk_of (u_pending u))"
  by (simp add: udp_rep_def)

lemma same_data_mono: "same_data cap U h h' \<Longrightarrow> W \<subseteq> U \<Longrightarrow> same_data cap W h h'"
  by (auto simp: same_data_def)

lemma same_data_refl [simp]: "same_data cap U h h"
  by (simp add: same_data_def)

section \<open>What an endpoint does with its chunks\<close>

context udp_endpoint
begin

lemma recv_event:
  assumes rep: "udp_rep h0 mp L u" and ok: "event_ok (Ev_recv p ep bs) u"
  shows "\<exists>u'. run_event rh sh u (Ev_recv p ep bs) = Some (Inr (), u') \<and> udp_rep h0 mp L u'
    \<and> armed u' = armed u \<and> u_remote u' = ep \<and> length (u_pending u') = length (u_pending u)
    \<and> kept mp (Event (Ev_recv p ep bs)) u u'"
  using rep
proof (rule udp_repE)
  let ?U = "pending_chunks u \<union> L" and ?cap = "unat (mp_chunk_sz mp)"
  fix n assume mem: "mempool_rep h0 mp (u_heap u) n ?U" and dist: "distinct (map chunk_of (u_pending u))"
    and bnd: "list_all (\<lambda>op. buffer_size op \<le> ?cap) (u_pending u)" and sz: "unat (u_chunk_size u) \<le> ?cap"
  obtain k where k: "Recv p k \<in> set (u_pending u)" "length bs \<le> unat k" using event_ok_pending(1)[OF ok] by blast
  then have p: "p \<in> pending_chunks u" and len: "length bs \<le> ?cap"
    using bnd by (auto simp: pending_chunkI list_all_iff dest: bspec)
  obtain h where h: "store_buffer (u_heap u) p bs = Some h" "mempool_rep h0 mp h n ?U"
    "same_data ?cap (?U - {p}) (u_heap u) h"
    using mempool.write_held[OF mem _ len] p by blast
  let ?u = "(take_pending p u)\<lparr>u_heap := h, u_remote := ep\<rparr>"
  have small: "length bs \<le> 65507" using ok by simp
  then have un: "unat (of_nat (length bs) :: size_t) = length bs" by (simp add: unat_of_nat)
  obtain q u' where q: "rh ?u p None (of_nat (length bs)) = Some (Inr (), u')" "q \<notin> ?U - {p}"
    "mempool_rep h0 mp (u_heap u') n (insert q (?U - {p}))" "same_members ?u u'"
    "u_pending u' = u_pending ?u @ [Recv q (u_chunk_size u)]" "same_data ?cap (?U - {p}) h (u_heap u')"
    using rh_ok[of h0 ?u n ?U p "of_nat (length bs)"] h(2) p len small un by auto
  have "udp_rep h0 mp (L \<union> {}) u'"
    by (rule udp_rep_completed[OF rep p, of u' "[Recv q (u_chunk_size u)]" n])
       (use q sz in \<open>simp_all add: same_members_def\<close>)
  moreover have "armed u' = armed u"
    using armed_completed[OF dist k(1)] q(5) by (simp add: armed_def)
  moreover have "length (u_pending u') = length (u_pending u)"
    using filter_chunk_remove1[OF dist k(1)] q(5) k(1) length_pos_if_in_set[OF k(1)]
    by (simp add: length_remove1)
  moreover have "kept mp (Event (Ev_recv p ep bs)) u u'"
    using mempool.same_data_trans[OF h(3) q(6)] q(5) by (auto simp: kept_def intro: same_data_mono)
  ultimately show ?thesis using h(1) q(1,4) by (simp add: same_members_def)
qed

lemma recv_fail_event:
  assumes rep: "udp_rep h0 mp L u" and ok: "event_ok (Ev_recv_fail p msg) u"
  shows "\<exists>u'. run_event rh sh u (Ev_recv_fail p msg) = Some (Inr (), u') \<and> udp_rep h0 mp (L \<union> {p}) u'
    \<and> armed u = Suc (armed u') \<and> u_remote u' = u_remote u \<and> p \<notin> L \<and> kept mp (Event (Ev_recv_fail p msg)) u u'"
  using rep
proof (rule udp_repE)
  let ?U = "pending_chunks u \<union> L"
  fix n assume mem: "mempool_rep h0 mp (u_heap u) n ?U" and dist: "distinct (map chunk_of (u_pending u))"
    and disj: "pending_chunks u \<inter> L = {}"
  obtain k where k: "Recv p k \<in> set (u_pending u)" using event_ok_pending(2)[OF ok] by blast
  then have p: "p \<in> pending_chunks u" by (rule pending_chunkI)
  obtain u' where u': "rh (take_pending p u) p (Some msg) 0 = Some (Inr (), u')" "u_heap u' = u_heap u"
    "u_pending u' = u_pending (take_pending p u)" "same_members (take_pending p u) u'"
    using rh_err[of "take_pending p u" p msg 0] by auto
  have "udp_rep h0 mp (L \<union> {p}) u'"
    by (rule udp_rep_completed[OF rep p, of u' "[]" n "{p}"])
       (use u' mem p in \<open>simp_all add: same_members_def insert_absorb\<close>)
  moreover have "armed u = Suc (armed u')"
    using armed_completed[OF dist k] u'(3) by (simp add: armed_def)
  ultimately show ?thesis using u' p disj by (auto simp: kept_def same_members_def)
qed

lemma send_done_event:
  assumes rep: "udp_rep h0 mp L u" and ok: "event_ok (Ev_send_done p) u"
  shows "\<exists>u'. run_event rh sh u (Ev_send_done p) = Some (Inr (), u') \<and> udp_rep h0 mp L u'
    \<and> armed u' = armed u \<and> u_remote u' = u_remote u \<and> kept mp (Event (Ev_send_done p)) u u'"
  using rep
proof (rule udp_repE)
  let ?U = "pending_chunks u \<union> L" and ?cap = "unat (mp_chunk_sz mp)"
  fix n assume mem: "mempool_rep h0 mp (u_heap u) n ?U" and dist: "distinct (map chunk_of (u_pending u))"
  obtain k ep where k: "Send p k ep \<in> set (u_pending u)" using event_ok_pending(3)[OF ok] by blast
  then have p: "p \<in> pending_chunks u" by (rule pending_chunkI)
  obtain u' where u': "sh (take_pending p u) p None (send_length p (u_pending u)) = Some (Inr (), u')"
    "u_pending u' = u_pending (take_pending p u)" "same_members (take_pending p u) u'"
    "mempool_rep h0 mp (u_heap u') (Suc n) (?U - {p})" "same_data ?cap (?U - {p}) (u_heap u) (u_heap u')"
    using sh_ok[of h0 "take_pending p u" n ?U p "send_length p (u_pending u)"] mem p by auto
  have "udp_rep h0 mp (L \<union> {}) u'"
    by (rule udp_rep_completed[OF rep p, of u' "[]" "Suc n"]) (use u' in \<open>simp_all add: same_members_def\<close>)
  moreover have "armed u' = armed u"
    using armed_completed[OF dist k] u'(2) by (simp add: armed_def)
  moreover have "kept mp (Event (Ev_send_done p)) u u'"
    using u'(2,5) by (auto simp: kept_def intro: same_data_mono)
  ultimately show ?thesis using u' by (simp add: same_members_def)
qed

lemma send_fail_event:
  assumes rep: "udp_rep h0 mp L u" and ok: "event_ok (Ev_send_fail p msg) u"
  shows "\<exists>u'. run_event rh sh u (Ev_send_fail p msg) = Some (Inr (), u') \<and> udp_rep h0 mp (L \<union> {p}) u'
    \<and> armed u' = armed u \<and> u_remote u' = u_remote u \<and> p \<notin> L \<and> kept mp (Event (Ev_send_fail p msg)) u u'"
  using rep
proof (rule udp_repE)
  let ?U = "pending_chunks u \<union> L"
  fix n assume mem: "mempool_rep h0 mp (u_heap u) n ?U" and dist: "distinct (map chunk_of (u_pending u))"
    and disj: "pending_chunks u \<inter> L = {}"
  obtain k ep where k: "Send p k ep \<in> set (u_pending u)" using event_ok_pending(4)[OF ok] by blast
  then have p: "p \<in> pending_chunks u" by (rule pending_chunkI)
  obtain u' where u': "sh (take_pending p u) p (Some msg) 0 = Some (Inr (), u')" "u_heap u' = u_heap u"
    "u_pending u' = u_pending (take_pending p u)" "same_members (take_pending p u) u'"
    using sh_err[of "take_pending p u" p msg 0] by auto
  have "udp_rep h0 mp (L \<union> {p}) u'"
    by (rule udp_rep_completed[OF rep p, of u' "[]" n "{p}"])
       (use u' mem p in \<open>simp_all add: same_members_def insert_absorb\<close>)
  moreover have "armed u' = armed u"
    using armed_completed[OF dist k] u'(3) by (simp add: armed_def)
  ultimately show ?thesis using u' p disj by (auto simp: kept_def same_members_def)
qed

lemma app_send:
  assumes rep: "udp_rep h0 mp L u" and len: "length bs \<le> unat (mp_chunk_sz mp)"
  shows "(\<exists>x. run_action mp rh sh asend u (App_send bs) = Some (Inl x, u)
      \<and> mempool_rep h0 mp (u_heap u) 0 (pending_chunks u \<union> L))
    \<or> (\<exists>p u'. run_action mp rh sh asend u (App_send bs) = Some (Inr (), u') \<and> udp_rep h0 mp L u'
      \<and> u_pending u' = u_pending u @ [Send p (of_nat (length bs)) (u_remote u)] \<and> u_remote u' = u_remote u
      \<and> same_data (unat (mp_chunk_sz mp)) (pending_chunks u) (u_heap u) (u_heap u')
      \<and> (\<forall>i < length bs. bytes (u_heap u') (p + of_nat i) = bs ! i))"
  using rep
proof (rule udp_repE)
  let ?U = "pending_chunks u \<union> L" and ?cap = "unat (mp_chunk_sz mp)"
  fix n assume mem: "mempool_rep h0 mp (u_heap u) n ?U" and dist: "distinct (map chunk_of (u_pending u))"
    and disj: "pending_chunks u \<inter> L = {}"
    and bnd: "list_all (\<lambda>op. buffer_size op \<le> ?cap) (u_pending u)" and sz: "unat (u_chunk_size u) \<le> ?cap"
  show ?thesis
  proof (cases n)
    case 0
    then show ?thesis using mem mempool.alloc_none[of h0 mp "u_heap u" ?U] by auto
  next
    case (Suc m)
    then obtain p h where p: "mempool_alloc (u_heap u) mp = Some (Inr p, h)" "p \<notin> ?U"
      "mempool_rep h0 mp h m (insert p ?U)" "same_data ?cap ?U (u_heap u) h"
      using mem mempool.alloc_some by blast
    obtain h' where h': "store_buffer h p bs = Some h'" "mempool_rep h0 mp h' m (insert p ?U)"
      "same_data ?cap (insert p ?U - {p}) h h'" "\<And>i. i < length bs \<Longrightarrow> load_char h' (p + of_nat i) = Some (bs ! i)"
      using mempool.read_back[OF p(3) _ len] by blast
    let ?k = "of_nat (length bs) :: size_t"
    let ?u = "u\<lparr>u_heap := h', u_pending := u_pending u @ [Send p ?k (u_remote u)]\<rparr>"
    have "?cap < 2 ^ LENGTH(64)" by (rule unsigned_less)
    then have un: "unat ?k \<le> ?cap" using len by (simp add: unat_of_nat)
    have chunks: "pending_chunks ?u \<union> L = insert p ?U" by (auto simp: pending_chunks_def)
    have "udp_rep h0 mp L ?u"
      unfolding udp_rep_def chunks using h'(2) dist disj bnd sz p(2) un
      by (auto simp: pending_chunks_def)
    moreover have "same_data ?cap (pending_chunks u) (u_heap u) h'"
      using p(2,4) h'(3) by (auto simp: same_data_def)
    moreover have "bytes h' (p + of_nat i) = bs ! i" if "i < length bs" for i
      using h'(4)[OF that] by (simp add: load_char_def split: if_splits)
    ultimately show ?thesis using p(1) h'(1) by (simp add: asend)
  qed
qed

lemma action_step:
  assumes rep: "udp_rep h0 mp L u" and ok: "action_ok mp a u"
  shows "\<exists>r u'. run_action mp rh sh asend u a = Some (r, u') \<and> udp_rep h0 mp (L \<union> lost a) u'
    \<and> lost a \<inter> L = {} \<and> armed u = armed u' + (if recv_failure a then 1 else 0) \<and> kept mp a u u'
    \<and> (r \<noteq> Inr () \<longrightarrow> (\<exists>bs. a = App_send bs) \<and> u' = u \<and> mempool_rep h0 mp (u_heap u) 0 (pending_chunks u \<union> L))"
proof (cases a)
  case (App_send bs)
  then have len: "length bs \<le> unat (mp_chunk_sz mp)" using ok by simp
  show ?thesis using app_send[OF rep len]
  proof (elim disjE exE conjE)
    fix x assume "run_action mp rh sh asend u (App_send bs) = Some (Inl x, u)"
      "mempool_rep h0 mp (u_heap u) 0 (pending_chunks u \<union> L)"
    then show ?thesis using App_send rep by (simp add: lost_def kept_def)
  next
    fix p u'
    assume "run_action mp rh sh asend u (App_send bs) = Some (Inr (), u')" "udp_rep h0 mp L u'"
      "u_pending u' = u_pending u @ [Send p (of_nat (length bs)) (u_remote u)]"
      "same_data (unat (mp_chunk_sz mp)) (pending_chunks u) (u_heap u) (u_heap u')"
    then show ?thesis using App_send by (simp add: lost_def kept_def armed_def)
  qed
next
  case (Event ev)
  show ?thesis
  proof (cases ev)
    case (Ev_recv p ep bs)
    then show ?thesis using recv_event[OF rep, of p ep bs] ok Event by (auto simp: lost_def)
  next
    case (Ev_recv_fail p msg)
    then show ?thesis using recv_fail_event[OF rep, of p msg] ok Event by (auto simp: lost_def)
  next
    case (Ev_send_done p)
    then show ?thesis using send_done_event[OF rep, of p] ok Event by (auto simp: lost_def)
  next
    case (Ev_send_fail p msg)
    then show ?thesis using send_fail_event[OF rep, of p msg] ok Event by (auto simp: lost_def)
  qed
qed

lemma run_rep:
  assumes "udp_run mp rh sh asend u acts u'" "udp_rep h0 mp L u" "finite L"
  shows "\<exists>L'. udp_rep h0 mp L' u' \<and> finite L' \<and> card L' = card L + length (filter failure acts)
    \<and> armed u = armed u' + length (filter recv_failure acts)"
  using assms
proof (induction rule: udp_run.induct)
  case (udp_step u acts u' a u'')
  then obtain L' where L': "udp_rep h0 mp L' u'" "finite L'" "card L' = card L + length (filter failure acts)"
    "armed u = armed u' + length (filter recv_failure acts)" by blast
  from action_step[OF L'(1) udp_step.hyps(2)] udp_step.hyps(3)
  have "udp_rep h0 mp (L' \<union> lost a) u''" "lost a \<inter> L' = {}" "armed u' = armed u'' + (if recv_failure a then 1 else 0)"
    by auto
  moreover have "finite (lost a)" "card (lost a) = (if failure a then 1 else 0)"
    by (cases a rule: failure.cases; simp add: lost_def)+
  ultimately show ?case using L' by (intro exI[of _ "L' \<union> lost a"]) (auto simp: card_Un_disjoint Int_commute)
qed auto

lemma rep_count:
  assumes "udp_rep h0 mp L u" "finite L"
  shows "\<exists>n. mempool_rep h0 mp (u_heap u) n (pending_chunks u \<union> L)
    \<and> n + length (u_pending u) + card L = unat (mp_pool_sz mp) + unat (mp_extra_sz mp)"
  using assms(1)
proof (rule udp_repE)
  fix n assume mem: "mempool_rep h0 mp (u_heap u) n (pending_chunks u \<union> L)"
    and dist: "distinct (map chunk_of (u_pending u))" and disj: "pending_chunks u \<inter> L = {}"
  have "card (pending_chunks u) = length (u_pending u)"
    using distinct_card[OF dist] by (simp add: pending_chunks_def)
  then have "card (pending_chunks u \<union> L) = length (u_pending u) + card L"
    using disj assms(2) by (simp add: card_Un_disjoint pending_chunks_def)
  with mem mempool_rep_count(2)[OF mem] show ?thesis by auto
qed

text \<open>An operation that is not completed keeps its buffer and the data in it.\<close>

lemma run_keeps:
  assumes "udp_run mp rh sh asend u acts u'" "udp_rep h0 mp L u" "finite L" "op \<in> set (u_pending u)"
    and "\<forall>a \<in> set acts. chunk_of op \<notin> completed a"
  shows "op \<in> set (u_pending u')
    \<and> same_data (unat (mp_chunk_sz mp)) {chunk_of op} (u_heap u) (u_heap u')"
  using assms
proof (induction rule: udp_run.induct)
  case (udp_step u acts u' a u'')
  then have IH: "op \<in> set (u_pending u')"
    "same_data (unat (mp_chunk_sz mp)) {chunk_of op} (u_heap u) (u_heap u')" by auto
  obtain L' where "udp_rep h0 mp L' u'" using run_rep[OF udp_step.hyps(1) udp_step.prems(1,2)] by blast
  from action_step[OF this udp_step.hyps(2)] udp_step.hyps(3) have k: "kept mp a u' u''" by auto
  have nc: "chunk_of op \<notin> completed a" using udp_step.prems(4) by simp
  let ?ops = "filter (\<lambda>op. chunk_of op \<notin> completed a) (u_pending u')"
  have "op \<in> set ?ops" using IH(1) nc by simp
  also have "?ops = take (length ?ops) (u_pending u'')" using k by (simp add: kept_def)
  finally have "op \<in> set (u_pending u'')" by (rule in_set_takeD)
  moreover have "chunk_of op \<in> pending_chunks u' - completed a"
    using IH(1) nc by (simp add: pending_chunks_def)
  then have "same_data (unat (mp_chunk_sz mp)) {chunk_of op} (u_heap u') (u_heap u'')"
    using k by (auto simp: kept_def same_data_def)
  ultimately show ?case using mempool.same_data_trans[OF IH(2)] by blast
qed simp

lemma run_summary:
  assumes "udp_run mp rh sh asend u acts u'" "udp_rep h0 mp {} u" "action_ok mp a u'"
  shows "\<exists>n r u''. unat (st_available (the (mempool_stats_of (u_heap u') mp))) = n
    \<and> mempool_stats_of (u_heap u') mp \<noteq> None
    \<and> n + length (u_pending u') + length (filter failure acts) = unat (mp_pool_sz mp) + unat (mp_extra_sz mp)
    \<and> armed u = armed u' + length (filter recv_failure acts)
    \<and> run_action mp rh sh asend u' a = Some (r, u'')
    \<and> (r \<noteq> Inr () \<longleftrightarrow> (\<exists>bs. a = App_send bs) \<and> n = 0)"
proof -
  obtain L' where L': "udp_rep h0 mp L' u'" "finite L'" "card L' = length (filter failure acts)"
    "armed u = armed u' + length (filter recv_failure acts)"
    using run_rep[OF assms(1,2)] by auto
  obtain n where n: "mempool_rep h0 mp (u_heap u') n (pending_chunks u' \<union> L')"
    "n + length (u_pending u') + card L' = unat (mp_pool_sz mp) + unat (mp_extra_sz mp)"
    using rep_count[OF L'(1,2)] by blast
  obtain r u'' where r: "run_action mp rh sh asend u' a = Some (r, u'')"
    "r \<noteq> Inr () \<longrightarrow> (\<exists>bs. a = App_send bs) \<and> mempool_rep h0 mp (u_heap u') 0 (pending_chunks u' \<union> L')"
    using action_step[OF L'(1) assms(3)] by blast
  have un: "unat (of_nat n :: size_t) = n" using mempool_rep_count(3)[OF n(1)] by (simp add: unat_of_nat)
  have zero: "n = 0" if "mempool_rep h0 mp (u_heap u') 0 (pending_chunks u' \<union> L')"
    using mempool_rep_count(2)[OF that] mempool_rep_count(2)[OF n(1)] by simp
  have "r \<noteq> Inr ()" if "a = App_send bs" "n = 0" for bs
    using that r(1) mempool_alloc_none n(1) by auto
  with r(2) zero have "r \<noteq> Inr () \<longleftrightarrow> (\<exists>bs. a = App_send bs) \<and> n = 0" by blast
  with mempool_stats_rep[OF n(1)] un n(2) L'(3,4) r(1) show ?thesis by simp
qed

end

end
