(* ===== verification/Udp_Server.thy ===== *)
theory Udp_Server
  imports Udp
begin

text \<open>
  The class \<^verbatim>\<open>Udp_server\<close> (\<^verbatim>\<open>server/network/udp_server.{hpp,cpp}\<close>): its constructor, the two
  asynchronous operations and the completion handlers (lambdas) they install. The handlers
  are interpreted as a \<open>udp_endpoint\<close>.
\<close>

section \<open>Definitions\<close>

definition server_async_receive :: "mempool \<Rightarrow> udp \<Rightarrow> ((exn + unit) \<times> udp) option" where
  "server_async_receive mp u = do {
     (r, h) \<leftarrow> mempool_alloc (u_heap u) mp;
     case r of
       Inl x \<Rightarrow> Some (Inl x, u\<lparr>u_heap := h\<rparr>)
     | Inr chunk \<Rightarrow> Some (Inr (), u\<lparr>u_heap := h, u_pending := u_pending u @ [Recv chunk (u_chunk_size u)]\<rparr>)
   }"

definition server_receive_handler :: "mempool \<Rightarrow> handler" where
  "server_receive_handler mp u chunk ec bytes_received =
     (case ec of
       None \<Rightarrow> do {
         let u = u_put ''\<newline>async_receive() complete\<newline>'' u;
         let u = u_put (''bytes_received: '' @ show_num (u_cout u) (unat bytes_received) @ ''\<newline>'') u;
         let u = u_put ''Receive buffer\<newline>'' u;
         u \<leftarrow> print_bytes u chunk 0 (unat bytes_received);
         h \<leftarrow> mempool_free (u_heap u) mp chunk;
         server_async_receive mp (u\<lparr>u_heap := h\<rparr>)
       }
     | Some msg \<Rightarrow> Some (Inr (), u\<lparr>u_cerr := u_cerr u @ ''Receive failed: '' @ msg @ ''\<newline>''\<rparr>))"

definition server_async_send :: sender where
  "server_async_send u chunk len =
     u\<lparr>u_pending := u_pending u @ [Send chunk len (u_remote u)]\<rparr>"

definition server_send_handler :: "mempool \<Rightarrow> handler" where
  "server_send_handler mp u chunk ec bytes_sent =
     (case ec of
       None \<Rightarrow> do {
         let u = u_put ''async_send() complete\<newline>'' u;
         h \<leftarrow> mempool_free (u_heap u) mp chunk;
         Some (Inr (), u\<lparr>u_heap := h\<rparr>)
       }
     | Some msg \<Rightarrow> Some (Inr (), u\<lparr>u_cerr := u_cerr u @ ''Send failed: '' @ msg @ ''\<newline>''\<rparr>))"

text \<open>
  The constructor. Opening and binding the socket is asio's: \<open>bound\<close> is the exception it
  throws or the local endpoint it reports.
\<close>

definition server_new :: "mempool \<Rightarrow> heap \<Rightarrow> console \<Rightarrow> exn + endpoint \<Rightarrow> (exn + udp) option" where
  "server_new mp h cout bound =
     (case bound of
       Inl x \<Rightarrow> Some (Inl x)
     | Inr local \<Rightarrow> do {
         st \<leftarrow> mempool_stats_of h mp;
         (r, u) \<leftarrow> server_async_receive mp \<lparr>u_heap = h, u_chunk_size = st_chunk_sz st, u_remote = local,
           u_pending = [], u_cout = cout, u_cerr = []\<rparr>;
         Some (case r of Inl x \<Rightarrow> Inl x | Inr _ \<Rightarrow> Inr u)
       })"

section \<open>The handlers as an endpoint\<close>

lemma server_receive_ok:
  assumes "mempool_rep h0 mp (u_heap u) n U" "p \<in> U" "unat k \<le> unat (mp_chunk_sz mp)" "unat k < 2 ^ 31"
  shows "\<exists>q u'. server_receive_handler mp u p None k = Some (Inr (), u') \<and> q \<notin> U - {p}
    \<and> mempool_rep h0 mp (u_heap u') n (insert q (U - {p})) \<and> same_members u u'
    \<and> u_pending u' = u_pending u @ [Recv q (u_chunk_size u)]
    \<and> same_data (unat (mp_chunk_sz mp)) (U - {p}) (u_heap u) (u_heap u')
    \<and> c_out (u_cout u') = c_out (u_cout u) @ ''\<newline>async_receive() complete\<newline>bytes_received: ''
        @ show_num (u_cout u) (unat k) @ ''\<newline>Receive buffer\<newline>''
        @ concat (map (\<lambda>i. hex_line (bytes (u_heap u) (p + of_nat i))) [0..<unat k])
    \<and> c_hex (u_cout u') = (c_hex (u_cout u) \<or> k \<noteq> 0)"
proof -
  obtain h' q h'' where h: "mempool_free (u_heap u) mp p = Some h'" "mempool_alloc h' mp = Some (Inr q, h'')"
    "q \<notin> U - {p}" "mempool_rep h0 mp h'' n (insert q (U - {p}))"
    "same_data (unat (mp_chunk_sz mp)) (U - {p}) (u_heap u) h''"
    using mempool.free_then_alloc[OF assms(1,2)] by blast
  have pr: "print_bytes (u_put s u) p 0 (unat k) = Some ((u_put s u)\<lparr>u_cout :=
      fold put_hex_byte (map (\<lambda>i. bytes (u_heap u) (p + of_nat i)) [0..<unat k]) (u_cout (u_put s u))\<rparr>)" for s
    using print_held[of h0 mp "u_put s u" n U p "unat k"] assms by simp
  show ?thesis
    by (intro exI[of _ q]) (simp add: server_receive_handler_def server_async_receive_def u_put_u_put pr h
        fold_put_hex comp_def same_members_def; use h(3) in \<open>auto simp: put_def unat_gt_0\<close>)
qed

interpretation server: udp_endpoint mp "server_receive_handler mp" "server_send_handler mp" server_async_send for mp
proof
  fix h0 n U p and u :: udp and k :: size_t
  assume "mempool_rep h0 mp (u_heap u) n U" "p \<in> U" "unat k \<le> unat (mp_chunk_sz mp)" "unat k < 2 ^ 31"
  from server_receive_ok[OF this]
  show "\<exists>q u'. server_receive_handler mp u p None k = Some (Inr (), u') \<and> q \<notin> U - {p}
      \<and> mempool_rep h0 mp (u_heap u') n (insert q (U - {p})) \<and> same_members u u'
      \<and> u_pending u' = u_pending u @ [Recv q (u_chunk_size u)]
      \<and> same_data (unat (mp_chunk_sz mp)) (U - {p}) (u_heap u) (u_heap u')" by blast
next
  fix h0 n U p and u :: udp and k :: size_t
  assume "mempool_rep h0 mp (u_heap u) n U" "p \<in> U"
  from mempool.free_held[OF this] show "\<exists>u'. server_send_handler mp u p None k = Some (Inr (), u')
      \<and> u_pending u' = u_pending u \<and> same_members u u'
      \<and> mempool_rep h0 mp (u_heap u') (Suc n) (U - {p})
      \<and> same_data (unat (mp_chunk_sz mp)) (U - {p}) (u_heap u) (u_heap u')"
    by (auto simp: server_send_handler_def same_members_def)
qed (simp_all add: server_receive_handler_def server_send_handler_def server_async_send_def same_members_def)

lemma server_new_rep:
  assumes "mempool_rep h0 mp h (Suc n) {}"
  shows "\<exists>u. server_new mp h cout (Inr local) = Some (Inr u) \<and> udp_rep h0 mp {} u \<and> armed u = 1
    \<and> u_remote u = local \<and> u_cout u = cout"
proof -
  obtain p h' where p: "mempool_alloc h mp = Some (Inr p, h')" "mempool_rep h0 mp h' n {p}"
    using mempool.alloc_some[OF assms] by blast
  then show ?thesis using mempool_stats_rep[OF assms]
    by (auto simp: server_new_def server_async_receive_def udp_rep_def pending_chunks_def armed_def)
qed

end
