(* ===== verification/Udp_Client.thy ===== *)
theory Udp_Client
  imports Udp
begin

text \<open>
  The class \<^verbatim>\<open>Udp_client\<close> (\<^verbatim>\<open>client/network/udp_client.{hpp,cpp}\<close>). Its constructor declares a
  local variable named like the member \<^verbatim>\<open>chunk_size_\<close>, so the member is never initialised and \<^verbatim>\<open>async_receive\<close> reads it
  uninitialised. The language leaves that undefined; what an implementation reads is a parameter of the model
  (\<open>uninit\<close>), where \<open>None\<close> is the undefined behaviour and \<open>Some\<close> a value it happens to give.
\<close>

section \<open>Definitions\<close>

definition client_async_receive :: "mempool \<Rightarrow> udp \<Rightarrow> ((exn + unit) \<times> udp) option" where
  "client_async_receive mp u = do {
     (r, h) \<leftarrow> mempool_alloc (u_heap u) mp;
     case r of
       Inl x \<Rightarrow> Some (Inl x, u\<lparr>u_heap := h\<rparr>)
     | Inr chunk \<Rightarrow> Some (Inr (), u\<lparr>u_heap := h, u_pending := u_pending u @ [Recv chunk (u_chunk_size u)]\<rparr>)
   }"

definition client_receive_handler :: "mempool \<Rightarrow> handler" where
  "client_receive_handler mp u chunk ec bytes_received =
     (case ec of
       None \<Rightarrow> do {
         let u = u_put ''async_receive() complete\<newline>'' u;
         let u = u_put ''Receive buffer\<newline>'' u;
         u \<leftarrow> print_bytes u chunk 0 (unat bytes_received);
         h \<leftarrow> mempool_free (u_heap u) mp chunk;
         client_async_receive mp (u\<lparr>u_heap := h\<rparr>)
       }
     | Some msg \<Rightarrow> Some (Inr (), u\<lparr>u_cerr := u_cerr u @ ''Receive failed: '' @ msg @ ''\<newline>''\<rparr>))"

definition client_async_send :: sender where
  "client_async_send u chunk len =
     u\<lparr>u_pending := u_pending u @ [Send chunk len (u_remote u)]\<rparr>"

definition client_send_handler :: "mempool \<Rightarrow> handler" where
  "client_send_handler mp u chunk ec bytes_sent =
     (case ec of
       None \<Rightarrow> do {
         let u = u_put (''\<newline>async_send() complete '' @ show_num (u_cout u) (unat bytes_sent)
           @ '' bytes sent\<newline>'') u;
         h \<leftarrow> mempool_free (u_heap u) mp chunk;
         Some (Inr (), u\<lparr>u_heap := h\<rparr>)
       }
     | Some msg \<Rightarrow> Some (Inr (), u\<lparr>u_cerr := u_cerr u @ ''\<newline>Send failed: '' @ msg @ ''\<newline>''\<rparr>))"

text \<open>
  The constructor. \<open>resolved\<close> is the exception the resolver throws or the endpoints it
  returns, of which the first is dereferenced; \<open>opened\<close> is the exception of opening the socket. The member is read
  once the allocation in \<^verbatim>\<open>async_receive\<close> has not thrown.
\<close>

definition client_new :: "mempool \<Rightarrow> heap \<Rightarrow> console \<Rightarrow> size_t option \<Rightarrow> exn + endpoint list \<Rightarrow> exn option \<Rightarrow>
    (exn + udp) option" where
  "client_new mp h cout uninit resolved opened = do {
     st \<leftarrow> mempool_stats_of h mp;
     case resolved of
       Inl x \<Rightarrow> Some (Inl x)
     | Inr [] \<Rightarrow> None
     | Inr (ep # _) \<Rightarrow>
         (case opened of
           Some x \<Rightarrow> Some (Inl x)
         | None \<Rightarrow> do {
             (r, u) \<leftarrow> client_async_receive mp \<lparr>u_heap = h, u_chunk_size = (case uninit of None \<Rightarrow> 0 | Some n \<Rightarrow> n),
               u_remote = ep, u_pending = [], u_cout = cout, u_cerr = []\<rparr>;
             case r of
               Inl x \<Rightarrow> Some (Inl x)
             | Inr _ \<Rightarrow> do { _ \<leftarrow> uninit; Some (Inr u) }
           })
   }"

definition get_remote_port :: "udp \<Rightarrow> u16" where
  "get_remote_port u = snd (u_remote u)"

section \<open>The handlers as an endpoint\<close>

lemma client_receive_ok:
  assumes "mempool_rep h0 mp (u_heap u) n U" "p \<in> U" "unat k \<le> unat (mp_chunk_sz mp)" "unat k < 2 ^ 31"
  shows "\<exists>q u'. client_receive_handler mp u p None k = Some (Inr (), u') \<and> q \<notin> U - {p}
    \<and> mempool_rep h0 mp (u_heap u') n (insert q (U - {p})) \<and> same_members u u'
    \<and> u_pending u' = u_pending u @ [Recv q (u_chunk_size u)]
    \<and> same_data (unat (mp_chunk_sz mp)) (U - {p}) (u_heap u) (u_heap u')
    \<and> c_out (u_cout u') = c_out (u_cout u) @ ''async_receive() complete\<newline>Receive buffer\<newline>''
        @ concat (map (\<lambda>i. hex_line (bytes (u_heap u) (p + of_nat i))) [0..<unat k])"
proof -
  obtain h' q h'' where h: "mempool_free (u_heap u) mp p = Some h'" "mempool_alloc h' mp = Some (Inr q, h'')"
    "q \<notin> U - {p}" "mempool_rep h0 mp h'' n (insert q (U - {p}))"
    "same_data (unat (mp_chunk_sz mp)) (U - {p}) (u_heap u) h''"
    using mempool.free_then_alloc[OF assms(1,2)] by blast
  have pr: "print_bytes (u_put s u) p 0 (unat k) = Some ((u_put s u)\<lparr>u_cout :=
      fold put_hex_byte (map (\<lambda>i. bytes (u_heap u) (p + of_nat i)) [0..<unat k]) (u_cout (u_put s u))\<rparr>)" for s
    using print_held[of h0 mp "u_put s u" n U p "unat k"] assms by simp
  show ?thesis
    by (intro exI[of _ q]) (simp add: client_receive_handler_def client_async_receive_def u_put_u_put pr h
        fold_put_hex comp_def same_members_def; use h(3) in \<open>auto simp: put_def\<close>)
qed

interpretation client: udp_endpoint mp "client_receive_handler mp" "client_send_handler mp" client_async_send for mp
proof
  fix h0 n U p and u :: udp and k :: size_t
  assume "mempool_rep h0 mp (u_heap u) n U" "p \<in> U" "unat k \<le> unat (mp_chunk_sz mp)" "unat k < 2 ^ 31"
  from client_receive_ok[OF this]
  show "\<exists>q u'. client_receive_handler mp u p None k = Some (Inr (), u') \<and> q \<notin> U - {p}
      \<and> mempool_rep h0 mp (u_heap u') n (insert q (U - {p})) \<and> same_members u u'
      \<and> u_pending u' = u_pending u @ [Recv q (u_chunk_size u)]
      \<and> same_data (unat (mp_chunk_sz mp)) (U - {p}) (u_heap u) (u_heap u')" by blast
next
  fix h0 n U p and u :: udp and k :: size_t
  assume "mempool_rep h0 mp (u_heap u) n U" "p \<in> U"
  from mempool.free_held[OF this] show "\<exists>u'. client_send_handler mp u p None k = Some (Inr (), u')
      \<and> u_pending u' = u_pending u \<and> same_members u u'
      \<and> mempool_rep h0 mp (u_heap u') (Suc n) (U - {p})
      \<and> same_data (unat (mp_chunk_sz mp)) (U - {p}) (u_heap u) (u_heap u')"
    by (auto simp: client_send_handler_def same_members_def)
qed (simp_all add: client_receive_handler_def client_send_handler_def client_async_send_def same_members_def)

lemma client_new_rep:
  assumes "mempool_rep h0 mp h (Suc n) {}" "unat garbage \<le> unat (mp_chunk_sz mp)"
  shows "\<exists>u. client_new mp h cout (Some garbage) (Inr (ep # eps)) None = Some (Inr u) \<and> udp_rep h0 mp {} u
    \<and> armed u = 1 \<and> u_remote u = ep \<and> u_cout u = cout"
proof -
  obtain p h' where p: "mempool_alloc h mp = Some (Inr p, h')" "mempool_rep h0 mp h' n {p}"
    using mempool.alloc_some[OF assms(1)] by blast
  then show ?thesis using mempool_stats_rep[OF assms(1)] assms(2)
    by (auto simp: client_new_def client_async_receive_def udp_rep_def pending_chunks_def armed_def)
qed

end
