(* ===== verification/Udp_Correct.thy ===== *)
theory Udp_Correct
  imports Udp_Server Udp_Client Mempool_Correct
begin

text \<open>
  What holds of the asynchronous UDP classes over any sequence of completions and sends:
  the accounting of chunks, that the receive operation is re-armed, that data waiting to be
  sent is not disturbed, what is printed; and the defects the model shows.
\<close>

section \<open>Definitions\<close>

definition demo_console :: console where
  "demo_console = \<lparr>c_out = [], c_hex = False\<rparr>"

text \<open>An endpoint on the three-chunk pool, listening with the first chunk.\<close>

definition demo_udp :: udp where
  "demo_udp = \<lparr>u_heap = demo_heap\<lparr>bytes := wr64 (bytes demo_heap) 16 80\<rparr>, u_chunk_size = 10,
     u_remote = (1, 9000), u_pending = [Recv 64 10], u_cout = demo_console, u_cerr = []\<rparr>"

text \<open>
  The line the dump should have for a byte, two hexadecimal digits, with \<open>ffffff\<close> before them for a byte that is negative as a
  \<^verbatim>\<open>char\<close>.
\<close>

definition dump_line :: "u8 \<Rightarrow> string" where
  "dump_line b = (if unat b < 0x80 then [] else ''ffffff'') @ [hex_digit (unat b div 16), hex_digit (unat b mod 16)] @ ''\<newline>''"

section \<open>Concrete endpoints\<close>

lemma demo_mempool_alloc:
  "mempool_alloc demo_heap demo_mp = Some (Inr 64, demo_heap\<lparr>bytes := wr64 (bytes demo_heap) 16 80\<rparr>)"
  by (simp add: mempool_alloc_def pool_alloc_def demo_mp_def demo_eval)

lemma demo_stats: "mempool_stats_of demo_heap demo_mp = Some \<lparr>st_chunk_sz = 10, st_pool_sz = 3, st_extra_sz = 0, st_available = 3\<rparr>"
  using mempool_stats_rep[OF demo_mp_rep] by (simp add: demo_mp_def)

lemma demo_server_new: "server_new demo_mp demo_heap demo_console (Inr (1, 9000)) = Some (Inr demo_udp)"
  by (simp add: server_new_def server_async_receive_def demo_stats demo_mempool_alloc demo_udp_def)

lemma demo_client_new: "client_new demo_mp demo_heap demo_console (Some 10) (Inr [(1, 9000)]) None = Some (Inr demo_udp)"
  by (simp add: client_new_def client_async_receive_def demo_stats demo_mempool_alloc demo_udp_def)

lemma demo_mp_rep_Suc: "mempool_rep empty_heap demo_mp demo_heap (Suc 2) {}"
  using demo_mp_rep by (simp add: numeral_3_eq_3 numeral_2_eq_2)

lemma demo_udp_rep: "udp_rep empty_heap demo_mp {} demo_udp" "armed demo_udp = 1"
  using server_new_rep[OF demo_mp_rep_Suc, of demo_console "(1, 9000)"] demo_server_new by auto

lemma demo_server_run:
  "\<exists>u'. udp_run demo_mp (server_receive_handler demo_mp) (server_send_handler demo_mp) server_async_send
     demo_udp [Event (Ev_recv_fail 64 ''x'')] u' \<and> action_ok demo_mp (App_send [7]) u'"
proof -
  have ok: "action_ok demo_mp (Event (Ev_recv_fail 64 ''x'')) demo_udp" by (simp add: demo_udp_def)
  obtain u' where "run_action demo_mp (server_receive_handler demo_mp) (server_send_handler demo_mp) server_async_send
      demo_udp (Event (Ev_recv_fail 64 ''x'')) = Some (Inr (), u')"
    by (simp add: server_receive_handler_def)
  from udp_run_one[OF ok this] show ?thesis by (auto simp: demo_mp_def)
qed

lemma demo_client_run:
  "\<exists>u'. udp_run demo_mp (client_receive_handler demo_mp) (client_send_handler demo_mp) client_async_send
     demo_udp [Event (Ev_recv_fail 64 ''x'')] u' \<and> action_ok demo_mp (App_send [7]) u'"
proof -
  have ok: "action_ok demo_mp (Event (Ev_recv_fail 64 ''x'')) demo_udp" by (simp add: demo_udp_def)
  obtain u' where "run_action demo_mp (client_receive_handler demo_mp) (client_send_handler demo_mp) client_async_send
      demo_udp (Event (Ev_recv_fail 64 ''x'')) = Some (Inr (), u')"
    by (simp add: client_receive_handler_def)
  from udp_run_one[OF ok this] show ?thesis by (auto simp: demo_mp_def)
qed

section \<open>The hexadecimal dump\<close>

lemma show_base_append: "b \<ge> 2 \<Longrightarrow> n \<ge> b \<Longrightarrow> show_base b n = show_base b (n div b) @ [hex_digit (n mod b)]"
  by (subst show_base.simps) simp

lemma uint_scast: "uint (scast b :: u32) = (if uint b < 128 then uint b else uint b + (2 ^ 32 - 256))" for b :: u8
proof -
  have r: "0 \<le> uint b" "uint b < 256" using uint_bounded[of b] by simp_all
  have s: "sint b = (if uint b < 128 then uint b else uint b - 256)"
  proof -
    have "take_bit 8 (uint b) = uint b" using r by (simp add: take_bit_int_eq_self)
    moreover have "uint b div 128 = (if uint b < 128 then 0 else 1)" using r by auto
    then have "bit (uint b) 7 \<longleftrightarrow> \<not> uint b < 128" by (simp add: bit_iff_odd)
    ultimately show ?thesis by (simp add: sint_uint signed_take_bit_eq_take_bit_minus)
  qed
  have m: "uint (scast b :: u32) = sint b mod 4294967296" unfolding scast_eq uint_word_of_int by simp
  show ?thesis
  proof (cases "uint b < 128")
    case True
    have "uint b mod 4294967296 = uint b" by (rule mod_pos_pos_trivial) (use r in linarith)+
    with True s show ?thesis unfolding m by simp
  next
    case False
    have "(uint b - 256) mod 4294967296 = (uint b - 256 + 4294967296) mod 4294967296"
      by (rule mod_add_self2[symmetric])
    also have "\<dots> = uint b - 256 + 4294967296" by (rule mod_pos_pos_trivial) (use r in linarith)+
    finally have "uint (scast b :: u32) = uint b - 256 + 4294967296" unfolding m s using False by simp
    with False show ?thesis by simp
  qed
qed

lemma unat_scast: "unat (scast b :: u32) = (if unat b < 128 then unat b else unat b + 4294967040)" for b :: u8
proof -
  have "nat (if x < 128 then x else x + (2 ^ 32 - 256)) = (if nat x < 128 then nat x else nat x + 4294967040)"
    if "0 \<le> x" for x :: int
    using that by (cases "x < 128") (simp_all add: nat_add_distrib)
  from this[of "uint b"] have "nat (uint (scast b :: u32)) = (if nat (uint b) < 128 then nat (uint b) else nat (uint b) + 4294967040)"
    unfolding uint_scast by simp
  then show ?thesis unfolding nat_uint_eq .
qed

lemma hex_line_dump: "hex_line b = dump_line b"
proof -
  have b: "unat b < 256" using unsigned_less[of b] by simp
  have two: "show_base 16 n = [hex_digit (n div 16), hex_digit (n mod 16)]" if "16 \<le> n" "n < 256" for n
    using that show_base_append[of 16 n] by (simp add: show_base.simps[of 16 "n div 16"] less_mult_imp_div_less)
  show ?thesis
  proof (cases "unat b < 128")
    case True
    then show ?thesis using two[of "unat b"]
      by (cases "unat b < 16") (simp_all add: hex_line_def dump_line_def Let_def unat_scast show_base.simps[of 16 "unat b"] hex_digit_def[of 0])
  next
    case False
    let ?n = "unat b + 4294967040"
    have lo: "unat b div 16 < 16" using b by (simp add: less_mult_imp_div_less)
    have d: "?n div 16 = unat b div 16 + 268435440" "?n mod 16 = unat b mod 16"
      using div_mult_self1[of 16 "unat b" 268435440] mod_mult_self1[of "unat b" 268435440 16] by simp_all
    have d': "(unat b div 16 + 268435440) div 16 = 16777215" "(unat b div 16 + 268435440) mod 16 = unat b div 16"
      using div_mult_self1[of 16 "unat b div 16" 16777215] mod_mult_self1[of "unat b div 16" 16777215 16] lo by simp_all
    have "show_base 16 ?n = show_base 16 16777215 @ [hex_digit (unat b div 16), hex_digit (unat b mod 16)]"
      using show_base_append[of 16 ?n] show_base_append[of 16 "unat b div 16 + 268435440"] unfolding d d' by simp
    moreover have "show_base 16 16777215 = ''ffffff''" by (simp add: show_base.simps hex_digit_def)
    ultimately show ?thesis using False by (simp add: hex_line_def dump_line_def Let_def unat_scast)
  qed
qed

lemma hex_line_eq: "hex_line = dump_line"
  by (rule ext) (rule hex_line_dump)

section \<open>The server\<close>

text \<open>C17. After the server's constructor, in every state it can reach: the next action never is
  undefined, and the chunks available, the operations outstanding and the operations that have
  failed so far add up to the size of the pool. Each failed operation has therefore lost its
  chunk for good. Only an application send can throw, and it throws exactly when no chunk is
  available.\<close>

theorem server_accounting:
  assumes "mempool_rep h0 mp h (Suc n) {}" "server_new mp h cout (Inr local) = Some (Inr u)"
    "udp_run mp (server_receive_handler mp) (server_send_handler mp) server_async_send u acts u'"
    "action_ok mp a u'"
  shows "\<exists>st r u''. mempool_stats_of (u_heap u') mp = Some st
    \<and> unat (st_available st) + length (u_pending u') + length (filter failure acts)
        = unat (mp_pool_sz mp) + unat (mp_extra_sz mp)
    \<and> run_action mp (server_receive_handler mp) (server_send_handler mp) server_async_send u' a = Some (r, u'')
    \<and> (r \<noteq> Inr () \<longleftrightarrow> (\<exists>bs. a = App_send bs) \<and> unat (st_available st) = 0)"
proof -
  have "udp_rep h0 mp {} u" using server_new_rep[OF assms(1), of cout "local"] assms(2) by auto
  from server.run_summary[OF assms(3) this assms(4)] show ?thesis by auto
qed

theorem server_accounting_witness:
  "\<exists>u' st. udp_run demo_mp (server_receive_handler demo_mp) (server_send_handler demo_mp) server_async_send
      demo_udp [Event (Ev_recv_fail 64 ''x'')] u'
    \<and> mempool_stats_of (u_heap u') demo_mp = Some st \<and> unat (st_available st) + length (u_pending u') + 1 = 3"
proof -
  obtain u' where u': "udp_run demo_mp (server_receive_handler demo_mp) (server_send_handler demo_mp) server_async_send
     demo_udp [Event (Ev_recv_fail 64 ''x'')] u'" "action_ok demo_mp (App_send [7]) u'"
    using demo_server_run by blast
  then have "\<exists>st. mempool_stats_of (u_heap u') demo_mp = Some st \<and> unat (st_available st) + length (u_pending u') + 1 = 3"
    using server_accounting[OF demo_mp_rep_Suc demo_server_new u'] by (auto simp: demo_mp_def)
  with u'(1) show ?thesis by blast
qed

text \<open>C18. The server always has exactly one receive outstanding as long as no receive has failed;
  the first failed receive is never re-armed, so from then on it has none.\<close>

theorem server_receive_rearmed:
  assumes "mempool_rep h0 mp h (Suc n) {}" "server_new mp h cout (Inr local) = Some (Inr u)"
    "udp_run mp (server_receive_handler mp) (server_send_handler mp) server_async_send u acts u'"
  shows "armed u' = (if list_ex recv_failure acts then 0 else 1)"
proof -
  have rep: "udp_rep h0 mp {} u" and one: "armed u = 1"
    using server_new_rep[OF assms(1), of cout "local"] assms(2) by auto
  have "armed u = armed u' + length (filter recv_failure acts)"
    using server.run_rep[OF assms(3) rep] by auto
  moreover have "list_ex recv_failure acts \<longleftrightarrow> filter recv_failure acts \<noteq> []"
    by (simp add: list_ex_iff filter_empty_conv)
  ultimately show ?thesis using one by (cases "filter recv_failure acts") auto
qed

theorem server_receive_rearmed_witness:
  "\<exists>u'. udp_run demo_mp (server_receive_handler demo_mp) (server_send_handler demo_mp) server_async_send
      demo_udp [Event (Ev_recv_fail 64 ''x'')] u' \<and> armed u' = 0"
proof -
  obtain u' where u': "udp_run demo_mp (server_receive_handler demo_mp) (server_send_handler demo_mp) server_async_send
     demo_udp [Event (Ev_recv_fail 64 ''x'')] u'" using demo_server_run by blast
  from server_receive_rearmed[OF demo_mp_rep_Suc demo_server_new u'] u' show ?thesis by auto
qed

text \<open>C19. When a datagram arrives, the server prints after the header lines one line per byte: the two hexadecimal digits of a byte
  below \<^verbatim>\<open>0x80\<close>, and from \<^verbatim>\<open>0x80\<close> on, where the \<^verbatim>\<open>char\<close> is negative and its sign is extended, those digits behind \<^verbatim>\<open>ffffff\<close>. It records the sender as the peer it will send to, frees the chunk and listens
  again. Once a non-empty datagram has been printed the stream stays in hexadecimal, and the
  byte count of the next one is printed in base 16.\<close>

theorem server_prints_datagram:
  assumes "udp_rep h0 mp L u" "event_ok (Ev_recv p ep bs) u"
  shows "\<exists>u'. run_event (server_receive_handler mp) (server_send_handler mp) u (Ev_recv p ep bs) = Some (Inr (), u')
    \<and> u_remote u' = ep \<and> armed u' = armed u
    \<and> c_out (u_cout u') = c_out (u_cout u) @ ''\<newline>async_receive() complete\<newline>bytes_received: ''
        @ show_base (if c_hex (u_cout u) then 16 else 10) (length bs) @ ''\<newline>Receive buffer\<newline>''
        @ concat (map dump_line bs)
    \<and> c_hex (u_cout u') = (c_hex (u_cout u) \<or> bs \<noteq> [])"
proof -
  obtain u' where u': "run_event (server_receive_handler mp) (server_send_handler mp) u (Ev_recv p ep bs)
      = Some (Inr (), u')" "armed u' = armed u" "u_remote u' = ep"
    using server.recv_event[OF assms] by blast
  obtain n where mem: "mempool_rep h0 mp (u_heap u) n (pending_chunks u \<union> L)"
    and bnd: "list_all (\<lambda>op. buffer_size op \<le> unat (mp_chunk_sz mp)) (u_pending u)"
    using assms(1) by (rule udp_repE)
  obtain k where k: "Recv p k \<in> set (u_pending u)" "length bs \<le> unat k"
    using event_ok_pending(1)[OF assms(2)] by blast
  then have p: "p \<in> pending_chunks u \<union> L" and len: "length bs \<le> unat (mp_chunk_sz mp)"
    using bnd by (auto simp: pending_chunkI list_all_iff dest: bspec)
  obtain h where h: "store_buffer (u_heap u) p bs = Some h" "mempool_rep h0 mp h n (pending_chunks u \<union> L)"
    "\<And>i. i < length bs \<Longrightarrow> load_char h (p + of_nat i) = Some (bs ! i)"
    using mempool.read_back[OF mem p len] by blast
  have un: "unat (of_nat (length bs) :: size_t) = length bs" "length bs < 2 ^ 31"
    using assms(2) by (simp_all add: unat_of_nat)
  have "bytes h (p + of_nat i) = bs ! i" if "i < length bs" for i
    using h(3)[OF that] by (simp add: load_char_def split: if_splits)
  then have data: "map (\<lambda>i. hex_line (bytes h (p + of_nat i))) [0..<length bs] = map hex_line bs"
    by (intro nth_equalityI) simp_all
  let ?u = "(take_pending p u)\<lparr>u_heap := h, u_remote := ep\<rparr>"
  have cout: "u_cout ?u = u_cout u" by (simp add: take_pending_def)
  have nz: "(of_nat (length bs) :: size_t) \<noteq> 0 \<longleftrightarrow> bs \<noteq> []"
    using un(1) by (auto simp: unat_eq_zero[symmetric])
  have heap: "u_heap ?u = h" by simp
  have rep': "mempool_rep h0 mp (u_heap ?u) n (pending_chunks u \<union> L)" using h(2) by simp
  obtain u'' where r: "server_receive_handler mp ?u p None (of_nat (length bs)) = Some (Inr (), u'')"
    "c_out (u_cout u'') = c_out (u_cout u) @ ''\<newline>async_receive() complete\<newline>bytes_received: ''
      @ show_num (u_cout u) (length bs) @ ''\<newline>Receive buffer\<newline>'' @ concat (map hex_line bs)"
    "c_hex (u_cout u'') = (c_hex (u_cout u) \<or> bs \<noteq> [])"
    using server_receive_ok[OF rep' p, of "of_nat (length bs)", unfolded un(1) nz cout heap data, OF len un(2)]
    by blast
  have "u'' = u'" using u'(1) h(1) r(1) by simp
  with u' r show ?thesis by (simp add: show_num_def hex_line_eq)
qed

theorem server_prints_datagram_witness:
  "\<exists>u'. run_event (server_receive_handler demo_mp) (server_send_handler demo_mp) demo_udp
      (Ev_recv 64 (2, 77) [1, 200]) = Some (Inr (), u')
    \<and> c_out (u_cout u') = ''\<newline>async_receive() complete\<newline>bytes_received: 2\<newline>Receive buffer\<newline>01\<newline>ffffffc8\<newline>''
    \<and> c_hex (u_cout u')"
proof -
  have "event_ok (Ev_recv 64 (2, 77) [1, 200]) demo_udp" by (simp add: demo_udp_def)
  from server_prints_datagram[OF demo_udp_rep(1) this] show ?thesis
    by (auto simp: demo_udp_def demo_console_def dump_line_def show_base.simps hex_digit_def)
qed

text \<open>A datagram handed to \<^verbatim>\<open>async_send\<close> stays outstanding, with the same bytes in its buffer and
  the same destination, through any sequence of other completions and sends, until its own
  completion.\<close>

theorem server_send_undisturbed:
  assumes "udp_rep h0 mp {} u" "Send p k ep \<in> set (u_pending u)"
    "udp_run mp (server_receive_handler mp) (server_send_handler mp) server_async_send u acts u'"
    "\<forall>a \<in> set acts. p \<notin> completed a"
  shows "Send p k ep \<in> set (u_pending u')
    \<and> (\<forall>i. i < unat k \<longrightarrow> bytes (u_heap u') (p + of_nat i) = bytes (u_heap u) (p + of_nat i))"
proof -
  have "unat k \<le> unat (mp_chunk_sz mp)"
    using assms(1,2) by (auto simp: udp_rep_def list_all_iff dest: bspec)
  with server.run_keeps[OF assms(3,1) _ assms(2)] assms(4) show ?thesis
    by (simp add: same_data_def)
qed

lemma demo_send:
  obtains u p where "udp_rep empty_heap demo_mp {} u" "u_pending u = [Recv 64 10, Send p 1 (1, 9000)]" "p \<noteq> 64"
    "bytes (u_heap u) p = 7"
proof -
  have "\<not> mempool_rep empty_heap demo_mp (u_heap demo_udp) 0 (pending_chunks demo_udp \<union> {})"
    using mempool_rep_count(2)[of empty_heap demo_mp "u_heap demo_udp" 0 "pending_chunks demo_udp \<union> {}"]
    by (auto simp: pending_chunks_def demo_udp_def demo_mp_def)
  moreover have len: "length [7 :: u8] \<le> unat (mp_chunk_sz demo_mp)" by (simp add: demo_mp_def)
  ultimately obtain p u where u: "udp_rep empty_heap demo_mp {} u"
    "u_pending u = u_pending demo_udp @ [Send p (of_nat (length [7 :: u8])) (u_remote demo_udp)]"
    "\<forall>i < length [7 :: u8]. bytes (u_heap u) (p + of_nat i) = [7] ! i"
    using server.app_send[OF demo_udp_rep(1) len] by blast
  have ops: "u_pending u = [Recv 64 10, Send p 1 (1, 9000)]" using u(2) by (simp add: demo_udp_def)
  have "p \<noteq> 64" using udp_rep_distinct[OF u(1)] ops by simp
  moreover have "bytes (u_heap u) p = 7" using u(3) by simp
  ultimately show thesis using u(1) ops that by blast
qed

theorem server_send_undisturbed_witness:
  "\<exists>u u' p. u_pending u = [Recv 64 10, Send p 1 (1, 9000)]
    \<and> udp_run demo_mp (server_receive_handler demo_mp) (server_send_handler demo_mp) server_async_send
        u [Event (Ev_recv_fail 64 ''x'')] u'
    \<and> Send p 1 (1, 9000) \<in> set (u_pending u') \<and> bytes (u_heap u') p = 7"
proof -
  obtain u p where u: "udp_rep empty_heap demo_mp {} u" "u_pending u = [Recv 64 10, Send p 1 (1, 9000)]"
    "p \<noteq> 64" "bytes (u_heap u) p = 7" by (rule demo_send)
  have ok: "action_ok demo_mp (Event (Ev_recv_fail 64 ''x'')) u" using u(2) by simp
  obtain u' where "run_action demo_mp (server_receive_handler demo_mp) (server_send_handler demo_mp) server_async_send
      u (Event (Ev_recv_fail 64 ''x'')) = Some (Inr (), u')"
    by (simp add: server_receive_handler_def)
  from udp_run_one[OF ok this]
  have run: "udp_run demo_mp (server_receive_handler demo_mp) (server_send_handler demo_mp) server_async_send
      u [Event (Ev_recv_fail 64 ''x'')] u'" .
  have "Send p 1 (1, 9000) \<in> set (u_pending u')
      \<and> (\<forall>i. i < unat (1 :: size_t) \<longrightarrow> bytes (u_heap u') (p + of_nat i) = bytes (u_heap u) (p + of_nat i))"
    using u by (intro server_send_undisturbed[OF u(1) _ run]) simp_all
  with u run show ?thesis by (intro exI[of _ u] exI[of _ u'] exI[of _ p]) simp
qed

section \<open>The client\<close>

text \<open>C20. Reading the member \<^verbatim>\<open>chunk_size_\<close>, which the constructor never sets, is undefined. Where an implementation nevertheless
  gives a value, and one of at most the size of a chunk, and as long as the sends of \<^verbatim>\<open>main\<close> do not overlap a handler (the
  pool has no lock), the client has the server's guarantees: the next action is defined, the chunks available, outstanding and
  lost add up to the pool, and one receive is outstanding until one fails.\<close>

theorem client_accounting:
  assumes "mempool_rep h0 mp h (Suc n) {}" "unat garbage \<le> unat (mp_chunk_sz mp)"
    "client_new mp h cout (Some garbage) (Inr (ep # eps)) None = Some (Inr u)"
    "udp_run mp (client_receive_handler mp) (client_send_handler mp) client_async_send u acts u'"
    "action_ok mp a u'"
  shows "\<exists>st r u''. mempool_stats_of (u_heap u') mp = Some st
    \<and> unat (st_available st) + length (u_pending u') + length (filter failure acts)
        = unat (mp_pool_sz mp) + unat (mp_extra_sz mp)
    \<and> armed u' + length (filter recv_failure acts) = 1
    \<and> run_action mp (client_receive_handler mp) (client_send_handler mp) client_async_send u' a = Some (r, u'')
    \<and> (r \<noteq> Inr () \<longleftrightarrow> (\<exists>bs. a = App_send bs) \<and> unat (st_available st) = 0)"
proof -
  have "udp_rep h0 mp {} u" "armed u = 1"
    using client_new_rep[OF assms(1,2), of cout ep eps] assms(3) by auto
  with client.run_summary[OF assms(4) _ assms(5)] show ?thesis by fastforce
qed

theorem client_accounting_witness:
  "\<exists>u' st. udp_run demo_mp (client_receive_handler demo_mp) (client_send_handler demo_mp) client_async_send
      demo_udp [Event (Ev_recv_fail 64 ''x'')] u'
    \<and> mempool_stats_of (u_heap u') demo_mp = Some st \<and> unat (st_available st) + length (u_pending u') + 1 = 3"
proof -
  obtain u' where u': "udp_run demo_mp (client_receive_handler demo_mp) (client_send_handler demo_mp) client_async_send
     demo_udp [Event (Ev_recv_fail 64 ''x'')] u'" "action_ok demo_mp (App_send [7]) u'"
    using demo_client_run by blast
  then have "\<exists>st. mempool_stats_of (u_heap u') demo_mp = Some st \<and> unat (st_available st) + length (u_pending u') + 1 = 3"
    using client_accounting[OF demo_mp_rep_Suc _ demo_client_new u'] by (auto simp: demo_mp_def)
  with u'(1) show ?thesis by blast
qed

lemma past_block_not_accessible:
  assumes "heap_wf h" "(b, s) \<in> set (live h)" "unat s < n"
  shows "\<not> accessible h b n"
proof
  assume "accessible h b n"
  then obtain b' s' where bs: "(b', s') \<in> set (live h)" "in_block b n (b', s')"
    by (auto simp: accessible_def list_ex_iff)
  show False
  proof (cases "b' = b")
    case True
    then have "s' = s" using heap_wf_distinct[OF assms(1)] assms(2) bs(1) by (metis eq_key_imp_eq_value)
    with True bs(2) assms(3) show False by (simp add: in_block_def)
  next
    case False
    then have "apart (b', s') (b, s)" using heap_wf_apart[OF assms(1) bs(1) assms(2)] by simp
    with bs(2) assms(3) show False by (auto simp: in_block_def apart_def extent_def)
  qed
qed

text \<open>C21. The constructor never sets the member \<^verbatim>\<open>chunk_size_\<close>, which is the length of the buffer the
  client gives to asio. Reading it is undefined; and where an implementation gives it a value, for one larger than the whole chunk array there is
  a datagram asio may deliver that overruns the array: undefined behaviour, triggered by the
  peer.\<close>

theorem client_receive_overflow:
  assumes "ext_ok e" "heap_wf h0" "pool_sz \<noteq> 0" "chunk_sz \<noteq> 0" "unat chunk_sz + 7 < 2 ^ 64"
    "unat pool_sz * unat (align2boundary chunk_sz sizeof_ptr) < min 65507 (unat garbage)"
    "mempool_new e h0 pool_sz chunk_sz = Some (Inr mp, h)"
    "client_new mp h cout (Some garbage) (Inr (ep # eps)) None = Some (Inr u)"
  shows "client_new mp h cout None (Inr (ep # eps)) None = None
    \<and> (\<exists>p bs. event_ok (Ev_recv p ep bs) u
      \<and> run_event (client_receive_handler mp) (client_send_handler mp) u (Ev_recv p ep bs) = None)"
proof -
  have "client_new mp h cout None (Inr (ep # eps)) None = None"
  proof -
    obtain r h' where al: "mempool_alloc h mp = Some (r, h')"
      using assms(8) by (auto simp: client_new_def client_async_receive_def bind_eq_Some_conv)
    then show ?thesis using assms(8) by (cases r) (auto simp: client_new_def client_async_receive_def bind_eq_None_conv bind_eq_Some_conv)
  qed
  let ?csz = "align2boundary chunk_sz sizeof_ptr"
  have bound: "unat pool_sz * unat ?csz < 2 ^ 64" using assms(6) by simp
  obtain pool start arr where pool: "pool_new e h0 pool_sz chunk_sz = Some (pool, h)"
    "pool_rep h pool (new_view start arr (unat pool_sz) ?csz)" "mp_pool mp = pool"
  proof (cases rule: pool_new_cases[OF assms(1-5) bound, case_names null pool])
    case null
    with assms(7) that show thesis by (simp add: mempool_new_def)
  next
    case (pool pool start arr h')
    moreover have "h' = h" "mp_pool mp = pool"
      using assms(7) pool(1) pool_rep_nonnull[OF pool(2)] by (auto simp: mempool_new_def)
    ultimately show thesis by (intro that[of pool start arr]) simp_all
  qed
  let ?V = "new_view start arr (unat pool_sz) ?csz"
  have n: "0 < unat pool_sz" using assms(3) by (simp add: unat_gt_0)
  then have free: "v_free ?V = arr # tl (array_chunks ?csz arr (unat pool_sz))"
    by (simp add: new_view_def) (metis array_chunks_Nil hd_array_chunks list.collapse neq0_conv)
  obtain h1 where h1: "pool_alloc h pool = Some (arr, h1)" "live h1 = live h"
    using pool_alloc_Cons(1)[OF pool(2) free] by auto
  have nz: "arr \<noteq> 0" using pool_rep_chunk(3)[OF pool(2), of arr] pool_rep_free(1)[OF pool(2)] free by auto
  have u: "u_heap u = h1" "u_pending u = [Recv arr garbage]"
    using assms(8) h1(1) nz pool(3)
    by (auto simp: client_new_def client_async_receive_def mempool_alloc_def bind_eq_Some_conv)
  let ?bs = "replicate (Suc (unat pool_sz * unat ?csz)) (0 :: u8)"
  have "event_ok (Ev_recv arr ep ?bs) u" using assms(6) u(2) by simp
  moreover have "(arr, of_nat (unat pool_sz) * ?csz) \<in> set (live h1)"
    using pool_rep_blocks(4)[OF pool(2), of start arr "unat pool_sz"] h1(2) by (simp add: new_view_def)
  moreover have "heap_wf h1" using pool_rep_blocks(1)[OF pool(2)] h1(2) by (simp add: heap_wf_def)
  ultimately have "store_buffer (u_heap u) arr ?bs = None"
    using past_block_not_accessible[of h1 arr "of_nat (unat pool_sz) * ?csz" "length ?bs"]
      unat_array_block[OF bound] u(1) by (simp add: store_buffer_def)
  then have "run_event (client_receive_handler mp) (client_send_handler mp) u (Ev_recv arr ep ?bs) = None" by simp
  with \<open>event_ok (Ev_recv arr ep ?bs) u\<close> \<open>client_new mp h cout None (Inr (ep # eps)) None = None\<close> show ?thesis by blast
qed

theorem client_receive_overflow_witness:
  "\<exists>u p bs. client_new demo_mp demo_heap demo_console (Some 4096) (Inr [(1, 9000)]) None = Some (Inr u)
    \<and> event_ok (Ev_recv p (1, 9000) bs) u
    \<and> run_event (client_receive_handler demo_mp) (client_send_handler demo_mp) u (Ev_recv p (1, 9000) bs) = None"
proof -
  obtain u where u: "client_new demo_mp demo_heap demo_console (Some 4096) (Inr [(1, 9000)]) None = Some (Inr u)"
    by (simp add: client_new_def client_async_receive_def demo_stats demo_mempool_alloc)
  have "\<exists>p bs. event_ok (Ev_recv p (1, 9000) bs) u
      \<and> run_event (client_receive_handler demo_mp) (client_send_handler demo_mp) u (Ev_recv p (1, 9000) bs) = None"
    using client_receive_overflow[OF demo_ext_ok demo_wf(1) _ _ _ _ demo_mp_new u] by (simp add: demo_csz)
  with u show ?thesis by blast
qed

text \<open>A datagram received by the client, whoever sent it, replaces the server's address: the next
  datagram the client sends goes to that sender.\<close>

theorem client_follows_last_sender:
  assumes "udp_rep h0 mp L u" "event_ok (Ev_recv p ep bs) u" "length msg \<le> unat (mp_chunk_sz mp)"
    "run_event (client_receive_handler mp) (client_send_handler mp) u (Ev_recv p ep bs) = Some (Inr (), u')"
    "run_action mp (client_receive_handler mp) (client_send_handler mp) client_async_send u' (App_send msg)
       = Some (Inr (), u'')"
  shows "\<exists>q. last (u_pending u'') = Send q (of_nat (length msg)) ep"
proof -
  have rep: "udp_rep h0 mp L u'" "u_remote u' = ep"
    using client.recv_event[OF assms(1,2)] assms(4) by auto
  from client.app_send[OF rep(1) assms(3)] assms(5) rep(2) show ?thesis by auto
qed

theorem client_follows_last_sender_witness:
  "\<exists>u' u'' q. run_event (client_receive_handler demo_mp) (client_send_handler demo_mp) demo_udp
      (Ev_recv 64 (9, 53) [1]) = Some (Inr (), u')
    \<and> run_action demo_mp (client_receive_handler demo_mp) (client_send_handler demo_mp) client_async_send u' (App_send [5])
      = Some (Inr (), u'') \<and> last (u_pending u'') = Send q 1 (9, 53)"
proof -
  have ok: "event_ok (Ev_recv 64 (9, 53) [1]) demo_udp" by (simp add: demo_udp_def)
  obtain u' where u': "run_event (client_receive_handler demo_mp) (client_send_handler demo_mp) demo_udp
      (Ev_recv 64 (9, 53) [1]) = Some (Inr (), u')" "udp_rep empty_heap demo_mp {} u'" "length (u_pending u') = 1"
    using client.recv_event[OF demo_udp_rep(1) ok] by (auto simp: demo_udp_def)
  have "\<not> mempool_rep empty_heap demo_mp (u_heap u') 0 (pending_chunks u' \<union> {})"
    using mempool_rep_count(2)[of empty_heap demo_mp "u_heap u'" 0 "pending_chunks u' \<union> {}"] u'(3)
    by (auto simp: pending_chunks_def demo_mp_def length_Suc_conv)
  moreover have len: "length [5 :: u8] \<le> unat (mp_chunk_sz demo_mp)" by (simp add: demo_mp_def)
  ultimately obtain u'' where u'': "run_action demo_mp (client_receive_handler demo_mp) (client_send_handler demo_mp)
      client_async_send u' (App_send [5]) = Some (Inr (), u'')"
    using client.app_send[OF u'(2) len] by blast
  from client_follows_last_sender[OF demo_udp_rep(1) ok len u'(1) u''] u'(1) u'' show ?thesis by auto
qed

end
