(* ===== verification/Text_Numbers.thy ===== *)
theory Text_Numbers
  imports Prelude
begin

text \<open>
  Reading text as the standard library does: white space, decimal numbers (\<^verbatim>\<open>std::stoi\<close>) and words. The
  lemmas show that reading inverts the printing of numbers.
\<close>

section \<open>Definitions\<close>

definition is_space :: "char \<Rightarrow> bool" where
  "is_space c \<longleftrightarrow> c \<in> {CHR '' '', CHR 0x09, CHR 0x0A, CHR 0x0B, CHR 0x0C, CHR 0x0D}"

definition digit_value :: "char \<Rightarrow> nat" where
  "digit_value c = of_char c - 48"

definition is_digit :: "char \<Rightarrow> bool" where
  "is_digit c \<longleftrightarrow> 48 \<le> (of_char c :: nat) \<and> (of_char c :: nat) \<le> 57"

definition digits_value :: "string \<Rightarrow> nat" where
  "digits_value ds = foldl (\<lambda>a c. 10 * a + digit_value c) 0 ds"

definition stoi :: "string \<Rightarrow> exn + int" where
  "stoi s =
     (let s = dropWhile is_space s;
          negative = (s \<noteq> [] \<and> hd s = CHR ''-'');
          s = (if s \<noteq> [] \<and> (hd s = CHR ''-'' \<or> hd s = CHR ''+'') then tl s else s);
          ds = takeWhile is_digit s;
          v = (if negative then - int (digits_value ds) else int (digits_value ds))
      in if ds = [] then Inl (Invalid_argument ''stoi'')
         else if - (2 ^ 31) \<le> v \<and> v < 2 ^ 31 then Inr v else Inl Out_of_range)"

text \<open>
  \<^verbatim>\<open>ss >> value\<close> on a fresh \<^verbatim>\<open>std::stringstream\<close>, for a string and for an \<^verbatim>\<open>int\<close>; \<open>None\<close> is a failed extraction.
\<close>

definition extract_string :: "string \<Rightarrow> string option" where
  "extract_string s =
     (let w = takeWhile (\<lambda>c. \<not> is_space c) (dropWhile is_space s) in if w = [] then None else Some w)"

definition extract_int :: "string \<Rightarrow> int option" where
  "extract_int s =
     (let s = dropWhile is_space s;
          negative = (s \<noteq> [] \<and> hd s = CHR ''-'');
          s = (if s \<noteq> [] \<and> (hd s = CHR ''-'' \<or> hd s = CHR ''+'') then tl s else s);
          ds = takeWhile is_digit s;
          v = (if negative then - int (digits_value ds) else int (digits_value ds))
      in if ds = [] then None else int32 v)"

section \<open>Numbers\<close>

lemma digit_char: "d < 10 \<Longrightarrow> is_digit (hex_digit d) \<and> digit_value (hex_digit d) = d \<and> \<not> is_space (hex_digit d)
    \<and> hex_digit d \<noteq> CHR ''-'' \<and> hex_digit d \<noteq> CHR ''+''"
proof -
  assume "d < 10"
  then have "d \<in> {0, 1, 2, 3, 4, 5, 6, 7, 8, 9}" by auto
  then show ?thesis
    by (elim insertE) (simp_all add: hex_digit_def is_digit_def digit_value_def is_space_def)
qed

lemma show_base_digits: "\<forall>c \<in> set (show_base 10 n). is_digit c" "digits_value (show_base 10 n) = n" "show_base 10 n \<noteq> []"
  "\<not> is_space (hd (show_base 10 n))" "hd (show_base 10 n) \<noteq> CHR ''-''" "hd (show_base 10 n) \<noteq> CHR ''+''"
proof (induction n rule: less_induct)
  case (less n)
  { case 1 show ?case using less[of "n div 10"] digit_char[of "n mod 10"] by (subst show_base.simps) (auto simp: digit_char) }
  { case 2 show ?case using less[of "n div 10"] digit_char[of "n mod 10"] by (subst show_base.simps) (auto simp: digit_char digits_value_def) }
  { case 3 show ?case by (subst show_base.simps) simp }
  { case 4 show ?case using less[of "n div 10"] by (subst show_base.simps) (auto simp: digit_char) }
  { case 5 show ?case using less[of "n div 10"] by (subst show_base.simps) (auto simp: digit_char) }
  { case 6 show ?case using less[of "n div 10"] by (subst show_base.simps) (auto simp: digit_char) }
qed

lemma stoi_show: "- (2 ^ 31) \<le> i \<Longrightarrow> i < 2 ^ 31 \<Longrightarrow> stoi (show_int i) = Inr i"
proof -
  assume i: "- (2 ^ 31) \<le> i" "i < 2 ^ 31"
  have drop: "dropWhile is_space (show_base 10 n) = show_base 10 n" "takeWhile is_digit (show_base 10 n) = show_base 10 n" for n
    using show_base_digits[of n] by (cases "show_base 10 n"; simp add: takeWhile_eq_all_conv)+
  have minus: "\<not> is_space CHR ''-''" by (simp add: is_space_def)
  show ?thesis
  proof (cases "i < 0")
    case True
    then show ?thesis using i show_base_digits(2,3)[of "nat (- i)"] minus
      by (simp add: show_int_def stoi_def Let_def drop)
  next
    case False
    then show ?thesis using i show_base_digits(2-6)[of "nat i"]
      by (simp add: show_int_def stoi_def Let_def drop)
  qed
qed

lemma extract_int_stoi: "extract_int s = (case stoi s of Inl _ \<Rightarrow> None | Inr v \<Rightarrow> Some v)"
  by (simp add: extract_int_def stoi_def int32_def Let_def)

lemma extract_int_show: "- (2 ^ 31) \<le> i \<Longrightarrow> i < 2 ^ 31 \<Longrightarrow> extract_int (show_int i) = Some i"
  by (simp add: extract_int_stoi stoi_show)

lemma extract_string_blank: "list_all is_space s \<Longrightarrow> extract_string s = None"
proof -
  assume "list_all is_space s"
  then have nil: "dropWhile is_space s = []" by (simp add: dropWhile_eq_Nil_conv list_all_iff)
  show ?thesis unfolding extract_string_def nil by simp
qed

lemma extract_string_word:
  assumes "list_all is_space a" "w \<noteq> []" "list_all (\<lambda>c. \<not> is_space c) w" "b = [] \<or> is_space (hd b)"
  shows "extract_string (a @ w @ b) = Some w"
proof -
  have "dropWhile is_space (a @ w @ b) = w @ b"
    using assms by (cases w) (auto simp: dropWhile_append list_all_iff)
  moreover have "takeWhile (\<lambda>c. \<not> is_space c) (w @ b) = w"
    using assms by (cases b) (auto simp: takeWhile_append list_all_iff takeWhile_eq_all_conv)
  ultimately show ?thesis using assms(2) by (simp add: extract_string_def)
qed

end
