(* ===== verification/Calendar.thy ===== *)
theory Calendar
  imports Prelude
begin

text \<open>
  What the configuration code uses of \<^verbatim>\<open>std::chrono\<close>: civil dates, \<^verbatim>\<open>sys_days\<close>, \<^verbatim>\<open>hh_mm_ss\<close> and
  time points of the system clock, which count nanoseconds since 1970 in 64 bits. Signed overflow
  of the count is undefined (\<open>None\<close>).
\<close>

section \<open>Definitions\<close>

record year_month_day =
  ymd_year :: int
  ymd_month :: nat
  ymd_day :: nat

definition is_leap :: "int \<Rightarrow> bool" where
  "is_leap y \<longleftrightarrow> 4 dvd y \<and> \<not> 100 dvd y \<or> 400 dvd y"

definition last_day :: "int \<Rightarrow> nat \<Rightarrow> nat" where
  "last_day y m = (if m = 2 then (if is_leap y then 29 else 28) else if m \<in> {4, 6, 9, 11} then 30 else 31)"

definition ymd_ok :: "year_month_day \<Rightarrow> bool" where
  "ymd_ok d \<longleftrightarrow> 1 \<le> ymd_month d \<and> ymd_month d \<le> 12 \<and> 1 \<le> ymd_day d \<and> ymd_day d \<le> last_day (ymd_year d) (ymd_month d)"

definition year_days :: "int \<Rightarrow> int" where
  "year_days y = 365 * y + y div 4 - y div 100 + y div 400"

text \<open>\<^verbatim>\<open>sys_days{ymd}\<close>: days since 1970-01-01; years are counted from March.\<close>

definition sys_days :: "year_month_day \<Rightarrow> int" where
  "sys_days d =
     (let y = (if ymd_month d \<le> 2 then ymd_year d - 1 else ymd_year d);
          mp = (if ymd_month d \<le> 2 then ymd_month d + 9 else ymd_month d - 3)
      in year_days y + int ((153 * mp + 2) div 5) + int (ymd_day d) - 1 - 719468)"

text \<open>\<^verbatim>\<open>hh_mm_ss{d}\<close> of a non-negative duration in seconds.\<close>

record hh_mm_ss =
  hms_hours :: int
  hms_minutes :: int
  hms_seconds :: int

definition hh_mm_ss_of :: "int \<Rightarrow> hh_mm_ss" where
  "hh_mm_ss_of s = \<lparr>hms_hours = s div 3600, hms_minutes = s div 60 mod 60, hms_seconds = s mod 60\<rparr>"

definition hours :: "int \<Rightarrow> int" where "hours h = 3600 * h"
definition minutes :: "int \<Rightarrow> int" where "minutes m = 60 * m"

definition int64 :: "int \<Rightarrow> int option" where
  "int64 x = (if - (2 ^ 63) \<le> x \<and> x < 2 ^ 63 then Some x else None)"

text \<open>\<^verbatim>\<open>sd + seconds + nanoseconds\<close>: the seconds are converted to nanoseconds first.\<close>

definition time_point_of :: "int \<Rightarrow> int \<Rightarrow> int \<Rightarrow> int option" where
  "time_point_of sd s ns = do {
     t \<leftarrow> int64 ((86400 * sd + s) * 1000000000);
     int64 (t + ns)
   }"

text \<open>\<^verbatim>\<open>tp -= minutes{m}\<close>\<close>

definition minus_minutes :: "int \<Rightarrow> int \<Rightarrow> int option" where
  "minus_minutes tp m = int64 (tp - m * 60 * 1000000000)"

text \<open>Reference: the calendar day by day.\<close>

definition next_day :: "year_month_day \<Rightarrow> year_month_day" where
  "next_day d =
     (if ymd_day d < last_day (ymd_year d) (ymd_month d) then d\<lparr>ymd_day := ymd_day d + 1\<rparr>
      else if ymd_month d < 12 then d\<lparr>ymd_month := ymd_month d + 1, ymd_day := 1\<rparr>
      else \<lparr>ymd_year = ymd_year d + 1, ymd_month = 1, ymd_day = 1\<rparr>)"

definition epoch :: year_month_day where
  "epoch = \<lparr>ymd_year = 1970, ymd_month = 1, ymd_day = 1\<rparr>"

section \<open>Days\<close>

lemma sys_days_epoch: "sys_days epoch = 0"
  by (simp add: sys_days_def epoch_def year_days_def)

lemma div_pred:
  fixes y k :: int
  assumes "0 < k"
  shows "y div k = (y - 1) div k + (if k dvd y then 1 else 0)"
proof (cases "k dvd y")
  case True
  then have "y - 1 = k * (y div k - 1) + (k - 1)" by (auto simp: algebra_simps)
  then have "(y - 1) div k = y div k - 1" using assms by (intro int_div_pos_eq[of _ _ _ "k - 1"]) auto
  with True show ?thesis by simp
next
  case False
  then have "y mod k \<noteq> 0" "0 \<le> y mod k" "y mod k < k" using assms by (auto simp: dvd_eq_mod_eq_0)
  moreover have "y - 1 = k * (y div k) + (y mod k - 1)" by (simp add: algebra_simps)
  ultimately have "(y - 1) div k = y div k" by (intro int_div_pos_eq[of _ _ _ "y mod k - 1"]) auto
  with False show ?thesis by simp
qed

lemma leap_days: "year_days y = year_days (y - 1) + (if is_leap y then 366 else 365)"
proof -
  have d: "y div 4 = (y - 1) div 4 + (if 4 dvd y then 1 else 0)" "y div 100 = (y - 1) div 100 + (if 100 dvd y then 1 else 0)"
    "y div 400 = (y - 1) div 400 + (if 400 dvd y then 1 else 0)"
    by (rule div_pred; simp only: zero_less_numeral)+
  have "365 * y + (a + (if P then 1 else 0)) - (b + (if Q then 1 else 0)) + (c + (if R then 1 else 0))
      = 365 * (y - 1) + a - b + c + (if P \<and> \<not> Q \<or> R then 366 else 365)"
    if "R \<longrightarrow> Q" "Q \<longrightarrow> P" for a b c :: int and P Q R
    using that by (cases P; cases Q; cases R) simp_all
  moreover have "400 dvd y \<longrightarrow> 100 dvd y" "100 dvd y \<longrightarrow> 4 dvd y"
    using dvd_trans[of 100 400 y] dvd_trans[of 4 100 y] by auto
  ultimately show ?thesis unfolding year_days_def is_leap_def d .
qed

lemma year_days_mono: "a \<le> b \<Longrightarrow> year_days a \<le> year_days b"
proof (induction b rule: int_ge_induct)
  case (step b)
  then show ?case using leap_days[of "b + 1"] by (auto split: if_splits)
qed simp

lemma month_cases: "1 \<le> m \<Longrightarrow> m \<le> 12 \<Longrightarrow> m \<in> {1, 2, 3, 4, 5, 6, 7, 8, 9, 10, 11, 12 :: nat}"
  by (simp only: insert_iff empty_iff) presburger

lemma sys_days_next:
  assumes "ymd_ok d"
  shows "sys_days (next_day d) = sys_days d + 1" "ymd_ok (next_day d)"
proof -
  let ?y = "ymd_year d" and ?m = "ymd_month d"
  have m: "?m \<in> {1, 2, 3, 4, 5, 6, 7, 8, 9, 10, 11, 12}" using assms month_cases[of ?m] by (auto simp: ymd_ok_def)
  show "ymd_ok (next_day d)"
    using assms m by (auto simp: next_day_def ymd_ok_def last_day_def)
  show "sys_days (next_day d) = sys_days d + 1"
  proof (cases "ymd_day d < last_day ?y ?m")
    case True
    then show ?thesis by (simp add: next_day_def sys_days_def Let_def)
  next
    case False
    with assms have "ymd_day d = last_day ?y ?m" by (simp add: ymd_ok_def)
    then show ?thesis using m leap_days[of ?y]
      by (elim insertE) (simp_all add: next_day_def sys_days_def Let_def last_day_def)
  qed
qed

text \<open>Counting days from the epoch reaches every later date with the number that \<^verbatim>\<open>sys_days\<close> gives it.\<close>

lemma sys_days_nth: "sys_days ((next_day ^^ n) epoch) = int n \<and> ymd_ok ((next_day ^^ n) epoch)"
proof (induction n)
  case 0
  show ?case by (simp add: sys_days_epoch) (simp add: epoch_def ymd_ok_def last_day_def)
next
  case (Suc n)
  then show ?case using sys_days_next[of "(next_day ^^ n) epoch"] by simp
qed

lemma sys_days_bounds:
  assumes "ymd_ok d"
  shows "year_days (ymd_year d - 1) - 719162 \<le> sys_days d"
    "sys_days d \<le> year_days (ymd_year d) - 719163"
proof -
  have m: "ymd_month d \<in> {1, 2, 3, 4, 5, 6, 7, 8, 9, 10, 11, 12}" and day: "1 \<le> ymd_day d"
    "ymd_day d \<le> last_day (ymd_year d) (ymd_month d)"
    using assms month_cases[of "ymd_month d"] by (auto simp: ymd_ok_def)
  show "year_days (ymd_year d - 1) - 719162 \<le> sys_days d"
    using m day leap_days[of "ymd_year d"]
    by (elim insertE) (simp_all add: sys_days_def Let_def last_day_def split: if_splits)
  show "sys_days d \<le> year_days (ymd_year d) - 719163"
    using m day leap_days[of "ymd_year d"]
    by (elim insertE) (simp_all add: sys_days_def Let_def last_day_def split: if_splits)
qed

section \<open>Times\<close>

lemma int64_Some: "- 9223372036854775808 \<le> x \<Longrightarrow> x < 9223372036854775808 \<Longrightarrow> int64 x = Some x"
  by (simp add: int64_def)

lemma int64_None: "x < - 9223372036854775808 \<or> 9223372036854775808 \<le> x \<Longrightarrow> int64 x = None"
  by (auto simp: int64_def)

lemma hh_mm_ss_roundtrip:
  assumes "0 \<le> m" "m < 60" "0 \<le> s" "s < 60"
  shows "hh_mm_ss_of (hours h + minutes m + s) = \<lparr>hms_hours = h, hms_minutes = m, hms_seconds = s\<rparr>"
proof -
  let ?t = "3600 * h + 60 * m + s"
  have "?t div 3600 = h" using assms by (intro int_div_pos_eq[of _ _ _ "60 * m + s"]) auto
  moreover have "?t mod 60 = s" using assms by (intro int_mod_pos_eq[of _ _ "60 * h + m"]) auto
  moreover have "?t div 60 = 60 * h + m" using assms by (intro int_div_pos_eq[of _ _ _ s]) auto
  moreover have "(60 * h + m) mod 60 = m" using assms by (intro int_mod_pos_eq[of _ _ h]) auto
  ultimately show ?thesis by (simp add: hh_mm_ss_of_def hours_def minutes_def)
qed

lemma time_decode:
  fixes d s n :: int
  assumes "0 \<le> s" "s < 86400" "0 \<le> n" "n < 1000000000"
  defines "l \<equiv> (86400 * d + s) * 1000000000 + n"
  shows "l div 86400000000000 = d" "l mod 86400000000000 div 1000000000 = s" "l mod 1000000000 = n"
proof -
  show "l div 86400000000000 = d"
    using assms by (intro int_div_pos_eq[of _ _ _ "s * 1000000000 + n"]) (auto simp: algebra_simps)
  have "l mod 86400000000000 = s * 1000000000 + n"
    using assms by (intro int_mod_pos_eq[of _ _ d]) (auto simp: algebra_simps)
  moreover have "(s * 1000000000 + n) div 1000000000 = s"
    using assms by (intro int_div_pos_eq[of _ _ _ n]) auto
  ultimately show "l mod 86400000000000 div 1000000000 = s" by simp
  show "l mod 1000000000 = n"
    using assms by (intro int_mod_pos_eq[of _ _ "86400 * d + s"]) (auto simp: algebra_simps)
qed

lemma time_in_range:
  fixes d s n m :: int
  assumes "- 106650 \<le> d" "d \<le> 106650" "0 \<le> s" "s < 86400" "0 \<le> n" "n < 1000000000" "\<bar>m\<bar> < 1440"
  defines "t \<equiv> (86400 * d + s) * 1000000000"
  shows "int64 t = Some t" "int64 (t + n) = Some (t + n)"
    "int64 (t + n - m * 60 * 1000000000) = Some (t + n - m * 60 * 1000000000)"
  using assms by (auto intro!: int64_Some)

end
