(* ===== verification/Config.thy ===== *)
theory Config
  imports Calendar
begin

text \<open>
  The class \<^verbatim>\<open>Config\<close> (\<^verbatim>\<open>common/include/common/config.hpp\<close>, \<^verbatim>\<open>common/src/config.cpp\<close>) and its
  two spikes \<^verbatim>\<open>spike/get_unid_filepath.cpp\<close> and \<^verbatim>\<open>spike/toml_to_timepoint.cpp\<close>. The toml++ library,
  the file system and the environment are parameters. The outer \<open>None\<close> is undefined behaviour: a null
  pointer that is dereferenced, or signed overflow.
\<close>

section \<open>Definitions\<close>

text \<open>The structures of toml++ that the code reads.\<close>

record toml_date =
  td_year :: u16
  td_month :: u8
  td_day :: u8

record toml_time =
  tt_hour :: u8
  tt_minute :: u8
  tt_second :: u8
  tt_nanosecond :: u32

record toml_date_time =
  tdt_date :: toml_date
  tdt_time :: toml_time
  tdt_offset :: "u16 option"

text \<open>
  The calls into toml++ on nodes of type \<open>'n\<close>: \<^verbatim>\<open>operator[]\<close>, where a missing key is an empty view, the
  checked casts, where a node of another type gives a null pointer, and \<^verbatim>\<open>parse_file\<close>, where the left
  side is the message of the parse error.
\<close>

record 'n toml_api =
  tl_get :: "'n \<Rightarrow> string \<Rightarrow> 'n option"
  tl_as_date :: "'n \<Rightarrow> toml_date option"
  tl_as_time :: "'n \<Rightarrow> toml_time option"
  tl_as_date_time :: "'n \<Rightarrow> toml_date_time option"
  tl_parse_file :: "string \<Rightarrow> string + 'n"

record 'n config =
  config_node :: 'n

definition config_system_filepath :: string where
  "config_system_filepath = ''/etc/unid/unid.toml''"

text \<open>\<^verbatim>\<open>Config::get_unid_filepath\<close> of a build with \<^verbatim>\<open>NDEBUG\<close>; \<open>exists\<close> is \<^verbatim>\<open>fs::exists\<close>, which may throw.\<close>

definition config_get_unid_filepath :: "(string \<Rightarrow> exn + bool) \<Rightarrow> exn + string" where
  "config_get_unid_filepath exists =
     (case exists config_system_filepath of
       Inl x \<Rightarrow> Inl x
     | Inr e \<Rightarrow> if \<not> e then Inl (Runtime_error ''error: unid.toml not found'') else Inr config_system_filepath)"

definition config_new :: "'n toml_api \<Rightarrow> (string \<Rightarrow> exn + bool) \<Rightarrow> exn + 'n config" where
  "config_new api exists =
     (case config_get_unid_filepath exists of
       Inl x \<Rightarrow> Inl x
     | Inr filepath \<Rightarrow>
         (case tl_parse_file api filepath of
           Inl err \<Rightarrow> Inl (Runtime_error err)
         | Inr t \<Rightarrow> Inr \<lparr>config_node = t\<rparr>))"

text \<open>\<^verbatim>\<open>config_[key]\<close> and \<^verbatim>\<open>config_[table][key]\<close>\<close>

text \<open>
  \<^verbatim>\<open>get_as<T>\<close>: \<^verbatim>\<open>at_path\<close> finds a node by its dotted path, and \<^verbatim>\<open>value<T>\<close> is the node's value if it has the type \<^verbatim>\<open>T\<close>.
\<close>

definition get_as :: "('n \<Rightarrow> string \<Rightarrow> 'n option) \<Rightarrow> ('n \<Rightarrow> 't option) \<Rightarrow> 'n config \<Rightarrow> string \<Rightarrow> 't option" where
  "get_as at_path val c keypath = Option.bind (at_path (config_node c) keypath) val"

definition config_at :: "'n toml_api \<Rightarrow> 'n config \<Rightarrow> string \<Rightarrow> 'n option" where
  "config_at api c key = tl_get api (config_node c) key"

definition config_at2 :: "'n toml_api \<Rightarrow> 'n config \<Rightarrow> string \<Rightarrow> string \<Rightarrow> 'n option" where
  "config_at2 api c tab key = do { t \<leftarrow> tl_get api (config_node c) tab; tl_get api t key }"

text \<open>\<^verbatim>\<open>year{(short)td.year} / month{td.month} / day{td.day}\<close>\<close>

definition ymd_of :: "toml_date \<Rightarrow> year_month_day" where
  "ymd_of td = \<lparr>ymd_year = sint (td_year td), ymd_month = unat (td_month td), ymd_day = unat (td_day td)\<rparr>"

definition get_as_date :: "'n toml_api \<Rightarrow> 'n config \<Rightarrow> string \<Rightarrow> year_month_day option option" where
  "get_as_date api c key =
     (case config_at api c key of
       None \<Rightarrow> Some None
     | Some n \<Rightarrow> do { td \<leftarrow> tl_as_date api n; Some (Some (ymd_of td)) })"

definition get_as_date2 :: "'n toml_api \<Rightarrow> 'n config \<Rightarrow> string \<Rightarrow> string \<Rightarrow> year_month_day option option" where
  "get_as_date2 api c tab key =
     (case config_at2 api c tab key of
       None \<Rightarrow> Some None
     | Some n \<Rightarrow> do { td \<leftarrow> tl_as_date api n; Some (Some (ymd_of td)) })"

text \<open>\<^verbatim>\<open>hh_mm_ss hms{hours{tt.hour} + minutes{tt.minute} + seconds{tt.second}}\<close>\<close>

definition hms_of :: "toml_time \<Rightarrow> hh_mm_ss" where
  "hms_of tt = hh_mm_ss_of (hours (uint (tt_hour tt)) + minutes (uint (tt_minute tt)) + uint (tt_second tt))"

definition get_as_time :: "'n toml_api \<Rightarrow> 'n config \<Rightarrow> string \<Rightarrow> hh_mm_ss option option" where
  "get_as_time api c key =
     (case config_at api c key of
       None \<Rightarrow> Some None
     | Some n \<Rightarrow> do { tt \<leftarrow> tl_as_time api n; Some (Some (hms_of tt)) })"

definition get_as_time2 :: "'n toml_api \<Rightarrow> 'n config \<Rightarrow> string \<Rightarrow> string \<Rightarrow> hh_mm_ss option option" where
  "get_as_time2 api c tab key =
     (case config_at2 api c tab key of
       None \<Rightarrow> Some None
     | Some n \<Rightarrow> do { tt \<leftarrow> tl_as_time api n; Some (Some (hms_of tt)) })"

text \<open>The time point computed from a date and time, with the offset subtracted.\<close>

definition systime_of :: "toml_date_time \<Rightarrow> int option" where
  "systime_of tdt =
     (let date = \<lparr>ymd_year = uint (td_year (tdt_date tdt)), ymd_month = unat (td_month (tdt_date tdt)),
                   ymd_day = unat (td_day (tdt_date tdt))\<rparr>;
          sd = sys_days date;
          t = tdt_time tdt
      in do {
        tp \<leftarrow> time_point_of sd (hours (uint (tt_hour t)) + minutes (uint (tt_minute t)) + uint (tt_second t))
                (uint (tt_nanosecond t));
        case tdt_offset tdt of None \<Rightarrow> Some tp | Some off \<Rightarrow> minus_minutes tp (sint off)
      })"

definition get_as_systime :: "'n toml_api \<Rightarrow> 'n config \<Rightarrow> string \<Rightarrow> int option option" where
  "get_as_systime api c key =
     (case config_at api c key of
       None \<Rightarrow> Some None
     | Some n \<Rightarrow> do { tdt \<leftarrow> tl_as_date_time api n; tp \<leftarrow> systime_of tdt; Some (Some tp) })"

text \<open>The check looks at \<^verbatim>\<open>config_[table][key]\<close>, the value is taken from \<^verbatim>\<open>config_[key]\<close>.\<close>

definition get_as_systime2 :: "'n toml_api \<Rightarrow> 'n config \<Rightarrow> string \<Rightarrow> string \<Rightarrow> int option option" where
  "get_as_systime2 api c tab key =
     (case config_at2 api c tab key of
       None \<Rightarrow> Some None
     | Some _ \<Rightarrow> do {
         n \<leftarrow> config_at api c key;
         tdt \<leftarrow> tl_as_date_time api n;
         tp \<leftarrow> systime_of tdt;
         Some (Some tp)
       })"

text \<open>
  The spikes. \<^verbatim>\<open>std::string home = std::getenv("HOME")\<close> is undefined when the variable is not set.
\<close>

definition spike_get_unid_filepath :: "string option \<Rightarrow> (string \<Rightarrow> exn + bool) \<Rightarrow> (exn + string) option" where
  "spike_get_unid_filepath getenv_home exists = do {
     home \<leftarrow> getenv_home;
     let system = (case exists ''/etc/unid/unid.toml'' of
           Inl x \<Rightarrow> Inl x
         | Inr e \<Rightarrow> if e then Inr ''/etc/unid/unid.toml''
                    else Inl (Runtime_error ''Configuration file, unid.toml, not found''));
     if home \<noteq> '''' then
       let filepath = home @ ''/.config/unid.toml'' in
       (case exists filepath of
         Inl x \<Rightarrow> Some (Inl x)
       | Inr e \<Rightarrow> if e then Some (Inr filepath) else Some system)
     else Some system
   }"

text \<open>The \<^verbatim>\<open>main\<close> of the path spike; \<open>what\<close> is the text of an exception.\<close>

definition spike_filepath_main :: "(exn \<Rightarrow> string) \<Rightarrow> string option \<Rightarrow> (string \<Rightarrow> exn + bool) \<Rightarrow> string option" where
  "spike_filepath_main what getenv_home exists = do {
     r \<leftarrow> spike_get_unid_filepath getenv_home exists;
     Some (case r of
       Inl e \<Rightarrow> ''Error: '' @ what e @ ''\<newline>'' @ [] @ ''\<newline>''
     | Inr filepath \<Rightarrow> filepath @ ''\<newline>'')
   }"

definition to_chrono_timepoint :: "toml_date_time \<Rightarrow> int option" where
  "to_chrono_timepoint dt =
     (let d = \<lparr>ymd_year = uint (td_year (tdt_date dt)), ymd_month = unat (td_month (tdt_date dt)),
                ymd_day = unat (td_day (tdt_date dt))\<rparr>;
          sd = sys_days d
      in do {
        tp \<leftarrow> time_point_of sd (hours (uint (tt_hour (tdt_time dt))) + minutes (uint (tt_minute (tdt_time dt)))
                + uint (tt_second (tdt_time dt))) (uint (tt_nanosecond (tdt_time dt)));
        (case tdt_offset dt of Some off \<Rightarrow> minus_minutes tp (sint off) | None \<Rightarrow> Some tp)
      })"

text \<open>The date and the second of the day of a valid time.\<close>

definition tdt_ymd :: "toml_date_time \<Rightarrow> year_month_day" where
  "tdt_ymd t = \<lparr>ymd_year = uint (td_year (tdt_date t)), ymd_month = unat (td_month (tdt_date t)), ymd_day = unat (td_day (tdt_date t))\<rparr>"

definition tdt_seconds :: "toml_date_time \<Rightarrow> int" where
  "tdt_seconds t = 3600 * uint (tt_hour (tdt_time t)) + 60 * uint (tt_minute (tdt_time t)) + uint (tt_second (tdt_time t))"

definition tdt_shift :: "toml_date_time \<Rightarrow> int" where
  "tdt_shift t = (case tdt_offset t of None \<Rightarrow> 0 | Some off \<Rightarrow> sint off)"

text \<open>What toml++ promises of the dates and times of a parsed file.\<close>

definition date_valid :: "toml_date \<Rightarrow> bool" where
  "date_valid td \<longleftrightarrow> unat (td_year td) \<le> 9999
     \<and> ymd_ok \<lparr>ymd_year = uint (td_year td), ymd_month = unat (td_month td), ymd_day = unat (td_day td)\<rparr>"

definition time_valid :: "toml_time \<Rightarrow> bool" where
  "time_valid tt \<longleftrightarrow> unat (tt_hour tt) < 24 \<and> unat (tt_minute tt) < 60 \<and> unat (tt_second tt) < 60
     \<and> unat (tt_nanosecond tt) < 1000000000"

definition date_time_valid :: "toml_date_time \<Rightarrow> bool" where
  "date_time_valid t \<longleftrightarrow> date_valid (tdt_date t) \<and> time_valid (tdt_time t)
     \<and> (case tdt_offset t of None \<Rightarrow> True | Some off \<Rightarrow> \<bar>sint off\<bar> < 1440)"

definition toml_valid :: "'n toml_api \<Rightarrow> bool" where
  "toml_valid api \<longleftrightarrow> (\<forall>n td. tl_as_date api n = Some td \<longrightarrow> date_valid td)
     \<and> (\<forall>n tt. tl_as_time api n = Some tt \<longrightarrow> time_valid tt)
     \<and> (\<forall>n t. tl_as_date_time api n = Some t \<longrightarrow> date_time_valid t)"

text \<open>A small concrete instance of the library: tables of dates, times and date-times.\<close>

datatype demo_toml = D_table "(string \<times> demo_toml) list" | D_date toml_date | D_time toml_time
  | D_date_time toml_date_time | D_int int

definition demo_api :: "string + demo_toml \<Rightarrow> demo_toml toml_api" where
  "demo_api file = \<lparr>tl_get = (\<lambda>n k. case n of D_table t \<Rightarrow> map_of t k | _ \<Rightarrow> None),
     tl_as_date = (\<lambda>n. case n of D_date d \<Rightarrow> if date_valid d then Some d else None | _ \<Rightarrow> None),
     tl_as_time = (\<lambda>n. case n of D_time d \<Rightarrow> if time_valid d then Some d else None | _ \<Rightarrow> None),
     tl_as_date_time = (\<lambda>n. case n of D_date_time d \<Rightarrow> if date_time_valid d then Some d else None | _ \<Rightarrow> None),
     tl_parse_file = (\<lambda>_. file)\<rparr>"

definition demo_date :: toml_date where
  "demo_date = \<lparr>td_year = 1979, td_month = 5, td_day = 27\<rparr>"

definition demo_time :: toml_time where
  "demo_time = \<lparr>tt_hour = 7, tt_minute = 32, tt_second = 0, tt_nanosecond = 0\<rparr>"

definition demo_date_time :: toml_date_time where
  "demo_date_time = \<lparr>tdt_date = demo_date, tdt_time = demo_time, tdt_offset = Some (- 420)\<rparr>"

definition demo_config :: "demo_toml config" where
  "demo_config = \<lparr>config_node = D_table [(''ld1'', D_date demo_date), (''lt1'', D_time demo_time), (''dt1'', D_date_time demo_date_time),
     (''net'', D_table [(''start'', D_date_time demo_date_time)])]\<rparr>"

section \<open>Time points\<close>

lemma demo_valid: "toml_valid (demo_api file)" "date_valid demo_date" "time_valid demo_time" "date_time_valid demo_date_time"
proof -
  show "toml_valid (demo_api file)"
    by (auto simp: toml_valid_def demo_api_def split: demo_toml.splits if_splits)
  show d: "date_valid demo_date" by (simp add: demo_date_def date_valid_def ymd_ok_def last_day_def)
  show t: "time_valid demo_time" by (simp add: demo_time_def time_valid_def)
  show "date_time_valid demo_date_time" using d t by (simp add: demo_date_time_def date_time_valid_def)
qed

lemma ymd_of_valid:
  assumes "date_valid td"
  shows "ymd_of td = \<lparr>ymd_year = uint (td_year td), ymd_month = unat (td_month td), ymd_day = unat (td_day td)\<rparr>"
    "ymd_ok (ymd_of td)"
proof -
  have "uint (td_year td) \<le> 9999" using assms unfolding date_valid_def uint_int_unat by linarith
  then have "sint (td_year td) = uint (td_year td)"
    unfolding sint_uint using order_trans[of "- 32768" 0 "uint (td_year td)"]
    by (intro signed_take_bit_int_eq_self) simp_all
  then show "ymd_of td = \<lparr>ymd_year = uint (td_year td), ymd_month = unat (td_month td), ymd_day = unat (td_day td)\<rparr>"
    by (simp add: ymd_of_def)
  then show "ymd_ok (ymd_of td)" using assms by (simp add: date_valid_def)
qed

lemma hms_of_valid:
  assumes "time_valid tt"
  shows "hms_of tt = \<lparr>hms_hours = uint (tt_hour tt), hms_minutes = uint (tt_minute tt), hms_seconds = uint (tt_second tt)\<rparr>"
proof -
  have "uint (tt_minute tt) < 60" "uint (tt_second tt) < 60"
    using assms unfolding time_valid_def uint_int_unat by linarith+
  then show ?thesis unfolding hms_of_def by (intro hh_mm_ss_roundtrip) auto
qed

lemma systime_unfold:
  "systime_of t = do {
     a \<leftarrow> int64 ((86400 * sys_days (tdt_ymd t) + tdt_seconds t) * 1000000000);
     tp \<leftarrow> int64 (a + uint (tt_nanosecond (tdt_time t)));
     if tdt_offset t = None then Some tp else int64 (tp - tdt_shift t * 60 * 1000000000)
   }"
  by (cases "tdt_offset t")
    (simp_all add: systime_of_def time_point_of_def minus_minutes_def tdt_ymd_def tdt_seconds_def tdt_shift_def hours_def
      minutes_def Let_def)

lemma tdt_bounds:
  assumes "date_time_valid t"
  shows "ymd_ok (tdt_ymd t)" "0 \<le> tdt_seconds t" "tdt_seconds t < 86400" "\<bar>tdt_shift t\<bar> < 1440"
    "0 \<le> uint (tt_nanosecond (tdt_time t))" "uint (tt_nanosecond (tdt_time t)) < 1000000000"
proof -
  have v: "date_valid (tdt_date t)" "time_valid (tdt_time t)" using assms by (simp_all add: date_time_valid_def)
  then show "ymd_ok (tdt_ymd t)" by (simp add: date_valid_def tdt_ymd_def)
  have "uint (tt_hour (tdt_time t)) < 24" "uint (tt_minute (tdt_time t)) < 60" "uint (tt_second (tdt_time t)) < 60"
    "uint (tt_nanosecond (tdt_time t)) < 1000000000"
    using v(2) unfolding time_valid_def uint_int_unat by linarith+
  then show "0 \<le> tdt_seconds t" "tdt_seconds t < 86400" "0 \<le> uint (tt_nanosecond (tdt_time t))"
    "uint (tt_nanosecond (tdt_time t)) < 1000000000"
    by (auto simp: tdt_seconds_def)
  show "\<bar>tdt_shift t\<bar> < 1440" using assms by (simp add: date_time_valid_def tdt_shift_def split: option.splits)
qed

lemma year_days_eval: "year_days 1676 = 612147" "year_days 1677 = 612512" "year_days 2261 = 825813" "year_days 2262 = 826178"
  by (simp_all add: year_days_def)

lemma systime_in_range:
  assumes "date_time_valid t" "1678 \<le> uint (td_year (tdt_date t))" "uint (td_year (tdt_date t)) \<le> 2261"
  shows "systime_of t = Some ((86400 * sys_days (tdt_ymd t) + tdt_seconds t) * 1000000000 + uint (tt_nanosecond (tdt_time t))
    - tdt_shift t * 60 * 1000000000)"
proof -
  note b = tdt_bounds[OF assms(1)] and d = sys_days_bounds[OF tdt_bounds(1)[OF assms(1)]]
  have "year_days 1677 \<le> year_days (uint (td_year (tdt_date t)) - 1)" "year_days (uint (td_year (tdt_date t))) \<le> year_days 2261"
    by (rule year_days_mono; use assms in simp)+
  then have "- 106650 \<le> sys_days (tdt_ymd t)" "sys_days (tdt_ymd t) \<le> 106650"
    using d unfolding year_days_eval tdt_ymd_def by simp_all
  note r = time_in_range[OF this b(2,3,5,6,4)]
  show ?thesis unfolding systime_unfold r(1) Option.bind.simps r(2) r(3) by (simp add: tdt_shift_def)
qed

lemma systime_out_of_range:
  assumes "date_time_valid t" "uint (td_year (tdt_date t)) \<le> 1676 \<or> 2263 \<le> uint (td_year (tdt_date t))"
  shows "systime_of t = None"
proof -
  note b = tdt_bounds[OF assms(1)] and d = sys_days_bounds[OF tdt_bounds(1)[OF assms(1)]]
  have "sys_days (tdt_ymd t) \<le> - 107016 \<or> 107016 \<le> sys_days (tdt_ymd t)"
    using assms(2)
  proof
    assume "uint (td_year (tdt_date t)) \<le> 1676"
    from year_days_mono[OF this] d(2) show ?thesis unfolding year_days_eval tdt_ymd_def by simp
  next
    assume "2263 \<le> uint (td_year (tdt_date t))"
    then have "year_days 2262 \<le> year_days (uint (td_year (tdt_date t)) - 1)" by (intro year_days_mono) simp
    with d(1) show ?thesis unfolding year_days_eval tdt_ymd_def by simp
  qed
  then have "int64 ((86400 * sys_days (tdt_ymd t) + tdt_seconds t) * 1000000000) = None"
    using b(2,3) by (intro int64_None) auto
  then show ?thesis by (simp only: systime_unfold Option.bind.simps)
qed

section \<open>Properties\<close>

text \<open>\<^verbatim>\<open>sys_days\<close> numbers the proleptic Gregorian calendar: the epoch is day 0, the day after any
  valid date is valid and has the next number, so the date \<open>n\<close> days after the epoch has number \<open>n\<close>.\<close>

theorem sys_days_counts:
  "sys_days epoch = 0 \<and> sys_days ((next_day ^^ n) epoch) = int n
    \<and> (\<forall>d. ymd_ok d \<longrightarrow> ymd_ok (next_day d) \<and> sys_days (next_day d) = sys_days d + 1)"
  using sys_days_epoch sys_days_nth[of n] sys_days_next by blast

theorem sys_days_counts_witness:
  "ymd_ok \<lparr>ymd_year = 2024, ymd_month = 2, ymd_day = 29\<rparr>
    \<and> sys_days \<lparr>ymd_year = 2024, ymd_month = 3, ymd_day = 1\<rparr> = sys_days \<lparr>ymd_year = 2024, ymd_month = 2, ymd_day = 29\<rparr> + 1"
proof -
  let ?d = "\<lparr>ymd_year = 2024, ymd_month = 2, ymd_day = 29\<rparr>"
  have "ymd_ok ?d" "next_day ?d = \<lparr>ymd_year = 2024, ymd_month = 3, ymd_day = 1\<rparr>"
    by (simp_all add: ymd_ok_def next_day_def last_day_def is_leap_def)
  then show ?thesis using sys_days_counts[of 0] by metis
qed

text \<open>With a library that only yields valid dates, \<^verbatim>\<open>get_as_date\<close> returns \<^verbatim>\<open>nullopt\<close> exactly for a missing
  key (or table), returns the valid date stored there with the same year, month and day, and is undefined
  exactly when the key holds a value of another type.\<close>

theorem get_as_date_correct:
  assumes "toml_valid api"
  shows "(config_at api c key = None \<longleftrightarrow> get_as_date api c key = Some None)
    \<and> (get_as_date api c key = None \<longleftrightarrow> (\<exists>n. config_at api c key = Some n \<and> tl_as_date api n = None))
    \<and> (\<forall>d. get_as_date api c key = Some (Some d) \<longrightarrow> ymd_ok d
        \<and> (\<exists>n td. config_at api c key = Some n \<and> tl_as_date api n = Some td \<and> ymd_year d = uint (td_year td)
            \<and> ymd_month d = unat (td_month td) \<and> ymd_day d = unat (td_day td)))
    \<and> get_as_date2 api c tab key = (case config_at api c tab of None \<Rightarrow> Some None
        | Some t \<Rightarrow> get_as_date api \<lparr>config_node = t\<rparr> key)"
proof -
  have v: "date_valid td" if "tl_as_date api n = Some td" for n td using assms that by (auto simp: toml_valid_def)
  have "ymd_ok d \<and> (\<exists>n td. config_at api c key = Some n \<and> tl_as_date api n = Some td \<and> ymd_year d = uint (td_year td)
            \<and> ymd_month d = unat (td_month td) \<and> ymd_day d = unat (td_day td))"
    if "get_as_date api c key = Some (Some d)" for d
  proof -
    obtain n td where "config_at api c key = Some n" "tl_as_date api n = Some td" "d = ymd_of td"
      using \<open>get_as_date api c key = Some (Some d)\<close> by (auto simp: get_as_date_def bind_eq_Some_conv split: option.splits)
    then show ?thesis using ymd_of_valid[OF v] by auto
  qed
  then show ?thesis
    by (auto simp: get_as_date_def get_as_date2_def config_at_def config_at2_def bind_eq_None_conv bind_eq_Some_conv split: option.splits)
qed

theorem get_as_date_correct_witness:
  "get_as_date (demo_api (Inl [])) demo_config ''ld1'' \<noteq> Some None"
proof -
  have "config_at (demo_api (Inl [])) demo_config ''ld1'' \<noteq> None"
    by (simp add: config_at_def demo_config_def demo_api_def)
  then show ?thesis using get_as_date_correct[OF demo_valid(1), of "Inl []" demo_config "''ld1''" "[]"] by simp
qed

text \<open>With a library that only yields valid times, \<^verbatim>\<open>get_as_time\<close> returns \<^verbatim>\<open>nullopt\<close> exactly for a missing
  key (or table) and otherwise hours, minutes and seconds of the stored time; sub-second digits are dropped.\<close>

theorem get_as_time_correct:
  assumes "toml_valid api"
  shows "(config_at api c key = None \<longleftrightarrow> get_as_time api c key = Some None)
    \<and> (\<forall>n tt. config_at api c key = Some n \<and> tl_as_time api n = Some tt \<longrightarrow>
        get_as_time api c key = Some (Some \<lparr>hms_hours = uint (tt_hour tt), hms_minutes = uint (tt_minute tt),
          hms_seconds = uint (tt_second tt)\<rparr>))
    \<and> get_as_time2 api c tab key = (case config_at api c tab of None \<Rightarrow> Some None
        | Some t \<Rightarrow> get_as_time api \<lparr>config_node = t\<rparr> key)"
proof -
  have "hms_of tt = \<lparr>hms_hours = uint (tt_hour tt), hms_minutes = uint (tt_minute tt), hms_seconds = uint (tt_second tt)\<rparr>"
    if "tl_as_time api n = Some tt" for n tt
    using assms that by (intro hms_of_valid) (auto simp: toml_valid_def)
  then show ?thesis
    by (auto simp: get_as_time_def get_as_time2_def config_at_def config_at2_def bind_eq_Some_conv split: option.splits)
qed

theorem get_as_time_correct_witness:
  "get_as_time (demo_api (Inl [])) demo_config ''lt1'' = Some (Some \<lparr>hms_hours = 7, hms_minutes = 32, hms_seconds = 0\<rparr>)"
proof -
  have "config_at (demo_api (Inl [])) demo_config ''lt1'' = Some (D_time demo_time)"
    "tl_as_time (demo_api (Inl [])) (D_time demo_time) = Some demo_time"
    using demo_valid(3) by (simp_all add: config_at_def demo_config_def demo_api_def)
  then show ?thesis using get_as_time_correct[OF demo_valid(1)] by (simp add: demo_time_def)
qed

lemma systime_of_decode:
  assumes "date_time_valid t" "1678 \<le> uint (td_year (tdt_date t))" "uint (td_year (tdt_date t)) \<le> 2261"
  defines "l \<equiv> the (systime_of t) + tdt_shift t * 60000000000"
  shows "systime_of t \<noteq> None" "l div 86400000000000 = sys_days (tdt_ymd t)" "l mod 86400000000000 div 1000000000 = tdt_seconds t"
    "l mod 1000000000 = uint (tt_nanosecond (tdt_time t))"
proof -
  note b = tdt_bounds[OF assms(1)] and r = systime_in_range[OF assms(1-3)]
  show "systime_of t \<noteq> None" using r by simp
  have l: "l = (86400 * sys_days (tdt_ymd t) + tdt_seconds t) * 1000000000 + uint (tt_nanosecond (tdt_time t))"
    unfolding l_def r by simp
  note decode = time_decode[OF b(2,3,5,6), of "sys_days (tdt_ymd t)"]
  show "l div 86400000000000 = sys_days (tdt_ymd t)" "l mod 86400000000000 div 1000000000 = tdt_seconds t"
    "l mod 1000000000 = uint (tt_nanosecond (tdt_time t))" unfolding l by (rule decode)+
qed

text \<open>C40. \<^verbatim>\<open>get_as_systime(key)\<close> gives \<^verbatim>\<open>nullopt\<close> for a key that is not in the file and dereferences a null pointer for a value
  that is no date and time. For a date and time of the years 1678 to 2261 it gives the number of
  nanoseconds since 1970 in UTC: adding the zone offset back gives the day number, the second of the
  day and the nanosecond. Before 1677 and from 2263 on, although toml++ accepts such years, the 64-bit
  count overflows, which is undefined. The function of the spike computes the same time point.\<close>

theorem get_as_systime_exact:
  assumes "toml_valid api"
  shows "(tl_get api (config_node c) key = None \<longrightarrow> get_as_systime api c key = Some None)
    \<and> (tl_get api (config_node c) key = Some n \<and> tl_as_date_time api n = None \<longrightarrow> get_as_systime api c key = None)
    \<and> (tl_get api (config_node c) key = Some n \<and> tl_as_date_time api n = Some t \<longrightarrow>
        (1678 \<le> uint (td_year (tdt_date t)) \<and> uint (td_year (tdt_date t)) \<le> 2261 \<longrightarrow>
          (\<exists>tp. get_as_systime api c key = Some (Some tp) \<and> to_chrono_timepoint t = Some tp
            \<and> (tp + tdt_shift t * 60000000000) div 86400000000000 = sys_days (tdt_ymd t)
            \<and> (tp + tdt_shift t * 60000000000) mod 86400000000000 div 1000000000 = tdt_seconds t
            \<and> (tp + tdt_shift t * 60000000000) mod 1000000000 = uint (tt_nanosecond (tdt_time t))))
        \<and> (uint (td_year (tdt_date t)) \<le> 1676 \<or> 2263 \<le> uint (td_year (tdt_date t)) \<longrightarrow>
          get_as_systime api c key = None \<and> to_chrono_timepoint t = None))"
proof -
  have spike: "to_chrono_timepoint t = systime_of t" by (simp add: to_chrono_timepoint_def systime_of_def Let_def)
  have found: "get_as_systime api c key = map_option Some (systime_of t)"
    if "tl_get api (config_node c) key = Some n" "tl_as_date_time api n = Some t"
    using that by (cases "systime_of t") (simp_all add: get_as_systime_def config_at_def)
  have valid: "date_time_valid t" if "tl_as_date_time api n = Some t" using assms that by (auto simp: toml_valid_def)
  have "\<exists>tp. get_as_systime api c key = Some (Some tp) \<and> to_chrono_timepoint t = Some tp
      \<and> (tp + tdt_shift t * 60000000000) div 86400000000000 = sys_days (tdt_ymd t)
      \<and> (tp + tdt_shift t * 60000000000) mod 86400000000000 div 1000000000 = tdt_seconds t
      \<and> (tp + tdt_shift t * 60000000000) mod 1000000000 = uint (tt_nanosecond (tdt_time t))"
    if n: "tl_get api (config_node c) key = Some n" "tl_as_date_time api n = Some t"
      and y: "1678 \<le> uint (td_year (tdt_date t))" "uint (td_year (tdt_date t)) \<le> 2261"
  proof -
    note d = systime_of_decode[OF valid[OF n(2)] y]
    then obtain tp where "systime_of t = Some tp" by blast
    then show ?thesis using d(2-4) found[OF n] spike by (intro exI[of _ tp]) (simp only: option.sel option.map simp_thms)
  qed
  moreover have "get_as_systime api c key = None \<and> to_chrono_timepoint t = None"
    if "tl_get api (config_node c) key = Some n" "tl_as_date_time api n = Some t"
      "uint (td_year (tdt_date t)) \<le> 1676 \<or> 2263 \<le> uint (td_year (tdt_date t))"
    using systime_out_of_range[OF valid[OF that(2)] that(3)] found[OF that(1,2)] spike by simp
  ultimately show ?thesis by (auto simp: get_as_systime_def config_at_def)
qed

theorem get_as_systime_exact_witness:
  "\<exists>tp. get_as_systime (demo_api (Inl [])) demo_config ''dt1'' = Some (Some tp) \<and> (tp - 25200000000000) div 86400000000000 = 3433"
proof -
  have n: "tl_get (demo_api (Inl [])) (config_node demo_config) ''dt1'' = Some (D_date_time demo_date_time)"
    "tl_as_date_time (demo_api (Inl [])) (D_date_time demo_date_time) = Some demo_date_time"
    using demo_valid(4) by (simp_all add: demo_api_def demo_config_def)
  have d: "sys_days (tdt_ymd demo_date_time) = 3433" "tdt_shift demo_date_time = - 420"
    "1678 \<le> uint (td_year (tdt_date demo_date_time)) \<and> uint (td_year (tdt_date demo_date_time)) \<le> 2261"
    by (simp_all add: demo_date_time_def demo_date_def tdt_ymd_def tdt_shift_def sys_days_def year_days_def)
  show ?thesis
    using get_as_systime_exact[OF demo_valid(1), of "Inl []" demo_config "''dt1''" "D_date_time demo_date_time" demo_date_time] n d by auto
qed

text \<open>\<^verbatim>\<open>get_as_systime(table, key)\<close> takes its value from the top level, not from the table: it equals
  \<^verbatim>\<open>get_as_systime(key)\<close> whenever both keys exist, and when the key exists only in the table, as it should,
  the call dereferences a null pointer.\<close>

theorem get_as_systime_table_ignored:
  assumes "config_at2 api c tab key \<noteq> None"
  shows "(config_at api c key = None \<longrightarrow> get_as_systime2 api c tab key = None)
    \<and> (config_at api c key \<noteq> None \<longrightarrow> get_as_systime2 api c tab key = get_as_systime api c key)"
  using assms by (auto simp: get_as_systime2_def get_as_systime_def)

theorem get_as_systime_table_ignored_witness:
  "get_as_systime2 (demo_api (Inl [])) demo_config ''net'' ''start'' = None"
proof -
  have "config_at2 (demo_api (Inl [])) demo_config ''net'' ''start'' \<noteq> None"
    "config_at (demo_api (Inl [])) demo_config ''start'' = None"
    by (simp_all add: config_at_def config_at2_def demo_config_def demo_api_def)
  then show ?thesis
    using get_as_systime_table_ignored[of "demo_api (Inl [])" demo_config "''net''" "''start''"] by simp
qed

text \<open>The constructor parses exactly the system-wide file: it succeeds if and only if that file
  exists and parses, and otherwise throws: the file-system error, \<^verbatim>\<open>unid.toml not found\<close>, or the parse
  error as a \<^verbatim>\<open>std::runtime_error\<close>.\<close>

theorem config_new_outcomes:
  "config_new api exists =
    (case exists ''/etc/unid/unid.toml'' of
       Inl x \<Rightarrow> Inl x
     | Inr False \<Rightarrow> Inl (Runtime_error ''error: unid.toml not found'')
     | Inr True \<Rightarrow> map_sum Runtime_error (\<lambda>t. \<lparr>config_node = t\<rparr>) (tl_parse_file api ''/etc/unid/unid.toml''))"
  by (auto simp: config_new_def config_get_unid_filepath_def config_system_filepath_def split: sum.splits bool.splits)

text \<open>With \<^verbatim>\<open>HOME\<close> set to a non-empty path the spike prefers the file in the home directory, falls
  back to the system file, and throws only when neither exists; without \<^verbatim>\<open>HOME\<close> it is undefined,
  although its comment promises the system file.\<close>

theorem spike_filepath_priority:
  "spike_get_unid_filepath None exists = None
    \<and> (h \<noteq> [] \<longrightarrow> spike_get_unid_filepath (Some h) (\<lambda>p. Inr (ex p)) =
        Some (if ex (h @ ''/.config/unid.toml'') then Inr (h @ ''/.config/unid.toml'')
              else if ex ''/etc/unid/unid.toml'' then Inr ''/etc/unid/unid.toml''
              else Inl (Runtime_error ''Configuration file, unid.toml, not found'')))"
  by (simp add: spike_get_unid_filepath_def Let_def)

theorem spike_filepath_priority_witness:
  "spike_get_unid_filepath (Some ''/root'') (\<lambda>p. Inr (p = ''/etc/unid/unid.toml'')) = Some (Inr ''/etc/unid/unid.toml'')"
  using spike_filepath_priority[of "\<lambda>_. Inr True" "''/root''" "\<lambda>p. p = ''/etc/unid/unid.toml''"] by simp

end
