(* ===== verification/Asio.thy ===== *)
theory Asio
  imports Prelude
begin

text \<open>
  What the main programs do with their \<^verbatim>\<open>io_context\<close> and the thread that runs it. asio is not part of the repository: when
  \<^verbatim>\<open>io_context::run()\<close> returns is a parameter, \<open>returns\<close>, of the state of the context and of whether work is left, and
  \<open>asio_run_ok\<close> is what its documentation says of it.
\<close>

section \<open>Definitions\<close>

text \<open>The work guard, \<^verbatim>\<open>stop()\<close>, and whether the thread has yet to be joined.\<close>

record io_state =
  io_guard :: bool
  io_stopped :: bool
  io_joinable :: bool

text \<open>A context with a work guard and a thread in \<^verbatim>\<open>run()\<close>.\<close>

definition io_started :: io_state where
  "io_started = \<lparr>io_guard = True, io_stopped = False, io_joinable = True\<rparr>"

definition guard_reset :: "io_state \<Rightarrow> io_state" where
  "guard_reset io = io\<lparr>io_guard := False\<rparr>"

definition io_stop :: "io_state \<Rightarrow> io_state" where
  "io_stop io = io\<lparr>io_stopped := True\<rparr>"

text \<open>\<^verbatim>\<open>join()\<close>; \<open>None\<close> if it blocks, because \<^verbatim>\<open>run()\<close> does not return with what is left to do.\<close>

definition join_thread :: "(io_state \<Rightarrow> bool \<Rightarrow> bool) \<Rightarrow> bool \<Rightarrow> io_state \<Rightarrow> io_state option" where
  "join_thread returns work io = (if returns io work then Some (io\<lparr>io_joinable := False\<rparr>) else None)"

text \<open>\<^verbatim>\<open>run()\<close> blocks until the context is stopped or all work, of which a work guard counts as a piece, is finished.\<close>

definition asio_run_ok :: "(io_state \<Rightarrow> bool \<Rightarrow> bool) \<Rightarrow> bool" where
  "asio_run_ok returns \<longleftrightarrow> (\<forall>io work. returns io work \<longleftrightarrow> io_stopped io \<or> \<not> io_guard io \<and> \<not> work)"

definition demo_returns :: "io_state \<Rightarrow> bool \<Rightarrow> bool" where
  "demo_returns io work \<longleftrightarrow> io_stopped io \<or> \<not> io_guard io \<and> \<not> work"

section \<open>Joining\<close>

lemma demo_returns_ok: "asio_run_ok demo_returns"
  by (simp add: asio_run_ok_def demo_returns_def)

lemma io_simps [simp]:
  "io_guard (guard_reset io) = False" "io_stopped (guard_reset io) = io_stopped io" "io_joinable (guard_reset io) = io_joinable io"
  "io_guard (io_stop io) = io_guard io" "io_stopped (io_stop io) = True" "io_joinable (io_stop io) = io_joinable io"
  "io_guard io_started" "\<not> io_stopped io_started" "io_joinable io_started"
  by (simp_all add: guard_reset_def io_stop_def io_started_def)

lemma join_stopped:
  "asio_run_ok returns \<Longrightarrow> io_stopped io \<Longrightarrow> join_thread returns work io = Some (io\<lparr>io_joinable := False\<rparr>)"
  by (simp add: join_thread_def asio_run_ok_def)

lemma join_unstopped:
  "asio_run_ok returns \<Longrightarrow> \<not> io_stopped io \<Longrightarrow> \<not> io_guard io \<Longrightarrow>
   join_thread returns work io = (if work then None else Some (io\<lparr>io_joinable := False\<rparr>))"
  by (simp add: join_thread_def asio_run_ok_def)

end
