(* ===== verification/Startup.thy ===== *)
theory Startup
  imports Udp_Correct Text_Numbers Config Asio
begin

text \<open>
  The entry points \<^verbatim>\<open>server/main.cpp\<close> and \<^verbatim>\<open>client/main.cpp\<close>: from the configuration values to the running
  endpoint, and the shutdown. An exception that leaves \<^verbatim>\<open>main\<close> ends the process; it is the left side of the
  result. The \<^verbatim>\<open>io_context\<close> and its thread are those of \<open>Asio\<close>; what that thread does are the
  actions of \<open>udp_run\<close>, and calls of \<^verbatim>\<open>main\<close> on the pool are taken not to overlap with them. Logging is not modelled.
\<close>

section \<open>Definitions\<close>

text \<open>What \<^verbatim>\<open>config.get_as\<close> returned for the keys that the programs read.\<close>

record startup =
  su_host :: "string option"
  su_service :: "string option"
  su_pool_size :: "size_t option"
  su_chunk_size :: "size_t option"

text \<open>
  The configuration of the programs: the exception of the constructor of \<^verbatim>\<open>Config\<close>, or what \<^verbatim>\<open>get_as\<close> finds for their keys.
\<close>

definition server_config ::
  "'n toml_api \<Rightarrow> (string \<Rightarrow> exn + bool) \<Rightarrow> ('n \<Rightarrow> string \<Rightarrow> 'n option) \<Rightarrow> ('n \<Rightarrow> string option) \<Rightarrow> ('n \<Rightarrow> size_t option)
     \<Rightarrow> exn + startup" where
  "server_config api exists at_path as_string as_size =
     (case config_new api exists of Inl x \<Rightarrow> Inl x | Inr config \<Rightarrow>
        Inr \<lparr>su_host = None,
             su_service = get_as at_path as_string config ''network.server.service'',
             su_pool_size = get_as at_path as_size config ''network.mempool.pool_size'',
             su_chunk_size = get_as at_path as_size config ''network.mempool.chunk_size''\<rparr>)"

definition client_config ::
  "'n toml_api \<Rightarrow> (string \<Rightarrow> exn + bool) \<Rightarrow> ('n \<Rightarrow> string \<Rightarrow> 'n option) \<Rightarrow> ('n \<Rightarrow> string option) \<Rightarrow> ('n \<Rightarrow> size_t option)
     \<Rightarrow> exn + startup" where
  "client_config api exists at_path as_string as_size =
     (case config_new api exists of Inl x \<Rightarrow> Inl x | Inr config \<Rightarrow>
        Inr \<lparr>su_host = get_as at_path as_string config ''network.client.host'',
             su_service = get_as at_path as_string config ''network.client.service'',
             su_pool_size = get_as at_path as_size config ''network.mempool.pool_size'',
             su_chunk_size = get_as at_path as_size config ''network.mempool.chunk_size''\<rparr>)"

text \<open>\<^verbatim>\<open>std::optional::value\<close>.\<close>

definition optional_value :: "'a option \<Rightarrow> exn + 'a" where
  "optional_value x = (case x of None \<Rightarrow> Inl Bad_optional_access | Some v \<Rightarrow> Inr v)"

text \<open>\<^verbatim>\<open>(short)std::stoi(...)\<close>, which \<^verbatim>\<open>udp::endpoint\<close> takes as an unsigned 16-bit port.\<close>

definition service_port :: "string \<Rightarrow> exn + u16" where
  "service_port s = (case stoi s of Inl x \<Rightarrow> Inl x | Inr n \<Rightarrow> Inr (of_int n))"

text \<open>
  \<^verbatim>\<open>main\<close> of the server up to the running server. \<open>config\<close> is the exception of the constructor of \<^verbatim>\<open>Config\<close> or
  the values; \<open>bound\<close> is asio's opening and binding of the socket on a port.
\<close>

definition server_start ::
  "ext_funcs \<Rightarrow> heap \<Rightarrow> console \<Rightarrow> exn + startup \<Rightarrow> (u16 \<Rightarrow> exn + endpoint)
     \<Rightarrow> (exn + mempool \<times> io_state \<times> udp) option" where
  "server_start e h cout config bound =
     (case config of Inl x \<Rightarrow> Some (Inl x) | Inr su \<Rightarrow>
     (case optional_value (su_pool_size su) of Inl x \<Rightarrow> Some (Inl x) | Inr pool_size \<Rightarrow>
     (case optional_value (su_chunk_size su) of Inl x \<Rightarrow> Some (Inl x) | Inr chunk_size \<Rightarrow> do {
        (r, h) \<leftarrow> mempool_new e h pool_size chunk_size;
        case r of Inl x \<Rightarrow> Some (Inl x) | Inr mp \<Rightarrow>
       (case optional_value (su_service su) of Inl x \<Rightarrow> Some (Inl x) | Inr service \<Rightarrow>
       (case service_port service of Inl x \<Rightarrow> Some (Inl x) | Inr port \<Rightarrow> do {
          s \<leftarrow> server_new mp h cout (bound port);
          Some (case s of Inl x \<Rightarrow> Inl x | Inr u \<Rightarrow> Inr (mp, io_started, u))
        }))
     })))"

text \<open>
  The end of \<^verbatim>\<open>main\<close>, from the state of the endpoint in which the network thread leaves it: the guard is reset, the context is
  stopped and the thread is joined, which may block. A thread that is still joinable when it is destroyed terminates the program.
  The operations still outstanding are dropped with the context, and the pool is destroyed last.
\<close>

datatype 'a main_end = Blocked | Terminate | Ended 'a

definition server_stop :: "(io_state \<Rightarrow> bool \<Rightarrow> bool) \<Rightarrow> ext_funcs \<Rightarrow> mempool \<Rightarrow> io_state \<Rightarrow> udp \<Rightarrow> heap main_end option" where
  "server_stop returns e mp io u =
     (let io = guard_reset io;
          io = io_stop io
      in case (if io_joinable io then join_thread returns (u_pending u \<noteq> []) io else Some io) of
           None \<Rightarrow> Some Blocked
         | Some io \<Rightarrow>
             if io_joinable io then Some Terminate
             else do {
               h \<leftarrow> mempool_delete e (u_heap u) mp;
               Some (Ended h)
             })"

text \<open>\<^verbatim>\<open>main\<close> of the client up to the running client; \<open>show_address\<close> is asio's text of an address.\<close>

definition client_start ::
  "ext_funcs \<Rightarrow> heap \<Rightarrow> console \<Rightarrow> exn + startup \<Rightarrow> size_t option \<Rightarrow> (string \<Rightarrow> string \<Rightarrow> exn + endpoint list) \<Rightarrow> exn option
     \<Rightarrow> (u32 \<Rightarrow> string) \<Rightarrow> (exn + mempool \<times> io_state \<times> udp) option" where
  "client_start e h cout config uninit resolve opened show_address =
     (case config of Inl x \<Rightarrow> Some (Inl x) | Inr su \<Rightarrow>
     (case optional_value (su_pool_size su) of Inl x \<Rightarrow> Some (Inl x) | Inr pool_size \<Rightarrow>
     (case optional_value (su_chunk_size su) of Inl x \<Rightarrow> Some (Inl x) | Inr chunk_size \<Rightarrow> do {
        (r, h) \<leftarrow> mempool_new e h pool_size chunk_size;
        case r of Inl x \<Rightarrow> Some (Inl x) | Inr mp \<Rightarrow>
       (case optional_value (su_host su) of Inl x \<Rightarrow> Some (Inl x) | Inr host \<Rightarrow>
       (case optional_value (su_service su) of Inl x \<Rightarrow> Some (Inl x) | Inr service \<Rightarrow> do {
          c \<leftarrow> client_new mp h cout uninit (resolve host service) opened;
          Some (case c of Inl x \<Rightarrow> Inl x | Inr u \<Rightarrow>
            let u = u_put (''Remote_port:  '' @ show_num (u_cout u) (unat (get_remote_port u)) @ ''\<newline>'') u;
                u = u_put (''Remote_address: '' @ show_address (fst (u_remote u)) @ ''\<newline>'') u
            in Inr (mp, io_started, u))
        }))
     })))"

text \<open>The first send of \<^verbatim>\<open>main\<close>: a chunk is allocated, five bytes are stored, and the chunk is handed over.\<close>

definition client_first_send :: "mempool \<Rightarrow> udp \<Rightarrow> (exn + udp) option" where
  "client_first_send mp u = do {
     (r, h) \<leftarrow> mempool_alloc (u_heap u) mp;
     case r of
       Inl x \<Rightarrow> Some (Inl x)
     | Inr chunk \<Rightarrow> do {
         h \<leftarrow> store_buffer h chunk [1, 2, 3, 4, 5];
         Some (Inr (client_async_send (u\<lparr>u_heap := h\<rparr>) chunk 5))
       }
   }"

definition client_stop :: "(io_state \<Rightarrow> bool \<Rightarrow> bool) \<Rightarrow> ext_funcs \<Rightarrow> mempool \<Rightarrow> io_state \<Rightarrow> udp \<Rightarrow> heap main_end option" where
  "client_stop returns e mp io u =
     (let io = guard_reset io;
          io = io_stop io
      in case (if io_joinable io then join_thread returns (u_pending u \<noteq> []) io else Some io) of
           None \<Rightarrow> Some Blocked
         | Some io \<Rightarrow>
             if io_joinable io then Some Terminate
             else do {
               h \<leftarrow> mempool_delete e (u_heap u) mp;
               Some (Ended h)
             })"

section \<open>Running and stopping\<close>

lemma server_start_cases:
  assumes "ext_ok e" "heap_wf h0" "su_pool_size su = Some ps" "su_chunk_size su = Some cs" "ps \<noteq> 0" "cs \<noteq> 0"
    "unat cs + 7 < 2 ^ 64" "unat ps * unat (align2boundary cs sizeof_ptr) < 2 ^ 64"
  shows "(\<exists>x. server_start e h0 cout (Inr su) bound = Some (Inl x))
    \<or> (\<exists>mp u s port. server_start e h0 cout (Inr su) bound = Some (Inr (mp, io_started, u)) \<and> udp_rep h0 mp {} u \<and> armed u = 1
        \<and> su_service su = Some s \<and> service_port s = Inr port \<and> bound port = Inr (u_remote u))"
proof (cases rule: mempool_new_cases[OF assms(1,2,5-8), case_names throws ok])
  case (throws h)
  then show ?thesis by (simp add: server_start_def optional_value_def assms(3,4))
next
  case (ok mp h)
  have "mempool_rep h0 mp h (Suc (unat ps - 1)) {}" using ok(5) assms(5) by (simp add: unat_gt_0)
  note new = server_new_rep[OF this, of cout]
  show ?thesis
  proof (cases "su_service su")
    case (Some s)
    show ?thesis
    proof (cases "service_port s")
      case (Inr port)
      show ?thesis
      proof (cases "bound port")
        case (Inl x)
        with \<open>service_port s = Inr port\<close> ok(1) Some show ?thesis
          by (simp add: server_start_def optional_value_def assms(3,4) server_new_def)
      next
        case (Inr ep)
        obtain u where u: "server_new mp h cout (Inr ep) = Some (Inr u)" "udp_rep h0 mp {} u" "armed u = 1" "u_remote u = ep"
          using new[of ep] by blast
        then have "server_start e h0 cout (Inr su) bound = Some (Inr (mp, io_started, u))"
          using Inr \<open>service_port s = Inr port\<close> ok(1) Some by (simp add: server_start_def optional_value_def assms(3,4))
        with u Inr Some \<open>service_port s = Inr port\<close> show ?thesis by blast
      qed
    qed (use ok(1) Some in \<open>simp add: server_start_def optional_value_def assms(3,4)\<close>)
  qed (use ok(1) in \<open>simp add: server_start_def optional_value_def assms(3,4)\<close>)
qed

lemma udp_rep_put [simp]: "udp_rep h0 mp L (u_put s u) = udp_rep h0 mp L u" "armed (u_put s u) = armed u"
  by (simp_all add: udp_rep_def pending_chunks_def armed_def)

lemma client_start_new:
  assumes "mempool_new e h0 ps cs = Some (Inr mp, h)" "su_pool_size su = Some ps" "su_chunk_size su = Some cs"
    "mempool_rep h0 mp h (Suc n) {}" "unat garbage \<le> unat (mp_chunk_sz mp)" "\<And>host service. resolve host service \<noteq> Inr []"
  shows "(\<exists>x. client_start e h0 cout (Inr su) (Some garbage) resolve opened sa = Some (Inl x))
    \<or> (\<exists>u. client_start e h0 cout (Inr su) (Some garbage) resolve opened sa = Some (Inr (mp, io_started, u)) \<and> udp_rep h0 mp {} u \<and> armed u = 1)"
proof (cases "su_host su = None \<or> su_service su = None")
  case True
  then show ?thesis using assms(1-3) by (auto simp: client_start_def optional_value_def split: option.split)
next
  case False
  then obtain host service where hs: "su_host su = Some host" "su_service su = Some service" by auto
  let ?new = "client_new mp h cout (Some garbage) (resolve host service) opened"
  consider x where "?new = Some (Inl x)" | u where "?new = Some (Inr u)" "udp_rep h0 mp {} u" "armed u = 1"
  proof (cases "resolve host service")
    case (Inl x)
    then show thesis using that(1) mempool_stats_rep[OF assms(4)] by (simp add: client_new_def)
  next
    case (Inr eps)
    then obtain ep eps' where eps: "resolve host service = Inr (ep # eps')" using assms(6) by (cases eps) auto
    show thesis
    proof (cases opened)
      case None
      then show thesis using that(2) client_new_rep[OF assms(4,5), of cout ep eps'] eps by auto
    next
      case (Some x)
      then show thesis using that(1) mempool_stats_rep[OF assms(4)] eps by (simp add: client_new_def)
    qed
  qed
  then show ?thesis using assms(1-3) hs by cases (simp_all add: client_start_def optional_value_def Let_def)
qed

lemma client_first_send_action:
  "client_first_send mp u = map_option (\<lambda>(r, u'). case r of Inl x \<Rightarrow> Inl x | Inr _ \<Rightarrow> Inr u')
     (run_action mp (client_receive_handler mp) (client_send_handler mp) client_async_send u (App_send [1, 2, 3, 4, 5]))"
  by (auto simp: client_first_send_def split: sum.split Option.bind_split)

lemma client_first_send_cases:
  assumes "udp_rep h0 mp {} u" "5 \<le> unat (mp_chunk_sz mp)"
  shows "(\<exists>x. client_first_send mp u = Some (Inl x))
    \<or> (\<exists>u' q. client_first_send mp u = Some (Inr u') \<and> udp_rep h0 mp {} u' \<and> armed u' = armed u \<and> u_remote u' = u_remote u
        \<and> u_pending u' = u_pending u @ [Send q 5 (u_remote u)]
        \<and> (\<forall>i < 5. bytes (u_heap u') (q + of_nat i) = [1, 2, 3, 4, 5] ! i))"
  using client.app_send[OF assms(1), of "[1, 2, 3, 4, 5]"] assms(2)
  by (auto simp: client_first_send_action armed_def simp del: run_action.simps)

lemma stop_rep:
  assumes "ext_ok e" "asio_run_ok returns" "udp_rep h0 mp L u"
  shows "\<exists>h'. server_stop returns e mp io_started u = Some (Ended h') \<and> live h' = live h0 \<and> undisturbed h0 h'"
    "\<exists>h'. client_stop returns e mp io_started u = Some (Ended h') \<and> live h' = live h0 \<and> undisturbed h0 h'"
proof -
  obtain h' where "mempool_delete e (u_heap u) mp = Some h'" "live h' = live h0" "undisturbed h0 h'"
    using assms(3) mempool_delete_rep[OF assms(1)] unfolding udp_rep_def by blast
  then show "\<exists>h'. server_stop returns e mp io_started u = Some (Ended h') \<and> live h' = live h0 \<and> undisturbed h0 h'"
    "\<exists>h'. client_stop returns e mp io_started u = Some (Ended h') \<and> live h' = live h0 \<and> undisturbed h0 h'"
    by (simp_all add: server_stop_def client_stop_def join_stopped[OF assms(2)])
qed

section \<open>Properties\<close>

text \<open>\<^verbatim>\<open>std::stoi\<close> inverts the printing of every 32-bit integer, so a service given as a number is that port for
  0 to 65535; but a larger number is not rejected: the cast to \<^verbatim>\<open>short\<close> silently binds it modulo 65536.\<close>

theorem service_port_wraps:
  assumes "0 \<le> n" "n < 2 ^ 31"
  shows "stoi (show_int n) = Inr n \<and> (\<exists>port. service_port (show_int n) = Inr port \<and> uint port = n mod 65536)"
  using stoi_show[of n] assms by (simp add: service_port_def uint_word_of_int)

theorem service_port_wraps_witness:
  "\<exists>port. service_port (show_int 70000) = Inr port \<and> uint port = 4464"
  using service_port_wraps[of 70000] by auto

text \<open>C22. With a configured pool and chunk size, neither zero and their product without overflow, the server program is never
  undefined: it ends with an exception, or it runs with its one receive outstanding on the endpoint bound for the configured
  service. After any activity, whatever is outstanding or was lost by failed operations, the shutdown completes, because the
  context is stopped before the thread is joined: \<^verbatim>\<open>join()\<close> does not block, the thread is not destroyed unjoined, all memory is
  given back and the rest is untouched.\<close>

theorem server_main_correct:
  assumes "ext_ok e" "heap_wf h0" "su_pool_size su = Some ps" "su_chunk_size su = Some cs" "ps \<noteq> 0" "cs \<noteq> 0"
    "unat cs + 7 < 2 ^ 64" "unat ps * unat (align2boundary cs sizeof_ptr) < 2 ^ 64" "asio_run_ok returns"
  shows "(\<exists>x. server_start e h0 cout (Inr su) bound = Some (Inl x))
    \<or> (\<exists>mp io u s port. server_start e h0 cout (Inr su) bound = Some (Inr (mp, io, u)) \<and> armed u = 1
        \<and> su_service su = Some s \<and> service_port s = Inr port \<and> bound port = Inr (u_remote u)
        \<and> (\<forall>acts u'. udp_run mp (server_receive_handler mp) (server_send_handler mp) server_async_send u acts u' \<longrightarrow>
            (\<exists>h'. server_stop returns e mp io u' = Some (Ended h') \<and> live h' = live h0 \<and> undisturbed h0 h')))"
proof -
  have "\<exists>h'. server_stop returns e mp io_started u' = Some (Ended h') \<and> live h' = live h0 \<and> undisturbed h0 h'"
    if "udp_rep h0 mp {} u" "udp_run mp (server_receive_handler mp) (server_send_handler mp) server_async_send u acts u'"
    for mp u acts u'
    using server.run_rep[OF that(2,1)] stop_rep(1)[OF assms(1,9)] by blast
  with server_start_cases[OF assms(1-8), of cout bound] show ?thesis by blast
qed

theorem server_main_correct_witness:
  "\<exists>mp io u. server_start (bump_ext 4096) empty_heap demo_console
      (Inr \<lparr>su_host = None, su_service = Some ''9000'', su_pool_size = Some 3, su_chunk_size = Some 10\<rparr>) (\<lambda>p. Inr (1, p)) = Some (Inr (mp, io, u))
    \<and> armed u = 1 \<and> u_remote u = (1, 9000)"
proof -
  let ?su = "\<lparr>su_host = None, su_service = Some ''9000'', su_pool_size = Some 3, su_chunk_size = Some 10\<rparr>"
  have port: "service_port ''9000'' = Inr 9000"
    by (simp add: service_port_def stoi_def digits_value_def digit_value_def is_digit_def is_space_def)
  have start: "server_start (bump_ext 4096) empty_heap demo_console (Inr ?su) (\<lambda>p. Inr (1, p)) = Some (Inr (demo_mp, io_started, demo_udp))"
    using port by (simp add: server_start_def optional_value_def demo_mp_new demo_server_new)
  have "armed demo_udp = 1" "u_remote demo_udp = (1, 9000)"
    using server_main_correct[OF demo_ext_ok demo_wf(1), of ?su 3 10 demo_returns 4096 demo_console "\<lambda>p. Inr (1, p)"]
    unfolding start by (simp_all add: demo_csz port demo_returns_ok)
  with start show ?thesis by blast
qed

text \<open>C23. The constructor of the client reads its never initialised receive size, which is undefined. Where an implementation
  gives a value there that does not exceed the chunk size, with chunks of at least five bytes, sizes whose product does not overflow
  and a resolver that never returns an empty list, and as long as calls of \<^verbatim>\<open>main\<close> do not overlap a handler: the client
  program ends with an exception, or it runs with one receive outstanding and has handed over the five bytes 1 to 5 addressed to its
  remote endpoint; and after any further activity its shutdown completes without blocking and gives back all memory.\<close>

theorem client_main_correct:
  assumes "ext_ok e" "heap_wf h0" "su_pool_size su = Some ps" "su_chunk_size su = Some cs" "ps \<noteq> 0" "5 \<le> unat cs"
    "unat cs + 7 < 2 ^ 64" "unat ps * unat (align2boundary cs sizeof_ptr) < 2 ^ 64" "unat garbage \<le> unat cs"
    "\<And>host service. resolve host service \<noteq> Inr []" "asio_run_ok returns"
  shows "(\<exists>x. client_start e h0 cout (Inr su) (Some garbage) resolve opened sa = Some (Inl x))
    \<or> (\<exists>mp io u. client_start e h0 cout (Inr su) (Some garbage) resolve opened sa = Some (Inr (mp, io, u)) \<and> armed u = 1
      \<and> ((\<exists>x. client_first_send mp u = Some (Inl x))
        \<or> (\<exists>u1 q. client_first_send mp u = Some (Inr u1) \<and> armed u1 = 1 \<and> last (u_pending u1) = Send q 5 (u_remote u)
            \<and> (\<forall>i < 5. bytes (u_heap u1) (q + of_nat i) = [1, 2, 3, 4, 5] ! i)
            \<and> (\<forall>acts u'. udp_run mp (client_receive_handler mp) (client_send_handler mp) client_async_send u1 acts u' \<longrightarrow>
                (\<exists>h'. client_stop returns e mp io u' = Some (Ended h') \<and> live h' = live h0 \<and> undisturbed h0 h')))))"
proof -
  have "cs \<noteq> 0" using assms(6) by auto
  have stop: "\<exists>h'. client_stop returns e mp io_started u' = Some (Ended h') \<and> live h' = live h0 \<and> undisturbed h0 h'"
    if "udp_rep h0 mp {} u" "udp_run mp (client_receive_handler mp) (client_send_handler mp) client_async_send u acts u'"
    for mp u acts u'
    using client.run_rep[OF that(2,1)] stop_rep(2)[OF assms(1,11)] by blast
  show ?thesis
  proof (cases rule: mempool_new_cases[OF assms(1,2,5) \<open>cs \<noteq> 0\<close> assms(7,8), case_names throws ok])
    case (throws h)
    then show ?thesis by (simp add: client_start_def optional_value_def assms(3,4))
  next
    case (ok mp h)
    have "mempool_rep h0 mp h (Suc (unat ps - 1)) {}" using ok(5) assms(5) by (simp add: unat_gt_0)
    from client_start_new[OF ok(1) assms(3,4) this, of garbage resolve cout opened sa] assms(9,10) ok(2)
    consider "\<exists>x. client_start e h0 cout (Inr su) (Some garbage) resolve opened sa = Some (Inl x)"
      | u where "client_start e h0 cout (Inr su) (Some garbage) resolve opened sa = Some (Inr (mp, io_started, u))" "udp_rep h0 mp {} u" "armed u = 1"
      by auto
    then show ?thesis
    proof cases
      case (2 u)
      have "5 \<le> unat (mp_chunk_sz mp)" using assms(6) ok(2) by simp
      from client_first_send_cases[OF 2(2) this] 2 stop show ?thesis by (metis last_snoc)
    qed blast
  qed
qed

theorem client_main_correct_witness:
  "\<exists>mp io u. client_start (bump_ext 4096) empty_heap demo_console
      (Inr \<lparr>su_host = Some ''h'', su_service = Some ''9000'', su_pool_size = Some 3, su_chunk_size = Some 10\<rparr>) (Some 10)
      (\<lambda>_ _. Inr [(1, 9000)]) None (\<lambda>_. ''1'') = Some (Inr (mp, io, u)) \<and> armed u = 1"
proof -
  let ?su = "\<lparr>su_host = Some ''h'', su_service = Some ''9000'', su_pool_size = Some 3, su_chunk_size = Some 10\<rparr>"
  have start: "\<exists>u. client_start (bump_ext 4096) empty_heap demo_console (Inr ?su) (Some 10) (\<lambda>_ _. Inr [(1, 9000)]) None (\<lambda>_. ''1'')
      = Some (Inr (demo_mp, io_started, u))"
    by (simp add: client_start_def optional_value_def demo_mp_new demo_client_new Let_def)
  then show ?thesis
    using client_main_correct[OF demo_ext_ok demo_wf(1), of ?su 3 10 10 "\<lambda>_ _. Inr [(1, 9000)]" demo_returns 4096 demo_console None "\<lambda>_. ''1''"]
    by (auto simp: demo_csz demo_returns_ok)
qed

text \<open>The errors of the configuration end the programs before they touch the network: without the file, or with one
  that does not parse, they end with a runtime error; without the pool or chunk size with
  \<^verbatim>\<open>std::bad_optional_access\<close>, and no memory has been allocated.\<close>

theorem startup_config_errors:
  "(exists ''/etc/unid/unid.toml'' = Inr False \<longrightarrow>
      server_start e h c (server_config api exists at_path as_string as_size) bound = Some (Inl (Runtime_error ''error: unid.toml not found''))
      \<and> client_start e h c (client_config api exists at_path as_string as_size) g res opn sa
          = Some (Inl (Runtime_error ''error: unid.toml not found'')))
   \<and> (exists ''/etc/unid/unid.toml'' = Inr True \<and> tl_parse_file api ''/etc/unid/unid.toml'' = Inl err \<longrightarrow>
      server_start e h c (server_config api exists at_path as_string as_size) bound = Some (Inl (Runtime_error err))
      \<and> client_start e h c (client_config api exists at_path as_string as_size) g res opn sa = Some (Inl (Runtime_error err)))
   \<and> (exists ''/etc/unid/unid.toml'' = Inr True \<and> tl_parse_file api ''/etc/unid/unid.toml'' = Inr t
       \<and> (at_path t ''network.mempool.pool_size'' = None \<or> at_path t ''network.mempool.chunk_size'' = None) \<longrightarrow>
      server_start e h c (server_config api exists at_path as_string as_size) bound = Some (Inl Bad_optional_access)
      \<and> client_start e h c (client_config api exists at_path as_string as_size) g res opn sa = Some (Inl Bad_optional_access))"
  by (auto simp: server_start_def client_start_def server_config_def client_config_def config_new_def config_get_unid_filepath_def
      config_system_filepath_def get_as_def optional_value_def split: option.split)

theorem startup_config_errors_witness:
  "server_start (bump_ext 4096) empty_heap demo_console
     (server_config (demo_api (Inl [])) (\<lambda>_. Inr False) (\<lambda>_ _. None) (\<lambda>_. None) (\<lambda>_. None)) (\<lambda>p. Inr (0, p))
     = Some (Inl (Runtime_error ''error: unid.toml not found''))"
  using startup_config_errors[where exists = "\<lambda>_. Inr False" and e = "bump_ext 4096" and h = empty_heap and c = demo_console
      and api = "demo_api (Inl [])" and at_path = "\<lambda>_ _. None" and as_string = "\<lambda>_. None" and as_size = "\<lambda>_. None" and bound = "\<lambda>p. Inr (0, p)"]
  by simp

end
