(* ===== verification/Utility.thy ===== *)
theory Utility
  imports Text_Numbers
begin

text \<open>
  \<^verbatim>\<open>Utility::get_environment_variable\<close> of \<^verbatim>\<open>common/include/common/utility.hpp\<close>. The environment is an argument; the
  template's conversion \<^verbatim>\<open>ss >> value\<close> is \<open>extract\<close>, instantiated for the two types the tests use, \<^verbatim>\<open>std::string\<close> and \<^verbatim>\<open>int\<close>.
\<close>

section \<open>Definitions\<close>

definition get_environment_variable :: "(string \<Rightarrow> 'a option) \<Rightarrow> (string \<rightharpoonup> string) \<Rightarrow> string \<Rightarrow> 'a \<Rightarrow> 'a" where
  "get_environment_variable extract getenv key default_value =
     (case getenv key of
       None \<Rightarrow> default_value
     | Some raw_value \<Rightarrow> (case extract raw_value of None \<Rightarrow> default_value | Some value \<Rightarrow> value))"

definition get_environment_string :: "(string \<rightharpoonup> string) \<Rightarrow> string \<Rightarrow> string \<Rightarrow> string" where
  "get_environment_string = get_environment_variable extract_string"

definition get_environment_int :: "(string \<rightharpoonup> string) \<Rightarrow> string \<Rightarrow> int \<Rightarrow> int" where
  "get_environment_int = get_environment_variable extract_int"

section \<open>Properties\<close>

text \<open>A string variable reads as its first word: a value without blanks as it is, a value with blanks cut at
  the first blank after the word, and an unset, empty or blank variable as the default.\<close>

theorem environment_string_first_word:
  assumes "list_all is_space a" "w \<noteq> []" "list_all (\<lambda>c. \<not> is_space c) w" "b = [] \<or> is_space (hd b)"
  shows "get_environment_string (getenv(key \<mapsto> a @ w @ b)) key d = w
    \<and> get_environment_string (getenv(key \<mapsto> a)) key d = d \<and> get_environment_string (getenv(key := None)) key d = d"
  using extract_string_word[OF assms] extract_string_blank[OF assms(1)]
  by (simp add: get_environment_string_def get_environment_variable_def)

theorem environment_string_first_word_witness:
  "get_environment_string [''HOME'' \<mapsto> ''/home/Ann Lee''] ''HOME'' ''Not home'' = ''/home/Ann''"
  using environment_string_first_word[where a = "[]" and w = "''/home/Ann''" and b = "'' Lee''" and getenv = Map.empty
      and key = "''HOME''" and d = "''Not home''"] by (simp add: is_space_def)

text \<open>An integer variable that holds a printed 32-bit integer reads as that integer; one that does not start with a
  number, or whose number does not fit 32 bits, reads as the default.\<close>

theorem environment_int_roundtrip:
  assumes "- (2 ^ 31) \<le> i" "i < 2 ^ 31"
  shows "get_environment_int (getenv(key \<mapsto> show_int i)) key d = i
    \<and> (stoi raw = Inl x \<longrightarrow> get_environment_int (getenv(key \<mapsto> raw)) key d = d)"
  using extract_int_show[OF assms] by (simp add: get_environment_int_def get_environment_variable_def extract_int_stoi)

theorem environment_int_roundtrip_witness:
  "get_environment_int [''HISTSIZE'' \<mapsto> show_int 1000] ''HISTSIZE'' 1234 = 1000"
  using environment_int_roundtrip[of 1000 Map.empty "''HISTSIZE''" 1234] by simp

end
