(* ===== verification/Fifo.thy ===== *)
theory Fifo
  imports Prelude
begin

text \<open>
  Bounded first-in first-out queues: the list specification, the interface locale that the
  ring buffers of \<^verbatim>\<open>spike/\<close> implement, and the arithmetic of a ring of slots.
\<close>

section \<open>Definitions\<close>

datatype 'a qop = Push 'a | Pop

datatype 'b qres = Pushed | Full | Popped 'b | Empty

text \<open>The specification: a list of at most \<open>cap\<close> elements; \<open>out\<close> is what a caller of pop sees of one.\<close>

fun list_step :: "('a \<Rightarrow> 'b) \<Rightarrow> nat \<Rightarrow> 'a list \<Rightarrow> 'a qop \<Rightarrow> 'b qres \<times> 'a list" where
  "list_step out cap xs (Push x) = (if length xs < cap then (Pushed, xs @ [x]) else (Full, xs))"
| "list_step out cap [] Pop = (Empty, [])"
| "list_step out cap (x # xs) Pop = (Popped (out x), xs)"

fun list_run :: "('a \<Rightarrow> 'b) \<Rightarrow> nat \<Rightarrow> 'a list \<Rightarrow> 'a qop list \<Rightarrow> 'b qres list \<times> 'a list" where
  "list_run out cap xs [] = ([], xs)"
| "list_run out cap xs (op # ops) =
     (let (r, xs) = list_step out cap xs op; (rs, xs) = list_run out cap xs ops in (r # rs, xs))"

text \<open>Running the operations of an implementation; \<open>None\<close> is undefined behaviour.\<close>

fun run_ops :: "('s \<Rightarrow> 'a qop \<Rightarrow> ('b qres \<times> 's) option) \<Rightarrow> 's \<Rightarrow> 'a qop list \<Rightarrow> ('b qres list \<times> 's) option" where
  "run_ops step s [] = Some ([], s)"
| "run_ops step s (op # ops) = do {
     (r, s) \<leftarrow> step s op;
     (rs, s) \<leftarrow> run_ops step s ops;
     Some (r # rs, s)
   }"

text \<open>The values whose push succeeded and the values popped, in order.\<close>

fun accepted :: "'a qop list \<Rightarrow> 'b qres list \<Rightarrow> 'a list" where
  "accepted (Push x # ops) (Pushed # rs) = x # accepted ops rs"
| "accepted (op # ops) (r # rs) = accepted ops rs"
| "accepted ops rs = []"

fun popped :: "'b qres list \<Rightarrow> 'b list" where
  "popped [] = []"
| "popped (Popped y # rs) = y # popped rs"
| "popped (r # rs) = popped rs"

text \<open>The \<open>n\<close> elements of a ring of slots from slot \<open>s\<close> on, and the number of slots from \<open>r\<close> to \<open>w\<close>.\<close>

definition ring_list :: "'a list \<Rightarrow> nat \<Rightarrow> nat \<Rightarrow> 'a list" where
  "ring_list d s n = map (\<lambda>i. d ! ((s + i) mod length d)) [0..<n]"

definition ring_count :: "nat \<Rightarrow> nat \<Rightarrow> nat \<Rightarrow> nat" where
  "ring_count cap r w = (w + cap - r) mod cap"

section \<open>The interface\<close>

locale bounded_fifo =
  fixes step :: "'s \<Rightarrow> 'a qop \<Rightarrow> ('b qres \<times> 's) option"
    and inv :: "'s \<Rightarrow> bool" and abs :: "'s \<Rightarrow> 'a list" and out :: "'a \<Rightarrow> 'b" and cap :: "'s \<Rightarrow> nat"
  assumes step_refines: "inv s \<Longrightarrow> \<exists>s'. step s op = Some (fst (list_step out (cap s) (abs s) op), s')
      \<and> inv s' \<and> abs s' = snd (list_step out (cap s) (abs s) op) \<and> cap s' = cap s"
    and abs_bounded: "inv s \<Longrightarrow> length (abs s) \<le> cap s"
begin

text \<open>Any sequence of operations is defined and returns what the list queue returns.\<close>

lemma run_refines:
  assumes "inv s"
  shows "\<exists>s'. run_ops step s ops = Some (fst (list_run out (cap s) (abs s) ops), s')
    \<and> inv s' \<and> abs s' = snd (list_run out (cap s) (abs s) ops) \<and> cap s' = cap s"
  using assms
proof (induction ops arbitrary: s)
  case (Cons op ops)
  obtain s1 where s1: "step s op = Some (fst (list_step out (cap s) (abs s) op), s1)" "inv s1"
    "abs s1 = snd (list_step out (cap s) (abs s) op)" "cap s1 = cap s"
    using step_refines[OF Cons.prems] by blast
  obtain s2 where "run_ops step s1 ops = Some (fst (list_run out (cap s1) (abs s1) ops), s2)" "inv s2"
    "abs s2 = snd (list_run out (cap s1) (abs s1) ops)" "cap s2 = cap s1"
    using Cons.IH[OF s1(2)] by blast
  with s1 show ?case by (auto simp: Let_def split: prod.split)
qed simp

end

section \<open>Properties of the list specification\<close>

text \<open>First in, first out: what comes out is what went in, in the same order, and the rest is still there.\<close>

lemma list_run_fifo:
  "list_run out cap xs ops = (rs, ys) \<Longrightarrow>
   map out (xs @ accepted ops rs) = popped rs @ map out ys"
proof (induction ops arbitrary: xs rs)
  case (Cons op ops)
  obtain r zs where st: "list_step out cap xs op = (r, zs)" by (cases "list_step out cap xs op")
  with Cons.prems obtain rs' where rs: "rs = r # rs'" "list_run out cap zs ops = (rs', ys)"
    by (auto simp: Let_def split: prod.splits)
  have IH: "map out (zs @ accepted ops rs') = popped rs' @ map out ys" by (rule Cons.IH[OF rs(2)])
  show ?case
  proof (cases op)
    case (Push x)
    with st IH rs(1) show ?thesis by (cases "length xs < cap") auto
  next
    case Pop
    with st IH rs(1) show ?thesis by (cases xs) auto
  qed
qed simp

lemma list_run_rest:
  "list_run out cap xs ops = (rs, ys) \<Longrightarrow> ys = drop (length (popped rs)) (xs @ accepted ops rs)"
proof (induction ops arbitrary: xs rs)
  case (Cons op ops)
  obtain r zs where st: "list_step out cap xs op = (r, zs)" by (cases "list_step out cap xs op")
  with Cons.prems obtain rs' where rs: "rs = r # rs'" "list_run out cap zs ops = (rs', ys)"
    by (auto simp: Let_def split: prod.splits)
  have IH: "ys = drop (length (popped rs')) (zs @ accepted ops rs')" by (rule Cons.IH[OF rs(2)])
  show ?case
  proof (cases op)
    case (Push x)
    with st IH rs(1) show ?thesis by (cases "length xs < cap") (auto simp del: drop_append)
  next
    case Pop
    with st IH rs(1) show ?thesis by (cases xs) auto
  qed
qed simp

lemma list_run_length: "length xs \<le> cap \<Longrightarrow> length (snd (list_run out cap xs ops)) \<le> cap"
proof (induction ops arbitrary: xs)
  case (Cons op ops)
  have "length (snd (list_step out cap xs op)) \<le> cap"
    using Cons.prems by (cases op; cases xs) auto
  from Cons.IH[OF this] show ?case by (simp add: Let_def case_prod_beta)
qed simp

section \<open>Rings\<close>

lemma length_ring_list [simp]: "length (ring_list d s n) = n"
  by (simp add: ring_list_def)

lemma ring_mod: "s < c \<Longrightarrow> i < c \<Longrightarrow> (s + i) mod c = (if s + i < c then s + i else s + i - c)" for s i c :: nat
  by (auto simp: mod_if)

lemma ring_mod_inj: "s < c \<Longrightarrow> i < c \<Longrightarrow> j < c \<Longrightarrow> (s + i) mod c = (s + j) mod c \<Longrightarrow> i = j" for s i j c :: nat
  by (auto simp: ring_mod split: if_splits)

lemma ring_list_push:
  assumes "s < length d" "n < length d"
  shows "ring_list (d[(s + n) mod length d := x]) s (Suc n) = ring_list d s n @ [x]"
proof -
  have "d[(s + n) mod length d := x] ! ((s + i) mod length d) = d ! ((s + i) mod length d)" if "i < n" for i
  proof -
    have "(s + n) mod length d \<noteq> (s + i) mod length d"
      using ring_mod_inj[OF assms(1), of i n] that assms(2) by auto
    then show ?thesis by (rule nth_list_update_neq)
  qed
  moreover have "(s + n) mod length d < length d" using assms(1) by (intro mod_less_divisor) linarith
  ultimately show ?thesis by (simp add: ring_list_def)
qed

lemma ring_list_pop:
  assumes "s < length d" "0 < n"
  shows "ring_list d s n = d ! s # ring_list d (Suc s mod length d) (n - 1)"
proof -
  obtain m where n: "n = Suc m" using assms(2) by (cases n) auto
  have "(Suc s mod length d + i) mod length d = (s + Suc i) mod length d" for i
    by (simp add: mod_add_left_eq)
  then show ?thesis using assms(1) unfolding n ring_list_def
    by (simp add: upt_conv_Cons map_Suc_upt[symmetric] comp_def del: upt_Suc)
qed

lemma ring_count_eq:
  "r < cap \<Longrightarrow> w < cap \<Longrightarrow> ring_count cap r w = (if r \<le> w then w - r else w + cap - r)"
  by (auto simp: ring_count_def mod_if)

lemma Suc_mod: "w < cap \<Longrightarrow> Suc w mod cap = (if Suc w = cap then 0 else Suc w)" for w cap :: nat
  by (auto simp: mod_if)

lemma ring_count_laws:
  assumes "r < cap" "w < cap"
  shows "ring_count cap r w < cap" "(r + ring_count cap r w) mod cap = w"
    "ring_count cap r w = 0 \<longleftrightarrow> r = w"
    "Suc w mod cap = r \<longleftrightarrow> ring_count cap r w = cap - 1"
    "Suc w mod cap \<noteq> r \<Longrightarrow> ring_count cap r (Suc w mod cap) = Suc (ring_count cap r w)"
    "r \<noteq> w \<Longrightarrow> ring_count cap (Suc r mod cap) w = ring_count cap r w - 1"
  using assms by (auto simp: ring_count_eq Suc_mod ring_mod mod_if split: if_splits)

end
