(* ===== verification/Circular_Queue.thy ===== *)
theory Circular_Queue
  imports Fifo
begin

text \<open>
  The class \<^verbatim>\<open>Circular_queue\<close> of \<^verbatim>\<open>spike/circular_queue.cpp\<close>: a ring of \<^verbatim>\<open>uint64_t\<close> with 32-bit
  signed indices and an element count. Signed overflow, a division by zero and an index
  outside the array are \<open>None\<close>. \<^verbatim>\<open>dequeue\<close> drops the front element without returning it, so as
  a \<open>bounded_fifo\<close> its output is \<open>()\<close>.
\<close>

section \<open>Definitions\<close>

record circular_queue =
  cq_front :: int
  cq_rear :: int
  cq_capacity :: int
  cq_size :: int
  cq_arr :: "u64 list"
  cq_cout :: string

text \<open>\<^verbatim>\<open>%\<close> of signed integers.\<close>

definition rem32 :: "int \<Rightarrow> int \<Rightarrow> int option" where
  "rem32 x y = (if y = 0 then None else Some (sgn x * (\<bar>x\<bar> mod \<bar>y\<bar>)))"

text \<open>
  The constructor: \<^verbatim>\<open>capacity = k\<close> converts to signed, and \<^verbatim>\<open>new[]\<close> rejects a negative size. The
  elements are not initialised; \<open>garbage\<close> is what they hold.
\<close>

definition cq_new :: "(nat \<Rightarrow> u64) \<Rightarrow> u32 \<Rightarrow> exn + circular_queue" where
  "cq_new garbage k =
     (let capacity = sint k in
      if capacity < 0 then Inl Bad_array_new_length
      else Inr \<lparr>cq_front = 0, cq_rear = -1, cq_capacity = capacity, cq_size = 0,
        cq_arr = map garbage [0..<nat capacity], cq_cout = []\<rparr>)"

definition cq_is_empty :: "circular_queue \<Rightarrow> bool" where
  "cq_is_empty q \<longleftrightarrow> cq_size q = 0"

definition cq_is_full :: "circular_queue \<Rightarrow> bool" where
  "cq_is_full q \<longleftrightarrow> cq_size q = cq_capacity q"

definition cq_enqueue :: "circular_queue \<Rightarrow> u64 \<Rightarrow> (bool \<times> circular_queue) option" where
  "cq_enqueue q v =
     (if cq_is_full q then Some (False, q\<lparr>cq_cout := cq_cout q @ ''Queue is full.\<newline>''\<rparr>)
      else do {
        r \<leftarrow> int32 (cq_rear q + 1);
        rear \<leftarrow> rem32 r (cq_capacity q);
        size \<leftarrow> int32 (cq_size q + 1);
        if 0 \<le> rear \<and> rear < int (length (cq_arr q))
        then Some (True, q\<lparr>cq_rear := rear, cq_arr := (cq_arr q)[nat rear := v], cq_size := size\<rparr>)
        else None
      })"

definition cq_dequeue :: "circular_queue \<Rightarrow> (bool \<times> circular_queue) option" where
  "cq_dequeue q =
     (if cq_is_empty q then Some (False, q\<lparr>cq_cout := cq_cout q @ ''Queue is empty.\<newline>''\<rparr>)
      else do {
        f \<leftarrow> int32 (cq_front q + 1);
        front \<leftarrow> rem32 f (cq_capacity q);
        size \<leftarrow> int32 (cq_size q - 1);
        Some (True, q\<lparr>cq_front := front, cq_size := size\<rparr>)
      })"

definition cq_report :: "string \<Rightarrow> circular_queue \<Rightarrow> circular_queue" where
  "cq_report msg q = q\<lparr>cq_cout := cq_cout q @ msg @ ''\<newline>    capacity: '' @ show_int (cq_capacity q)
     @ ''\<newline>    size: '' @ show_int (cq_size q)
     @ ''\<newline>    is_empty(): '' @ (if cq_is_empty q then ''True'' else ''False'')
     @ ''\<newline>    is_full(): '' @ (if cq_is_full q then ''True'' else ''False'')
     @ ''\<newline>-----------------------\<newline>''\<rparr>"

text \<open>The loops of \<^verbatim>\<open>main\<close> and \<^verbatim>\<open>main\<close> itself, which returns the final queue.\<close>

fun cq_enqueue_loop :: "nat \<Rightarrow> nat \<Rightarrow> circular_queue \<Rightarrow> circular_queue option" where
  "cq_enqueue_loop i 0 q = Some q"
| "cq_enqueue_loop i (Suc n) q = do {
     (_, q) \<leftarrow> cq_enqueue q (of_nat i);
     cq_enqueue_loop (Suc i) n q
   }"

fun cq_dequeue_loop :: "nat \<Rightarrow> circular_queue \<Rightarrow> circular_queue option" where
  "cq_dequeue_loop 0 q = Some q"
| "cq_dequeue_loop (Suc n) q = do {
     (_, q) \<leftarrow> cq_dequeue q;
     cq_dequeue_loop n q
   }"

definition cq_main :: "(nat \<Rightarrow> u64) \<Rightarrow> (exn + circular_queue) option" where
  "cq_main garbage =
     (case cq_new garbage 1024 of
       Inl x \<Rightarrow> Some (Inl x)
     | Inr q \<Rightarrow> do {
         let q = cq_report ''1. Queue initialized'' q;
         q \<leftarrow> cq_enqueue_loop 0 1024 q;
         let q = cq_report ''2. Queue filled'' q;
         q \<leftarrow> cq_dequeue_loop 1024 q;
         let q = cq_report ''3. Queue emptied'' q;
         q \<leftarrow> cq_enqueue_loop 0 512 q;
         let q = cq_report ''4. Queue half filled'' q;
         Some (Inr q)
       })"

text \<open>The operations in the form of the queue interface.\<close>

fun cq_step :: "circular_queue \<Rightarrow> u64 qop \<Rightarrow> (unit qres \<times> circular_queue) option" where
  "cq_step q (Push v) = map_option (\<lambda>(b, q). (if b then Pushed else Full, q)) (cq_enqueue q v)"
| "cq_step q Pop = map_option (\<lambda>(b, q). (if b then Popped () else Empty, q)) (cq_dequeue q)"

definition cq_inv :: "circular_queue \<Rightarrow> bool" where
  "cq_inv q \<longleftrightarrow> cq_capacity q < 2 ^ 31 \<and> cq_capacity q = int (length (cq_arr q))
     \<and> 0 \<le> cq_front q \<and> (cq_front q < cq_capacity q \<or> cq_capacity q = 0)
     \<and> -1 \<le> cq_rear q \<and> (cq_rear q < cq_capacity q)
     \<and> 0 \<le> cq_size q \<and> cq_size q \<le> cq_capacity q
     \<and> (cq_rear q + 1) mod cq_capacity q = (cq_front q + cq_size q) mod cq_capacity q"

definition cq_abs :: "circular_queue \<Rightarrow> u64 list" where
  "cq_abs q = ring_list (cq_arr q) (nat (cq_front q)) (nat (cq_size q))"

definition cq_room :: "circular_queue \<Rightarrow> nat" where
  "cq_room q = nat (cq_capacity q)"

section \<open>Refinement of the list queue\<close>

lemma rem32_mod: "0 \<le> x \<Longrightarrow> 0 < y \<Longrightarrow> rem32 x y = Some (x mod y)"
  by (simp add: rem32_def sgn_if)

lemma cq_report_simps [simp]:
  "cq_front (cq_report msg q) = cq_front q" "cq_rear (cq_report msg q) = cq_rear q"
  "cq_capacity (cq_report msg q) = cq_capacity q" "cq_size (cq_report msg q) = cq_size q"
  "cq_arr (cq_report msg q) = cq_arr q" "cq_inv (cq_report msg q) = cq_inv q"
  "cq_abs (cq_report msg q) = cq_abs q"
  by (simp_all add: cq_report_def cq_inv_def cq_abs_def)

lemma cq_enqueue_full:
  "cq_inv q \<Longrightarrow> cq_size q = cq_capacity q \<Longrightarrow>
   cq_enqueue q v = Some (False, q\<lparr>cq_cout := cq_cout q @ ''Queue is full.\<newline>''\<rparr>)"
  by (simp add: cq_enqueue_def cq_is_full_def)

lemma cq_enqueue_room:
  assumes inv: "cq_inv q" and room: "cq_size q < cq_capacity q"
  shows "\<exists>q'. cq_enqueue q v = Some (True, q') \<and> cq_inv q' \<and> cq_abs q' = cq_abs q @ [v] \<and> cq_room q' = cq_room q
    \<and> cq_size q' = cq_size q + 1 \<and> cq_capacity q' = cq_capacity q \<and> cq_cout q' = cq_cout q"
proof -
  let ?c = "cq_capacity q" and ?r = "(cq_rear q + 1) mod cq_capacity q"
  have c: "0 < ?c" "?c < 2 ^ 31" "?c = int (length (cq_arr q))" "0 \<le> cq_size q" using inv room by (auto simp: cq_inv_def)
  have f: "0 \<le> cq_front q" "cq_front q < ?c" and r0: "0 \<le> cq_rear q + 1" "cq_rear q + 1 < 2 ^ 31"
    and rear: "?r = (cq_front q + cq_size q) mod ?c" using inv c by (auto simp: cq_inv_def)
  have r: "0 \<le> ?r" "?r < ?c" using c(1) by simp_all
  let ?q = "q\<lparr>cq_rear := ?r, cq_arr := (cq_arr q)[nat ?r := v], cq_size := cq_size q + 1\<rparr>"
  have enq: "cq_enqueue q v = Some (True, ?q)"
    using room c r r0 by (simp add: cq_enqueue_def cq_is_full_def int32_def rem32_mod)
  have "(?r + 1) mod ?c = (cq_front q + (cq_size q + 1)) mod ?c"
    unfolding rear by (simp add: mod_add_left_eq add.assoc)
  moreover have "- 1 \<le> (cq_front q + cq_size q) mod ?c" using r(1) rear by linarith
  ultimately have "cq_inv ?q" using inv room c r by (simp add: cq_inv_def)
  moreover have "cq_abs ?q = cq_abs q @ [v]"
  proof -
    have "nat ?r = (nat (cq_front q) + nat (cq_size q)) mod length (cq_arr q)"
      unfolding rear using f(1) c(3,4) by (simp add: nat_mod_distrib nat_add_distrib)
    moreover have "nat (cq_front q) < length (cq_arr q)" "nat (cq_size q) < length (cq_arr q)"
      using f(2) room c by auto
    moreover have "nat (cq_size q + 1) = Suc (nat (cq_size q))" using c(4) by simp
    ultimately show ?thesis by (simp add: cq_abs_def ring_list_push)
  qed
  ultimately show ?thesis using enq by (auto simp: cq_room_def)
qed

lemma cq_dequeue_some:
  assumes inv: "cq_inv q" and some: "cq_size q \<noteq> 0"
  shows "\<exists>q'. cq_dequeue q = Some (True, q') \<and> cq_inv q' \<and> cq_abs q = hd (cq_abs q) # cq_abs q' \<and> cq_room q' = cq_room q
    \<and> cq_size q' = cq_size q - 1 \<and> cq_capacity q' = cq_capacity q \<and> cq_cout q' = cq_cout q"
proof -
  let ?c = "cq_capacity q" and ?f = "(cq_front q + 1) mod cq_capacity q"
  have c: "0 < ?c" "?c < 2 ^ 31" "?c = int (length (cq_arr q))" "0 < cq_size q" "cq_size q \<le> ?c"
    using inv some by (auto simp: cq_inv_def)
  have f: "0 \<le> cq_front q" "cq_front q < ?c"
    and rear: "(cq_rear q + 1) mod ?c = (cq_front q + cq_size q) mod ?c" using inv c by (auto simp: cq_inv_def)
  have r: "0 \<le> ?f" "?f < ?c" using c(1) by simp_all
  let ?q = "q\<lparr>cq_front := ?f, cq_size := cq_size q - 1\<rparr>"
  have "cq_dequeue q = Some (True, ?q)"
    using some c f by (simp add: cq_dequeue_def cq_is_empty_def int32_def rem32_mod)
  moreover have "(?f + (cq_size q - 1)) mod ?c = (cq_front q + cq_size q) mod ?c"
    by (simp add: mod_add_left_eq)
  then have "cq_inv ?q" using inv c r rear by (simp add: cq_inv_def)
  moreover have "cq_abs q = cq_arr q ! nat (cq_front q) # cq_abs ?q"
  proof -
    have "nat ?f = Suc (nat (cq_front q)) mod length (cq_arr q)"
      using f(1) c(3) by (simp add: nat_mod_distrib nat_add_distrib)
    moreover have "nat (cq_front q) < length (cq_arr q)" "0 < nat (cq_size q)" using f c by auto
    moreover have "nat (cq_size q - 1) = nat (cq_size q) - 1" using c(4) by simp
    ultimately show ?thesis by (simp add: cq_abs_def ring_list_pop)
  qed
  ultimately show ?thesis by (intro exI[of _ ?q]) (simp add: cq_room_def)
qed

interpretation circular: bounded_fifo cq_step cq_inv cq_abs "\<lambda>_. ()" cq_room
proof
  show "length (cq_abs q) \<le> cq_room q" if "cq_inv q" for q
    using that by (auto simp: cq_abs_def cq_room_def cq_inv_def)
  fix q and op :: "u64 qop" assume inv: "cq_inv q"
  have len: "length (cq_abs q) = nat (cq_size q)" by (simp add: cq_abs_def)
  have room: "length (cq_abs q) < cq_room q \<longleftrightarrow> cq_size q < cq_capacity q"
    using inv by (auto simp: len cq_room_def cq_inv_def)
  have upd: "cq_inv (q\<lparr>cq_cout := s\<rparr>) = cq_inv q" "cq_abs (q\<lparr>cq_cout := s\<rparr>) = cq_abs q"
    "cq_room (q\<lparr>cq_cout := s\<rparr>) = cq_room q" for s
    by (simp_all add: cq_inv_def cq_abs_def cq_room_def)
  show "\<exists>q'. cq_step q op = Some (fst (list_step (\<lambda>_. ()) (cq_room q) (cq_abs q) op), q')
      \<and> cq_inv q' \<and> cq_abs q' = snd (list_step (\<lambda>_. ()) (cq_room q) (cq_abs q) op) \<and> cq_room q' = cq_room q"
  proof (cases op)
    case (Push v)
    show ?thesis
    proof (cases "cq_size q < cq_capacity q")
      case True
      then show ?thesis using cq_enqueue_room[OF inv True, of v] room Push by auto
    next
      case False
      with inv have "cq_size q = cq_capacity q" by (simp add: cq_inv_def)
      with cq_enqueue_full[OF inv this, of v] False room Push inv upd show ?thesis by simp
    qed
  next
    case Pop
    show ?thesis
    proof (cases "cq_size q = 0")
      case True
      then have "cq_abs q = []" using len by simp
      with True Pop inv upd show ?thesis by (simp add: cq_dequeue_def cq_is_empty_def)
    next
      case False
      from cq_dequeue_some[OF inv this] obtain q' where q': "cq_dequeue q = Some (True, q')" "cq_inv q'"
        "cq_abs q = hd (cq_abs q) # cq_abs q'" "cq_room q' = cq_room q" by blast
      obtain x where "cq_abs q = x # cq_abs q'" using q'(3) by blast
      with q' Pop show ?thesis by simp
    qed
  qed
qed

lemma cq_new_ok:
  assumes "unat k < 2 ^ 31"
  shows "\<exists>q. cq_new garbage k = Inr q \<and> cq_inv q \<and> cq_abs q = [] \<and> cq_room q = unat k"
proof -
  have "nat (uint k) < 2147483648" using assms unfolding nat_uint_eq by simp
  then have lt: "uint k < 2147483648" by linarith
  have "sint k = uint k" unfolding sint_uint
    by (rule signed_take_bit_int_eq_self) (use lt in \<open>simp_all add: order_trans[of _ 0]\<close>)
  then show ?thesis using lt
    by (simp add: cq_new_def Let_def cq_inv_def cq_abs_def cq_room_def ring_list_def)
       (use uint_ge_0[of k] in linarith)
qed

section \<open>The loops of main\<close>

lemma cq_enqueue_loop_ok:
  "cq_inv q \<Longrightarrow> cq_size q + int n \<le> cq_capacity q \<Longrightarrow>
   \<exists>q'. cq_enqueue_loop i n q = Some q' \<and> cq_inv q' \<and> cq_size q' = cq_size q + int n
     \<and> cq_capacity q' = cq_capacity q \<and> cq_cout q' = cq_cout q
     \<and> cq_abs q' = cq_abs q @ map of_nat [i..<i + n]"
proof (induction n arbitrary: i q)
  case (Suc n)
  have "cq_size q < cq_capacity q" using Suc.prems(2) by simp
  then obtain q1 where q1: "cq_enqueue q (of_nat i) = Some (True, q1)" "cq_inv q1" "cq_size q1 = cq_size q + 1"
    "cq_capacity q1 = cq_capacity q" "cq_cout q1 = cq_cout q" "cq_abs q1 = cq_abs q @ [of_nat i]"
    using cq_enqueue_room[OF Suc.prems(1)] by blast
  have "cq_size q1 + int n \<le> cq_capacity q1" using q1 Suc.prems(2) by simp
  moreover have "[i..<i + Suc n] = i # [Suc i..<Suc i + n]" by (simp add: upt_conv_Cons del: upt_Suc)
  ultimately show ?case using Suc.IH[OF q1(2), of "Suc i"] q1 by (auto simp del: upt_Suc)
qed simp

lemma cq_dequeue_loop_ok:
  "cq_inv q \<Longrightarrow> int n \<le> cq_size q \<Longrightarrow>
   \<exists>q'. cq_dequeue_loop n q = Some q' \<and> cq_inv q' \<and> cq_size q' = cq_size q - int n
     \<and> cq_capacity q' = cq_capacity q \<and> cq_cout q' = cq_cout q"
proof (induction n arbitrary: q)
  case (Suc n)
  have "cq_size q \<noteq> 0" using Suc.prems(2) by simp
  then obtain q1 where q1: "cq_dequeue q = Some (True, q1)" "cq_inv q1" "cq_size q1 = cq_size q - 1"
    "cq_capacity q1 = cq_capacity q" "cq_cout q1 = cq_cout q"
    using cq_dequeue_some[OF Suc.prems(1)] by blast
  have "int n \<le> cq_size q1" using q1 Suc.prems(2) by simp
  from Suc.IH[OF q1(2) this] q1 show ?case by auto
qed simp

section \<open>Properties\<close>

text \<open>Every sequence of enqueues and dequeues on a queue of at most \<open>2^31 - 1\<close> elements is free of
  undefined behaviour, returns exactly what a list of that many elements returns (an enqueue
  fails iff the queue is full, a dequeue iff it is empty), and the elements leave in the order
  they entered.\<close>

theorem circular_queue_fifo:
  assumes "unat k < 2 ^ 31"
  shows "\<exists>q rs q'. cq_new garbage k = Inr q \<and> run_ops cq_step q ops = Some (rs, q')
    \<and> (rs, cq_abs q') = list_run (\<lambda>_. ()) (unat k) [] ops
    \<and> cq_abs q' = drop (length (popped rs)) (accepted ops rs) \<and> length (cq_abs q') \<le> unat k"
proof -
  obtain q where q: "cq_new garbage k = Inr q" "cq_inv q" "cq_abs q = []" "cq_room q = unat k"
    using cq_new_ok[OF assms] by blast
  obtain q' where q': "run_ops cq_step q ops = Some (fst (list_run (\<lambda>_. ()) (unat k) [] ops), q')"
    "cq_abs q' = snd (list_run (\<lambda>_. ()) (unat k) [] ops)"
    using circular.run_refines[OF q(2), of ops] q(3,4) by auto
  obtain rs ys where run: "list_run (\<lambda>_. ()) (unat k) [] ops = (rs, ys)" by fastforce
  with list_run_rest[OF run] list_run_length[of "[]" "unat k" "\<lambda>_. ()" ops] q q' show ?thesis by auto
qed

theorem circular_queue_fifo_witness:
  "\<exists>q rs q'. cq_new (\<lambda>_. 0) 2 = Inr q
    \<and> run_ops cq_step q [Push 5, Push 6, Push 7, Pop, Push 8] = Some (rs, q')
    \<and> rs = [Pushed, Pushed, Full, Popped (), Pushed] \<and> cq_abs q' = [6, 8]"
  using circular_queue_fifo[of 2 "\<lambda>_. 0" "[Push 5, Push 6, Push 7, Pop, Push 8]"]
  by (auto simp del: run_ops.simps)

text \<open>The demonstration program runs to the end without error, and its four reports show a
  queue of 1024 elements that is empty, full, empty again and half full.\<close>

theorem circular_main_reports:
  "\<exists>q. cq_main garbage = Some (Inr q) \<and> cq_abs q = map of_nat [0..<512]
    \<and> cq_cout q =
      ''1. Queue initialized\<newline>    capacity: 1024\<newline>    size: 0\<newline>    is_empty(): True\<newline>    is_full(): False\<newline>-----------------------\<newline>''
    @ ''2. Queue filled\<newline>    capacity: 1024\<newline>    size: 1024\<newline>    is_empty(): False\<newline>    is_full(): True\<newline>-----------------------\<newline>''
    @ ''3. Queue emptied\<newline>    capacity: 1024\<newline>    size: 0\<newline>    is_empty(): True\<newline>    is_full(): False\<newline>-----------------------\<newline>''
    @ ''4. Queue half filled\<newline>    capacity: 1024\<newline>    size: 512\<newline>    is_empty(): False\<newline>    is_full(): False\<newline>-----------------------\<newline>''"
proof -
  have show_num: "show_int 1024 = ''1024''" "show_int 512 = ''512''" "show_int 0 = ''0''"
    by (simp_all add: show_int_def show_base.simps hex_digit_def)
  obtain q where q: "cq_new garbage 1024 = Inr q" "cq_inv q" "cq_abs q = []"
    using cq_new_ok[of 1024 garbage] by auto
  then have q0: "cq_capacity q = 1024" "cq_size q = 0" "cq_cout q = []" by (auto simp: cq_new_def Let_def)
  let ?r1 = "cq_report ''1. Queue initialized'' q"
  obtain q1 where q1: "cq_enqueue_loop 0 1024 ?r1 = Some q1" "cq_inv q1" "cq_size q1 = 1024"
    "cq_capacity q1 = 1024" "cq_cout q1 = cq_cout ?r1"
    using cq_enqueue_loop_ok[of ?r1 1024 0] q q0 by auto
  let ?r2 = "cq_report ''2. Queue filled'' q1"
  obtain q2 where q2: "cq_dequeue_loop 1024 ?r2 = Some q2" "cq_inv q2" "cq_size q2 = 0"
    "cq_capacity q2 = 1024" "cq_cout q2 = cq_cout ?r2"
    using cq_dequeue_loop_ok[of ?r2 1024] q1 by auto
  let ?r3 = "cq_report ''3. Queue emptied'' q2"
  have e: "cq_abs ?r3 = []" using q2(3) by (simp add: cq_abs_def ring_list_def)
  obtain q3 where q3: "cq_enqueue_loop 0 512 ?r3 = Some q3" "cq_size q3 = 512"
    "cq_capacity q3 = 1024" "cq_cout q3 = cq_cout ?r3" "cq_abs q3 = map of_nat [0..<512]"
    using cq_enqueue_loop_ok[of ?r3 512 0] q2 e by auto
  have "cq_main garbage = Some (Inr (cq_report ''4. Queue half filled'' q3))"
    using q(1) q1(1) q2(1) q3(1) by (simp add: cq_main_def Let_def)
  then show ?thesis using q0 q1 q2 q3
    by (auto simp: cq_report_def cq_is_empty_def cq_is_full_def show_num cq_abs_def)
qed

end
