(* ===== verification/Ringbuffer.thy ===== *)
theory Ringbuffer
  imports Fifo
begin

text \<open>
  The single-producer single-consumer ring buffers \<^verbatim>\<open>ringbuffer\<close> and \<^verbatim>\<open>ringbuffer2\<close> of
  \<^verbatim>\<open>spike/ipc_ringbuffer.cpp\<close>, each operation run to completion. \<^verbatim>\<open>ringbuffer2\<close> keeps stale copies
  of the other side's index; the theory shows that it nevertheless behaves exactly like
  \<^verbatim>\<open>ringbuffer\<close>.
\<close>

section \<open>Definitions\<close>

record ringbuffer =
  rb_data :: "int list"
  rb_readIdx :: size_t
  rb_writeIdx :: size_t

definition rb_new :: "size_t \<Rightarrow> ringbuffer" where
  "rb_new capacity = \<lparr>rb_data = replicate (unat capacity) 0, rb_readIdx = 0, rb_writeIdx = 0\<rparr>"

definition rb_push :: "ringbuffer \<Rightarrow> int \<Rightarrow> (bool \<times> ringbuffer) option" where
  "rb_push b val =
     (let writeIdx = rb_writeIdx b;
          nextWriteIdx = writeIdx + 1;
          nextWriteIdx = (if nextWriteIdx = of_nat (length (rb_data b)) then 0 else nextWriteIdx)
      in if nextWriteIdx = rb_readIdx b then Some (False, b)
         else if unat writeIdx < length (rb_data b)
         then Some (True, b\<lparr>rb_data := (rb_data b)[unat writeIdx := val], rb_writeIdx := nextWriteIdx\<rparr>)
         else None)"

text \<open>\<^verbatim>\<open>bool pop(int &val)\<close>: the value written through \<^verbatim>\<open>val\<close> when it returns true.\<close>

definition rb_pop :: "ringbuffer \<Rightarrow> (int option \<times> ringbuffer) option" where
  "rb_pop b =
     (let readIdx = rb_readIdx b
      in if readIdx = rb_writeIdx b then Some (None, b)
         else if unat readIdx < length (rb_data b)
         then let val = rb_data b ! unat readIdx;
                  nextReadIdx = readIdx + 1;
                  nextReadIdx = (if nextReadIdx = of_nat (length (rb_data b)) then 0 else nextReadIdx)
              in Some (Some val, b\<lparr>rb_readIdx := nextReadIdx\<rparr>)
         else None)"

record ringbuffer2 = ringbuffer +
  rb_writeIdxCached :: size_t
  rb_readIdxCached :: size_t

definition rb2_new :: "size_t \<Rightarrow> ringbuffer2" where
  "rb2_new capacity = \<lparr>rb_data = replicate (unat capacity) 0, rb_readIdx = 0, rb_writeIdx = 0,
     rb_writeIdxCached = 0, rb_readIdxCached = 0\<rparr>"

definition rb2_push :: "ringbuffer2 \<Rightarrow> int \<Rightarrow> (bool \<times> ringbuffer2) option" where
  "rb2_push b val =
     (let writeIdx = rb_writeIdx b;
          nextWriteIdx = writeIdx + 1;
          nextWriteIdx = (if nextWriteIdx = of_nat (length (rb_data b)) then 0 else nextWriteIdx);
          b = (if nextWriteIdx = rb_readIdxCached b then b\<lparr>rb_readIdxCached := rb_readIdx b\<rparr> else b)
      in if nextWriteIdx = rb_readIdxCached b then Some (False, b)
         else if unat writeIdx < length (rb_data b)
         then Some (True, b\<lparr>rb_data := (rb_data b)[unat writeIdx := val], rb_writeIdx := nextWriteIdx\<rparr>)
         else None)"

definition rb2_pop :: "ringbuffer2 \<Rightarrow> (int option \<times> ringbuffer2) option" where
  "rb2_pop b =
     (let readIdx = rb_readIdx b;
          b = (if readIdx = rb_writeIdxCached b then b\<lparr>rb_writeIdxCached := rb_writeIdx b\<rparr> else b)
      in if readIdx = rb_writeIdxCached b then Some (None, b)
         else if unat readIdx < length (rb_data b)
         then let val = rb_data b ! unat readIdx;
                  nextReadIdx = readIdx + 1;
                  nextReadIdx = (if nextReadIdx = of_nat (length (rb_data b)) then 0 else nextReadIdx)
              in Some (Some val, b\<lparr>rb_readIdx := nextReadIdx\<rparr>)
         else None)"

text \<open>The operations in the form of the queue interface.\<close>

fun rb_step :: "ringbuffer \<Rightarrow> int qop \<Rightarrow> (int qres \<times> ringbuffer) option" where
  "rb_step b (Push v) = map_option (\<lambda>(ok, b). (if ok then Pushed else Full, b)) (rb_push b v)"
| "rb_step b Pop = map_option (\<lambda>(r, b). (case r of None \<Rightarrow> Empty | Some v \<Rightarrow> Popped v, b)) (rb_pop b)"

fun rb2_step :: "ringbuffer2 \<Rightarrow> int qop \<Rightarrow> (int qres \<times> ringbuffer2) option" where
  "rb2_step b (Push v) = map_option (\<lambda>(ok, b). (if ok then Pushed else Full, b)) (rb2_push b v)"
| "rb2_step b Pop = map_option (\<lambda>(r, b). (case r of None \<Rightarrow> Empty | Some v \<Rightarrow> Popped v, b)) (rb2_pop b)"

text \<open>The slot after slot \<open>i\<close>, as all four functions compute it.\<close>

definition next_idx :: "'a ringbuffer_scheme \<Rightarrow> size_t \<Rightarrow> size_t" where
  "next_idx b i = (if i + 1 = of_nat (length (rb_data b)) then 0 else i + 1)"

definition rb_ok :: "'a ringbuffer_scheme \<Rightarrow> bool" where
  "rb_ok b \<longleftrightarrow> length (rb_data b) < 2 ^ 64 \<and> unat (rb_readIdx b) < length (rb_data b)
     \<and> unat (rb_writeIdx b) < length (rb_data b)"

definition rb_count :: "'a ringbuffer_scheme \<Rightarrow> nat" where
  "rb_count b = ring_count (length (rb_data b)) (unat (rb_readIdx b)) (unat (rb_writeIdx b))"

definition rb_abs :: "'a ringbuffer_scheme \<Rightarrow> int list" where
  "rb_abs b = ring_list (rb_data b) (unat (rb_readIdx b)) (rb_count b)"

definition rb_room :: "'a ringbuffer_scheme \<Rightarrow> nat" where
  "rb_room b = length (rb_data b) - 1"

text \<open>
  The stale copies of \<^verbatim>\<open>ringbuffer2\<close>: the cached read index is behind the read index, the
  cached write index between the read and the write index.
\<close>

definition rb2_ok :: "ringbuffer2 \<Rightarrow> bool" where
  "rb2_ok b \<longleftrightarrow> rb_ok b
     \<and> (let n = length (rb_data b); r = unat (rb_readIdx b); w = unat (rb_writeIdx b);
            rc = unat (rb_readIdxCached b); wc = unat (rb_writeIdxCached b)
        in rc < n \<and> wc < n \<and> ring_count n rc w = ring_count n rc r + ring_count n r w
           \<and> ring_count n r wc \<le> ring_count n r w)"

section \<open>Indices\<close>

lemma next_index:
  assumes "unat i < n" "n < 2 ^ 64"
  shows "unat (if i + 1 = of_nat n then 0 else i + 1 :: size_t) = Suc (unat i) mod n"
proof -
  have u: "unat (i + 1) = Suc (unat i)" using assms by (simp add: unat_add_less)
  have v: "unat (of_nat n :: size_t) = n" using assms(2) by (simp add: unat_of_nat)
  have "i + 1 = of_nat n \<longleftrightarrow> Suc (unat i) = n" unfolding word_unat_eq_iff u v ..
  with u assms show ?thesis by (auto simp: Suc_mod)
qed

lemma unat_next_idx:
  "rb_ok b \<Longrightarrow> unat i < length (rb_data b) \<Longrightarrow> unat (next_idx b i) = Suc (unat i) mod length (rb_data b)"
  using next_index[of i "length (rb_data b)"] by (simp add: rb_ok_def next_idx_def)

lemma rb_full_iff:
  assumes "rb_ok b"
  shows "next_idx b (rb_writeIdx b) = rb_readIdx b \<longleftrightarrow> rb_count b = rb_room b"
    "rb_readIdx b = rb_writeIdx b \<longleftrightarrow> rb_count b = 0" "rb_count b \<le> rb_room b"
proof -
  let ?n = "length (rb_data b)" and ?r = "unat (rb_readIdx b)" and ?w = "unat (rb_writeIdx b)"
  have rw: "?r < ?n" "?w < ?n" using assms by (simp_all add: rb_ok_def)
  note laws = ring_count_laws[OF rw]
  have "unat (next_idx b (rb_writeIdx b)) = Suc ?w mod ?n" using unat_next_idx[OF assms rw(2)] .
  then show "next_idx b (rb_writeIdx b) = rb_readIdx b \<longleftrightarrow> rb_count b = rb_room b"
    using laws(4) by (simp add: word_unat_eq_iff rb_count_def rb_room_def)
  show "rb_readIdx b = rb_writeIdx b \<longleftrightarrow> rb_count b = 0"
    using laws(3) by (simp add: word_unat_eq_iff rb_count_def)
  show "rb_count b \<le> rb_room b" using laws(1) by (simp add: rb_count_def rb_room_def)
qed

lemma rb_store:
  fixes b :: "'a ringbuffer_scheme" and v :: int
  assumes "rb_ok b" "rb_count b \<noteq> rb_room b"
  defines "b' \<equiv> b\<lparr>rb_data := (rb_data b)[unat (rb_writeIdx b) := v], rb_writeIdx := next_idx b (rb_writeIdx b)\<rparr>"
  shows "rb_ok b'" "rb_abs b' = rb_abs b @ [v]" "rb_room b' = rb_room b" "rb_count b' = Suc (rb_count b)"
proof -
  let ?n = "length (rb_data b)" and ?r = "unat (rb_readIdx b)" and ?w = "unat (rb_writeIdx b)"
  have rw: "?r < ?n" "?w < ?n" "?n < 2 ^ 64" using assms(1) by (simp_all add: rb_ok_def)
  note laws = ring_count_laws[OF rw(1,2)]
  have nx: "unat (next_idx b (rb_writeIdx b)) = Suc ?w mod ?n" using unat_next_idx[OF assms(1) rw(2)] .
  have "Suc ?w mod ?n \<noteq> ?r" using laws(4) assms(2) by (auto simp: rb_count_def rb_room_def)
  from laws(5)[OF this] show count: "rb_count b' = Suc (rb_count b)"
    by (simp add: b'_def rb_count_def nx)
  have "Suc ?w mod ?n < ?n" using rw(1) by (intro mod_less_divisor) linarith
  then show "rb_ok b'" using rw nx by (simp add: b'_def rb_ok_def)
  have "ring_list ((rb_data b)[(?r + rb_count b) mod ?n := v]) ?r (Suc (rb_count b))
      = ring_list (rb_data b) ?r (rb_count b) @ [v]"
    using laws(1) by (intro ring_list_push rw(1)) (simp add: rb_count_def)
  then show "rb_abs b' = rb_abs b @ [v]"
    using laws(2) count by (simp add: rb_abs_def b'_def rb_count_def)
  show "rb_room b' = rb_room b" by (simp add: rb_room_def b'_def)
qed

lemma rb_advance:
  assumes "rb_ok b" "rb_count b \<noteq> 0"
  defines "b' \<equiv> b\<lparr>rb_readIdx := next_idx b (rb_readIdx b)\<rparr>"
  shows "rb_ok b'" "rb_abs b = rb_data b ! unat (rb_readIdx b) # rb_abs b'" "rb_room b' = rb_room b"
    "rb_count b = Suc (rb_count b')"
proof -
  let ?n = "length (rb_data b)" and ?r = "unat (rb_readIdx b)" and ?w = "unat (rb_writeIdx b)"
  have rw: "?r < ?n" "?w < ?n" "?n < 2 ^ 64" using assms(1) by (simp_all add: rb_ok_def)
  note laws = ring_count_laws[OF rw(1,2)]
  have nx: "unat (next_idx b (rb_readIdx b)) = Suc ?r mod ?n" using unat_next_idx[OF assms(1) rw(1)] .
  have "?r \<noteq> ?w" using laws(3) assms(2) by (auto simp: rb_count_def)
  from laws(6)[OF this] show count: "rb_count b = Suc (rb_count b')"
    using assms(2) by (simp add: b'_def rb_count_def nx)
  have "Suc ?r mod ?n < ?n" using rw(1) by (intro mod_less_divisor) linarith
  then show "rb_ok b'" using rw nx by (simp add: b'_def rb_ok_def)
  show "rb_abs b = rb_data b ! ?r # rb_abs b'"
    using ring_list_pop[OF rw(1), of "rb_count b"] count by (simp add: rb_abs_def b'_def nx)
  show "rb_room b' = rb_room b" by (simp add: rb_room_def b'_def)
qed

section \<open>Both refine the list queue\<close>

lemma rb_push_next:
  "rb_push b v = (if next_idx b (rb_writeIdx b) = rb_readIdx b then Some (False, b)
     else if unat (rb_writeIdx b) < length (rb_data b)
     then Some (True, b\<lparr>rb_data := (rb_data b)[unat (rb_writeIdx b) := v], rb_writeIdx := next_idx b (rb_writeIdx b)\<rparr>)
     else None)"
  by (simp add: rb_push_def Let_def next_idx_def)

lemma rb_pop_next:
  "rb_pop b = (if rb_readIdx b = rb_writeIdx b then Some (None, b)
     else if unat (rb_readIdx b) < length (rb_data b)
     then Some (Some (rb_data b ! unat (rb_readIdx b)), b\<lparr>rb_readIdx := next_idx b (rb_readIdx b)\<rparr>)
     else None)"
  by (simp add: rb_pop_def Let_def next_idx_def)

lemma rb_abs_length [simp]: "length (rb_abs b) = rb_count b"
  by (simp add: rb_abs_def)

interpretation rb: bounded_fifo rb_step rb_ok rb_abs "\<lambda>x. x" rb_room
proof
  show "length (rb_abs b) \<le> rb_room b" if "rb_ok b" for b :: ringbuffer using rb_full_iff(3)[OF that] by simp
  fix b :: ringbuffer and op :: "int qop" assume ok: "rb_ok b"
  note iff = rb_full_iff[OF ok]
  have lt: "unat (rb_readIdx b) < length (rb_data b)" "unat (rb_writeIdx b) < length (rb_data b)"
    using ok by (simp_all add: rb_ok_def)
  show "\<exists>b'. rb_step b op = Some (fst (list_step (\<lambda>x. x) (rb_room b) (rb_abs b) op), b')
      \<and> rb_ok b' \<and> rb_abs b' = snd (list_step (\<lambda>x. x) (rb_room b) (rb_abs b) op) \<and> rb_room b' = rb_room b"
  proof (cases op)
    case (Push v)
    then show ?thesis using ok iff lt rb_store[OF ok, of v]
      by (cases "rb_count b = rb_room b") (simp_all add: rb_push_next)
  next
    case Pop
    show ?thesis
    proof (cases "rb_count b = 0")
      case True
      then have "rb_abs b = []" by (metis length_0_conv rb_abs_length)
      with Pop True ok iff show ?thesis by (simp add: rb_pop_next)
    qed (use Pop ok iff lt rb_advance[OF ok] in \<open>simp add: rb_pop_next\<close>)
  qed
qed

section \<open>The cached indices\<close>

lemma rb2_push_next:
  "rb2_push b v =
    (let b' = (if next_idx b (rb_writeIdx b) = rb_readIdxCached b then b\<lparr>rb_readIdxCached := rb_readIdx b\<rparr> else b)
     in if next_idx b (rb_writeIdx b) = rb_readIdxCached b' then Some (False, b')
        else if unat (rb_writeIdx b) < length (rb_data b)
        then Some (True, b'\<lparr>rb_data := (rb_data b)[unat (rb_writeIdx b) := v], rb_writeIdx := next_idx b (rb_writeIdx b)\<rparr>)
        else None)"
  by (simp add: rb2_push_def Let_def next_idx_def)

lemma rb2_pop_next:
  "rb2_pop b =
    (let b' = (if rb_readIdx b = rb_writeIdxCached b then b\<lparr>rb_writeIdxCached := rb_writeIdx b\<rparr> else b)
     in if rb_readIdx b = rb_writeIdxCached b' then Some (None, b')
        else if unat (rb_readIdx b) < length (rb_data b)
        then Some (Some (rb_data b ! unat (rb_readIdx b)), b'\<lparr>rb_readIdx := next_idx b (rb_readIdx b)\<rparr>)
        else None)"
  by (simp add: rb2_pop_def Let_def next_idx_def)

text \<open>Refreshing a cached index keeps the invariant.\<close>

lemma rb2_reload:
  assumes "rb2_ok b"
  shows "rb2_ok (b\<lparr>rb_readIdxCached := rb_readIdx b\<rparr>)" "rb2_ok (b\<lparr>rb_writeIdxCached := rb_writeIdx b\<rparr>)"
  using assms by (auto simp: rb2_ok_def rb_ok_def Let_def ring_count_eq)

text \<open>A stale read index never hides that the buffer is full, a stale write index never that it is empty.\<close>

lemma rb2_stale:
  assumes "rb2_ok b"
  shows "next_idx b (rb_writeIdx b) = rb_readIdx b \<Longrightarrow> next_idx b (rb_writeIdx b) = rb_readIdxCached b"
    "rb_readIdx b = rb_writeIdx b \<Longrightarrow> rb_readIdx b = rb_writeIdxCached b"
proof -
  let ?n = "length (rb_data b)" and ?r = "unat (rb_readIdx b)" and ?w = "unat (rb_writeIdx b)"
  let ?rc = "unat (rb_readIdxCached b)" and ?wc = "unat (rb_writeIdxCached b)"
  have ok: "rb_ok b" "?r < ?n" "?w < ?n" "?rc < ?n" "?wc < ?n"
    "ring_count ?n ?rc ?w = ring_count ?n ?rc ?r + ring_count ?n ?r ?w"
    "ring_count ?n ?r ?wc \<le> ring_count ?n ?r ?w"
    using assms by (auto simp: rb2_ok_def rb_ok_def Let_def)
  show "next_idx b (rb_writeIdx b) = rb_readIdxCached b" if full: "next_idx b (rb_writeIdx b) = rb_readIdx b"
  proof -
    have "ring_count ?n ?r ?w = ?n - 1" using full rb_full_iff(1)[OF ok(1)] by (simp add: rb_count_def rb_room_def)
    then have "ring_count ?n ?rc ?r = 0" using ok(6) ring_count_laws(1)[OF ok(4,3)] by linarith
    then have "?rc = ?r" using ring_count_laws(3)[OF ok(4,2)] by simp
    with full show ?thesis by (simp add: word_unat_eq_iff)
  qed
  show "rb_readIdx b = rb_writeIdxCached b" if "rb_readIdx b = rb_writeIdx b"
  proof -
    have "ring_count ?n ?r ?wc = 0" using that ok(7) ring_count_laws(3)[OF ok(2,3)] by simp
    then show ?thesis using ring_count_laws(3)[OF ok(2,5)] by (simp add: word_unat_eq_iff)
  qed
qed

lemma rb2_store:
  fixes b :: ringbuffer2
  assumes ok2: "rb2_ok b" and ne: "next_idx b (rb_writeIdx b) \<noteq> rb_readIdxCached b"
  shows "rb2_ok (b\<lparr>rb_data := (rb_data b)[unat (rb_writeIdx b) := v], rb_writeIdx := next_idx b (rb_writeIdx b)\<rparr>)"
proof -
  let ?n = "length (rb_data b)" and ?r = "unat (rb_readIdx b)" and ?w = "unat (rb_writeIdx b)"
  let ?rc = "unat (rb_readIdxCached b)" and ?wc = "unat (rb_writeIdxCached b)"
  have ok: "rb_ok b" "?r < ?n" "?w < ?n" "?rc < ?n" "?wc < ?n"
    "ring_count ?n ?rc ?w = ring_count ?n ?rc ?r + ring_count ?n ?r ?w"
    "ring_count ?n ?r ?wc \<le> ring_count ?n ?r ?w"
    using ok2 by (auto simp: rb2_ok_def rb_ok_def Let_def)
  have ne2: "next_idx b (rb_writeIdx b) \<noteq> rb_readIdx b" using rb2_stale(1)[OF ok2] ne by auto
  then have "rb_count b \<noteq> rb_room b" using rb_full_iff(1)[OF ok(1)] by simp
  note base = rb_store[OF ok(1) this, of v]
  have nx: "unat (next_idx b (rb_writeIdx b)) = Suc ?w mod ?n" using unat_next_idx[OF ok(1,3)] .
  have "Suc ?w mod ?n \<noteq> ?r" "Suc ?w mod ?n \<noteq> ?rc" using ne ne2 nx by (metis word_unat_eq_iff)+
  then have "ring_count ?n ?r (Suc ?w mod ?n) = Suc (ring_count ?n ?r ?w)"
    "ring_count ?n ?rc (Suc ?w mod ?n) = Suc (ring_count ?n ?rc ?w)"
    using ring_count_laws(5)[OF ok(2,3)] ring_count_laws(5)[OF ok(4,3)] by simp_all
  with ok base(1) nx show ?thesis by (simp add: rb2_ok_def Let_def)
qed

lemma rb2_advance:
  fixes b :: ringbuffer2
  assumes ok2: "rb2_ok b" and ne: "rb_readIdx b \<noteq> rb_writeIdxCached b"
  shows "rb2_ok (b\<lparr>rb_readIdx := next_idx b (rb_readIdx b)\<rparr>)"
proof -
  let ?n = "length (rb_data b)" and ?r = "unat (rb_readIdx b)" and ?w = "unat (rb_writeIdx b)"
  let ?rc = "unat (rb_readIdxCached b)" and ?wc = "unat (rb_writeIdxCached b)"
  have ok: "rb_ok b" "?r < ?n" "?w < ?n" "?rc < ?n" "?wc < ?n"
    "ring_count ?n ?rc ?w = ring_count ?n ?rc ?r + ring_count ?n ?r ?w"
    "ring_count ?n ?r ?wc \<le> ring_count ?n ?r ?w"
    using ok2 by (auto simp: rb2_ok_def rb_ok_def Let_def)
  have ne2: "rb_readIdx b \<noteq> rb_writeIdx b" using rb2_stale(2)[OF ok2] ne by auto
  then have c0: "rb_count b \<noteq> 0" using rb_full_iff(2)[OF ok(1)] by simp
  note base = rb_advance[OF ok(1) c0]
  have nx: "unat (next_idx b (rb_readIdx b)) = Suc ?r mod ?n" using unat_next_idx[OF ok(1,2)] .
  have "ring_count ?n ?rc ?r \<noteq> ?n - 1" using c0 ok(6) ring_count_laws(1)[OF ok(4,3)] by (simp add: rb_count_def)
  then have "Suc ?r mod ?n \<noteq> ?rc" using ring_count_laws(4)[OF ok(4,2)] by simp
  then have "ring_count ?n ?rc (Suc ?r mod ?n) = Suc (ring_count ?n ?rc ?r)"
    using ring_count_laws(5)[OF ok(4,2)] by simp
  moreover have "?r \<noteq> ?w" "?r \<noteq> ?wc" using ne ne2 by (simp_all add: word_unat_eq_iff)
  then have "ring_count ?n (Suc ?r mod ?n) ?w = ring_count ?n ?r ?w - 1" "0 < ring_count ?n ?r ?w"
    "ring_count ?n (Suc ?r mod ?n) ?wc = ring_count ?n ?r ?wc - 1"
    using ring_count_laws(3,6)[OF ok(2,3)] ring_count_laws(3,6)[OF ok(2,5)] by simp_all
  ultimately show ?thesis using ok base(1) nx by (simp add: rb2_ok_def Let_def)
qed

text \<open>Every operation of \<^verbatim>\<open>ringbuffer2\<close> does to the shared fields what \<^verbatim>\<open>ringbuffer\<close> does.\<close>

lemma rb2_push_sim:
  assumes "rb2_ok b"
  shows "\<exists>r b'. rb2_push b v = Some (r, b') \<and> rb2_ok b'
    \<and> rb_push (ringbuffer.truncate b) v = Some (r, ringbuffer.truncate b')"
proof -
  define c where "c = (if next_idx b (rb_writeIdx b) = rb_readIdxCached b then b\<lparr>rb_readIdxCached := rb_readIdx b\<rparr> else b)"
  have c: "rb2_ok c" "rb_writeIdx c = rb_writeIdx b" "rb_data c = rb_data b" "next_idx c = next_idx b"
    "ringbuffer.truncate c = ringbuffer.truncate b"
    using assms rb2_reload(1)[OF assms] by (auto simp: c_def next_idx_def ringbuffer.truncate_def fun_eq_iff)
  have lt: "unat (rb_writeIdx b) < length (rb_data b)" using assms by (simp add: rb2_ok_def rb_ok_def)
  have full: "next_idx b (rb_writeIdx b) = rb_readIdxCached c \<longleftrightarrow> next_idx b (rb_writeIdx b) = rb_readIdx b"
    using rb2_stale(1)[OF assms] by (auto simp: c_def)
  have run: "rb2_push b v = (if next_idx b (rb_writeIdx b) = rb_readIdx b then Some (False, c)
      else Some (True, c\<lparr>rb_data := (rb_data b)[unat (rb_writeIdx b) := v], rb_writeIdx := next_idx b (rb_writeIdx b)\<rparr>))"
    using lt full unfolding rb2_push_next c_def[symmetric] by simp
  have "rb_push (ringbuffer.truncate b) v = (if next_idx b (rb_writeIdx b) = rb_readIdx b then Some (False, ringbuffer.truncate b)
      else Some (True, (ringbuffer.truncate b)\<lparr>rb_data := (rb_data b)[unat (rb_writeIdx b) := v], rb_writeIdx := next_idx b (rb_writeIdx b)\<rparr>))"
    using lt by (simp add: rb_push_next ringbuffer.truncate_def next_idx_def)
  with run c full rb2_store[OF c(1), of v] show ?thesis by (auto simp: ringbuffer.truncate_def)
qed

lemma rb2_pop_sim:
  assumes "rb2_ok b"
  shows "\<exists>r b'. rb2_pop b = Some (r, b') \<and> rb2_ok b'
    \<and> rb_pop (ringbuffer.truncate b) = Some (r, ringbuffer.truncate b')"
proof -
  define c where "c = (if rb_readIdx b = rb_writeIdxCached b then b\<lparr>rb_writeIdxCached := rb_writeIdx b\<rparr> else b)"
  have c: "rb2_ok c" "rb_readIdx c = rb_readIdx b" "rb_data c = rb_data b" "next_idx c = next_idx b"
    "ringbuffer.truncate c = ringbuffer.truncate b"
    using assms rb2_reload(2)[OF assms] by (auto simp: c_def next_idx_def ringbuffer.truncate_def fun_eq_iff)
  have lt: "unat (rb_readIdx b) < length (rb_data b)" using assms by (simp add: rb2_ok_def rb_ok_def)
  have empty: "rb_readIdx b = rb_writeIdxCached c \<longleftrightarrow> rb_readIdx b = rb_writeIdx b"
    using rb2_stale(2)[OF assms] by (auto simp: c_def)
  have run: "rb2_pop b = (if rb_readIdx b = rb_writeIdx b then Some (None, c)
      else Some (Some (rb_data b ! unat (rb_readIdx b)), c\<lparr>rb_readIdx := next_idx b (rb_readIdx b)\<rparr>))"
    using lt empty unfolding rb2_pop_next c_def[symmetric] by simp
  have "rb_pop (ringbuffer.truncate b) = (if rb_readIdx b = rb_writeIdx b then Some (None, ringbuffer.truncate b)
      else Some (Some (rb_data b ! unat (rb_readIdx b)), (ringbuffer.truncate b)\<lparr>rb_readIdx := next_idx b (rb_readIdx b)\<rparr>))"
    using lt by (simp add: rb_pop_next ringbuffer.truncate_def next_idx_def)
  with run c empty rb2_advance[OF c(1)] show ?thesis by (auto simp: ringbuffer.truncate_def)
qed

lemma rb2_step_sim:
  assumes "rb2_ok b"
  shows "\<exists>r b'. rb2_step b op = Some (r, b') \<and> rb2_ok b'
    \<and> rb_step (ringbuffer.truncate b) op = Some (r, ringbuffer.truncate b')"
proof (cases op)
  case (Push v)
  obtain r b' where "rb2_push b v = Some (r, b')" "rb2_ok b'"
    "rb_push (ringbuffer.truncate b) v = Some (r, ringbuffer.truncate b')"
    using rb2_push_sim[OF assms] by blast
  with Push show ?thesis by simp
next
  case Pop
  obtain r b' where "rb2_pop b = Some (r, b')" "rb2_ok b'"
    "rb_pop (ringbuffer.truncate b) = Some (r, ringbuffer.truncate b')"
    using rb2_pop_sim[OF assms] by blast
  with Pop show ?thesis by simp
qed

lemma rb2_run_sim:
  "rb2_ok b \<Longrightarrow> \<exists>rs b'. run_ops rb2_step b ops = Some (rs, b') \<and> rb2_ok b'
    \<and> run_ops rb_step (ringbuffer.truncate b) ops = Some (rs, ringbuffer.truncate b')"
proof (induction ops arbitrary: b)
  case (Cons op ops)
  obtain r b1 where b1: "rb2_step b op = Some (r, b1)" "rb2_ok b1"
    "rb_step (ringbuffer.truncate b) op = Some (r, ringbuffer.truncate b1)"
    using rb2_step_sim[OF Cons.prems] by blast
  with Cons.IH[OF b1(2)] show ?case by (auto simp del: rb_step.simps rb2_step.simps)
qed simp

lemma rb_new_ok:
  assumes "0 < capacity"
  shows "rb_ok (rb_new capacity)" "rb_abs (rb_new capacity) = []" "rb_room (rb_new capacity) = unat capacity - 1"
    "rb2_ok (rb2_new capacity)" "ringbuffer.truncate (rb2_new capacity) = rb_new capacity"
proof -
  have u: "0 < unat capacity" using assms by (simp add: word_less_nat_alt)
  have l: "unat capacity < 18446744073709551616" using unsigned_less[of capacity] by simp
  from u l show "rb_ok (rb_new capacity)" "rb_abs (rb_new capacity) = []"
    "rb_room (rb_new capacity) = unat capacity - 1" "rb2_ok (rb2_new capacity)"
    "ringbuffer.truncate (rb2_new capacity) = rb_new capacity"
    by (simp_all add: rb_new_def rb2_new_def rb2_ok_def rb_ok_def rb_abs_def rb_count_def rb_room_def ring_list_def
      ring_count_eq ringbuffer.truncate_def)
qed

section \<open>Properties\<close>

text \<open>C24. From its constructor on, with a capacity of at least one, the ring buffer is a first-in
  first-out queue that holds at most \<open>capacity - 1\<close> integers: any sequence of pushes and pops returns
  exactly the results of that queue (a push is refused only when it is full, a pop only when it is
  empty), the popped values are the accepted values in order, and what is not yet popped is still stored.\<close>

theorem ringbuffer_fifo:
  assumes "0 < capacity"
  shows "\<exists>rs b'. run_ops rb_step (rb_new capacity) ops = Some (rs, b')
    \<and> (rs, rb_abs b') = list_run (\<lambda>x. x) (unat capacity - 1) [] ops
    \<and> accepted ops rs = popped rs @ rb_abs b' \<and> length (rb_abs b') \<le> unat capacity - 1"
proof -
  note new = rb_new_ok[OF assms]
  obtain b' where b': "run_ops rb_step (rb_new capacity) ops
      = Some (fst (list_run (\<lambda>x. x) (unat capacity - 1) [] ops), b')"
    "rb_abs b' = snd (list_run (\<lambda>x. x) (unat capacity - 1) [] ops)"
    using rb.run_refines[OF new(1), of ops] new(2,3) by auto
  obtain rs ys where run: "list_run (\<lambda>x. x) (unat capacity - 1) [] ops = (rs, ys)" by fastforce
  from list_run_fifo[OF run] list_run_length[of "[]" "unat capacity - 1" "\<lambda>x. x" ops] b' run
  show ?thesis by auto
qed

theorem ringbuffer_fifo_witness:
  "\<exists>rs b'. run_ops rb_step (rb_new 3) [Push 5, Push 6, Push 7, Pop, Push 8] = Some (rs, b')
    \<and> rs = [Pushed, Pushed, Full, Popped 5, Pushed] \<and> rb_abs b' = [6, 8]"
  using ringbuffer_fifo[of 3 "[Push 5, Push 6, Push 7, Pop, Push 8]"]
  by (auto simp del: run_ops.simps)

text \<open>C25. The optimised \<^verbatim>\<open>ringbuffer2\<close>, which re-reads the other side's index only when its cached
  copy says full or empty, is equivalent to \<^verbatim>\<open>ringbuffer\<close>: built with the same capacity (at least
  one) and given the same operations, both are defined, return the same results and end with the
  same stored data and indices.\<close>

theorem ringbuffer2_equivalent:
  assumes "0 < capacity"
  shows "\<exists>rs b2. run_ops rb2_step (rb2_new capacity) ops = Some (rs, b2)
    \<and> run_ops rb_step (rb_new capacity) ops = Some (rs, ringbuffer.truncate b2)"
  using rb2_run_sim[OF rb_new_ok(4)[OF assms], of ops] rb_new_ok(5)[OF assms] by auto

theorem ringbuffer2_equivalent_witness:
  "\<exists>rs b2. run_ops rb2_step (rb2_new 2) [Push 5, Push 6, Pop, Push 7] = Some (rs, b2)
    \<and> run_ops rb_step (rb_new 2) [Push 5, Push 6, Pop, Push 7] = Some (rs, ringbuffer.truncate b2)"
  using ringbuffer2_equivalent[of 2 "[Push 5, Push 6, Pop, Push 7]"] by simp

end
