(* ===== verification/Ring_Threads.thy ===== *)
theory Ring_Threads
  imports Ringbuffer
begin

text \<open>
  The benchmark of \<^verbatim>\<open>spike/ipc_ringbuffer.cpp\<close>: a producer and a consumer thread on one
  \<^verbatim>\<open>ringbuffer\<close>, interleaved at every access of the shared fields. Each atomic load or store and
  each access of the data array is one step, in the program order of the code; the interleaving is
  sequentially consistent. A step that would index outside the data is undefined (\<open>None\<close>).
\<close>

section \<open>Definitions\<close>

text \<open>
  Where a thread stands: the next access it performs, with its local variables. \<open>P_wait\<close> is the loop
  that waits for the indices to meet, \<open>P_join\<close> is \<^verbatim>\<open>t.join()\<close>; \<open>C_test\<close> is the comparison of the
  popped value with the loop counter, \<open>C_throw\<close> the exception it raises.
\<close>

datatype prod_pc = P_push nat | P_check nat size_t size_t | P_write nat size_t size_t | P_publish nat size_t
  | P_wait | P_wait2 size_t | P_join | P_done

datatype cons_pc = C_pop nat | C_check nat size_t | C_read nat size_t | C_publish nat size_t int
  | C_test nat int | C_throw | C_done

record bench =
  bn_q :: ringbuffer
  bn_prod :: prod_pc
  bn_cons :: cons_pc

definition queueSize :: size_t where "queueSize = 100000"

definition iters :: nat where "iters = 100000000"

text \<open>The head of the two loops \<^verbatim>\<open>for (int i = 0; i < iters; ++i)\<close>.\<close>

definition prod_loop :: "nat \<Rightarrow> nat \<Rightarrow> prod_pc" where
  "prod_loop n i = (if i < n then P_push i else P_wait)"

definition cons_loop :: "nat \<Rightarrow> nat \<Rightarrow> cons_pc" where
  "cons_loop n i = (if i < n then C_pop i else C_done)"

definition bench_init :: "size_t \<Rightarrow> nat \<Rightarrow> bench" where
  "bench_init qs n = \<lparr>bn_q = rb_new qs, bn_prod = prod_loop n 0, bn_cons = cons_loop n 0\<rparr>"

text \<open>The producer: \<^verbatim>\<open>push(i)\<close> access by access, then the final wait and the join.\<close>

fun prod_step :: "nat \<Rightarrow> bench \<Rightarrow> bench option" where
  "prod_step n s =
    (let q = bn_q s in case bn_prod s of
      P_push i \<Rightarrow> Some (s\<lparr>bn_prod := P_check i (rb_writeIdx q) (next_idx q (rb_writeIdx q))\<rparr>)
    | P_check i w nxt \<Rightarrow> Some (s\<lparr>bn_prod := (if nxt = rb_readIdx q then P_push i else P_write i w nxt)\<rparr>)
    | P_write i w nxt \<Rightarrow>
        if unat w < length (rb_data q)
        then Some (s\<lparr>bn_q := q\<lparr>rb_data := (rb_data q)[unat w := int i]\<rparr>, bn_prod := P_publish i nxt\<rparr>) else None
    | P_publish i nxt \<Rightarrow> Some (s\<lparr>bn_q := q\<lparr>rb_writeIdx := nxt\<rparr>, bn_prod := prod_loop n (Suc i)\<rparr>)
    | P_wait \<Rightarrow> Some (s\<lparr>bn_prod := P_wait2 (rb_readIdx q)\<rparr>)
    | P_wait2 r \<Rightarrow> Some (s\<lparr>bn_prod := (if r \<noteq> rb_writeIdx q then P_wait else P_join)\<rparr>)
    | P_join \<Rightarrow> Some (if bn_cons s = C_done then s\<lparr>bn_prod := P_done\<rparr> else s)
    | P_done \<Rightarrow> Some s)"

text \<open>The consumer: \<^verbatim>\<open>pop(val)\<close> access by access, then the comparison of the value.\<close>

fun cons_step :: "nat \<Rightarrow> bench \<Rightarrow> bench option" where
  "cons_step n s =
    (let q = bn_q s in case bn_cons s of
      C_pop i \<Rightarrow> Some (s\<lparr>bn_cons := C_check i (rb_readIdx q)\<rparr>)
    | C_check i r \<Rightarrow> Some (s\<lparr>bn_cons := (if r = rb_writeIdx q then C_pop i else C_read i r)\<rparr>)
    | C_read i r \<Rightarrow>
        if unat r < length (rb_data q)
        then Some (s\<lparr>bn_cons := C_publish i (next_idx q r) (rb_data q ! unat r)\<rparr>) else None
    | C_publish i nxt v \<Rightarrow> Some (s\<lparr>bn_q := q\<lparr>rb_readIdx := nxt\<rparr>, bn_cons := C_test i v\<rparr>)
    | C_test i v \<Rightarrow> Some (s\<lparr>bn_cons := (if v \<noteq> int i then C_throw else cons_loop n (Suc i))\<rparr>)
    | C_throw \<Rightarrow> Some s
    | C_done \<Rightarrow> Some s)"

declare prod_step.simps [simp del] cons_step.simps [simp del]

inductive bench_step :: "nat \<Rightarrow> bench \<Rightarrow> bench \<Rightarrow> bool" for n where
  producer: "prod_step n s = Some s' \<Longrightarrow> bench_step n s s'"
| consumer: "cons_step n s = Some s' \<Longrightarrow> bench_step n s s'"

text \<open>Both threads at an access of the same array slot, one of them a write.\<close>

definition race :: "bench \<Rightarrow> bool" where
  "race s \<longleftrightarrow> (case (bn_prod s, bn_cons s) of (P_write i w nxt, C_read j r) \<Rightarrow> w = r | _ \<Rightarrow> False)"

text \<open>How many values are published and consumed, read off the program counters.\<close>

definition pushed_count :: "nat \<Rightarrow> prod_pc \<Rightarrow> nat" where
  "pushed_count n p = (case p of P_push i \<Rightarrow> i | P_check i w nxt \<Rightarrow> i | P_write i w nxt \<Rightarrow> i | P_publish i nxt \<Rightarrow> i | _ \<Rightarrow> n)"

definition popped_count :: "nat \<Rightarrow> cons_pc \<Rightarrow> nat" where
  "popped_count n p = (case p of C_pop i \<Rightarrow> i | C_check i r \<Rightarrow> i | C_read i r \<Rightarrow> i | C_publish i nxt v \<Rightarrow> i
     | C_test i v \<Rightarrow> Suc i | C_throw \<Rightarrow> n | C_done \<Rightarrow> n)"

definition prod_ok :: "nat \<Rightarrow> ringbuffer \<Rightarrow> prod_pc \<Rightarrow> nat \<Rightarrow> nat \<Rightarrow> bool" where
  "prod_ok n q p R W = (let c = length (rb_data q) in case p of
      P_push i \<Rightarrow> i < n
    | P_check i w nxt \<Rightarrow> i < n \<and> unat w = W mod c \<and> unat nxt = Suc W mod c
    | P_write i w nxt \<Rightarrow> i < n \<and> unat w = W mod c \<and> unat nxt = Suc W mod c \<and> Suc W < R + c
    | P_publish i nxt \<Rightarrow> i < n \<and> unat nxt = Suc W mod c \<and> Suc W < R + c \<and> rb_data q ! (W mod c) = int W
    | _ \<Rightarrow> True)"

definition cons_ok :: "nat \<Rightarrow> ringbuffer \<Rightarrow> cons_pc \<Rightarrow> nat \<Rightarrow> nat \<Rightarrow> bool" where
  "cons_ok n q p R W = (let c = length (rb_data q) in case p of
      C_pop i \<Rightarrow> i < n
    | C_check i r \<Rightarrow> i < n \<and> unat r = R mod c
    | C_read i r \<Rightarrow> i < n \<and> unat r = R mod c \<and> R < W
    | C_publish i nxt v \<Rightarrow> i < n \<and> unat nxt = Suc R mod c \<and> R < W \<and> v = int i
    | C_test i v \<Rightarrow> i < n \<and> v = int i
    | C_throw \<Rightarrow> False | C_done \<Rightarrow> True)"

definition buf_ok :: "nat \<Rightarrow> ringbuffer \<Rightarrow> nat \<Rightarrow> nat \<Rightarrow> bool" where
  "buf_ok n q R W \<longleftrightarrow> (let c = length (rb_data q) in 2 \<le> c \<and> c < 2 ^ 64
     \<and> unat (rb_readIdx q) = R mod c \<and> unat (rb_writeIdx q) = W mod c \<and> R \<le> W \<and> W < R + c \<and> W \<le> n
     \<and> (\<forall>k. R \<le> k \<longrightarrow> k < W \<longrightarrow> rb_data q ! (k mod c) = int k))"

definition bench_inv :: "nat \<Rightarrow> bench \<Rightarrow> bool" where
  "bench_inv n s \<longleftrightarrow> (let q = bn_q s; p = bn_prod s; c = bn_cons s; R = popped_count n c; W = pushed_count n p
     in buf_ok n q R W \<and> prod_ok n q p R W \<and> cons_ok n q c R W \<and> (p = P_done \<longrightarrow> c = C_done))"

text \<open>How far the threads are from the end.\<close>

definition prod_rank :: "nat \<Rightarrow> ringbuffer \<Rightarrow> prod_pc \<Rightarrow> nat" where
  "prod_rank n q p = (case p of P_push i \<Rightarrow> 4 * (n - i) + 8 | P_check i w nxt \<Rightarrow> 4 * (n - i) + 7
     | P_write i w nxt \<Rightarrow> 4 * (n - i) + 6 | P_publish i nxt \<Rightarrow> 4 * (n - i) + 5
     | P_wait \<Rightarrow> 5 | P_wait2 r \<Rightarrow> (if r = rb_writeIdx q then 4 else 6) | P_join \<Rightarrow> 3 | P_done \<Rightarrow> 0)"

definition cons_rank :: "nat \<Rightarrow> cons_pc \<Rightarrow> nat" where
  "cons_rank n p = (case p of C_pop i \<Rightarrow> 5 * (n - i) + 1 | C_check i r \<Rightarrow> 5 * (n - i) | C_read i r \<Rightarrow> 5 * (n - i) - 1
     | C_publish i nxt v \<Rightarrow> 5 * (n - i) - 2 | C_test i v \<Rightarrow> 5 * (n - i) - 3 | _ \<Rightarrow> 0)"

definition bench_rank :: "nat \<Rightarrow> bench \<Rightarrow> nat" where
  "bench_rank n s = prod_rank n (bn_q s) (bn_prod s) + cons_rank n (bn_cons s)"

section \<open>The invariant\<close>

lemma mod_window:
  assumes "a < b" "b < a + c"
  shows "a mod c \<noteq> b mod (c::nat)"
proof
  assume "a mod c = b mod c"
  then have "c dvd b - a" using assms(1) by (metis less_imp_le mod_eq_dvd_iff_nat)
  moreover have "0 < b - a" "b - a < c" using assms by auto
  ultimately show False using dvd_imp_le by fastforce
qed

lemma next_idx_count:
  assumes "unat i = k mod length (rb_data q)" "0 < length (rb_data q)" "length (rb_data q) < 2 ^ 64"
  shows "unat (next_idx q i) = Suc k mod length (rb_data q)"
proof -
  have "unat i < length (rb_data q)" using assms by simp
  then show ?thesis using next_index[of i "length (rb_data q)"] assms by (simp add: next_idx_def mod_Suc_eq)
qed

text \<open>What a thread relies on is not disturbed by the other one.\<close>

lemma prod_ok_stable:
  assumes "prod_ok n q p R W" "R \<le> R'" "rb_data q' = rb_data q"
  shows "prod_ok n q' p R' W"
  using assms by (auto simp: prod_ok_def Let_def split: prod_pc.splits)

lemma cons_ok_stable:
  assumes "cons_ok n q p R W" "W \<le> W'" "length (rb_data q') = length (rb_data q)"
  shows "cons_ok n q' p R W'"
  using assms by (auto simp: cons_ok_def Let_def split: cons_pc.splits)

lemma buf_okD:
  assumes "buf_ok n q R W"
  shows "2 \<le> length (rb_data q)" "length (rb_data q) < 2 ^ 64" "unat (rb_readIdx q) = R mod length (rb_data q)"
    "unat (rb_writeIdx q) = W mod length (rb_data q)" "R \<le> W" "W < R + length (rb_data q)" "W \<le> n"
    "\<And>k. R \<le> k \<Longrightarrow> k < W \<Longrightarrow> rb_data q ! (k mod length (rb_data q)) = int k"
    "unat (next_idx q (rb_readIdx q)) = Suc R mod length (rb_data q)"
    "unat (next_idx q (rb_writeIdx q)) = Suc W mod length (rb_data q)" "\<And>k. k mod length (rb_data q) < length (rb_data q)"
proof -
  note b = assms[unfolded buf_ok_def Let_def]
  have c: "0 < length (rb_data q)" "length (rb_data q) < 2 ^ 64" using b by auto
  show "2 \<le> length (rb_data q)" "length (rb_data q) < 2 ^ 64" "R \<le> W" "W < R + length (rb_data q)" "W \<le> n"
    "\<And>k. R \<le> k \<Longrightarrow> k < W \<Longrightarrow> rb_data q ! (k mod length (rb_data q)) = int k"
    using b by auto
  show r: "unat (rb_readIdx q) = R mod length (rb_data q)" using b by blast
  show w: "unat (rb_writeIdx q) = W mod length (rb_data q)" using b by blast
  show "unat (next_idx q (rb_readIdx q)) = Suc R mod length (rb_data q)" using next_idx_count[OF r c] .
  show "unat (next_idx q (rb_writeIdx q)) = Suc W mod length (rb_data q)" using next_idx_count[OF w c] .
  show "k mod length (rb_data q) < length (rb_data q)" for k using c(1) by simp
qed

text \<open>The three changes of the buffer: a value stored in a free slot, and either index advanced.\<close>

lemma buf_store:
  assumes b: "buf_ok n q R W" and room: "Suc W < R + length (rb_data q)"
  shows "buf_ok n (q\<lparr>rb_data := (rb_data q)[W mod length (rb_data q) := v]\<rparr>) R W"
proof -
  have "W mod length (rb_data q) \<noteq> k mod length (rb_data q)" if "R \<le> k" "k < W" for k
    using mod_window[of k W "length (rb_data q)"] that room by auto
  with b show ?thesis by (simp add: buf_ok_def Let_def)
qed

lemma buf_publish:
  assumes b: "buf_ok n q R W" and "Suc W < R + length (rb_data q)" "W < n"
    "unat nxt = Suc W mod length (rb_data q)" "rb_data q ! (W mod length (rb_data q)) = int W"
  shows "buf_ok n (q\<lparr>rb_writeIdx := nxt\<rparr>) R (Suc W)"
  using assms by (auto simp: buf_ok_def Let_def less_Suc_eq)

lemma buf_consume:
  assumes b: "buf_ok n q R W" and "R < W" "unat nxt = Suc R mod length (rb_data q)"
  shows "buf_ok n (q\<lparr>rb_readIdx := nxt\<rparr>) (Suc R) W"
  using assms by (auto simp: buf_ok_def Let_def)

text \<open>A step of one thread that keeps its side of the invariant keeps all of it.\<close>

lemma prod_step_intro:
  fixes s :: bench and n :: nat
  defines "R \<equiv> popped_count n (bn_cons s)" and "W \<equiv> pushed_count n (bn_prod s)" and "q \<equiv> bn_q s"
  assumes "bench_inv n s" "prod_step n s = Some (s\<lparr>bn_q := q', bn_prod := p'\<rparr>)"
    "W \<le> pushed_count n p'" "buf_ok n q' R (pushed_count n p')" "prod_ok n q' p' R (pushed_count n p')"
    "length (rb_data q') = length (rb_data q)" "p' = P_done \<longrightarrow> bn_cons s = C_done"
  shows "\<exists>s'. prod_step n s = Some s' \<and> bench_inv n s'"
proof -
  have "cons_ok n q (bn_cons s) R W" using assms(4) by (simp add: bench_inv_def Let_def assms(1-3))
  from cons_ok_stable[OF this assms(6,9)] show ?thesis using assms by (simp add: bench_inv_def Let_def)
qed

lemma cons_step_intro:
  fixes s :: bench and n :: nat
  defines "R \<equiv> popped_count n (bn_cons s)" and "W \<equiv> pushed_count n (bn_prod s)" and "q \<equiv> bn_q s"
  assumes "bench_inv n s" "cons_step n s = Some (s\<lparr>bn_q := q', bn_cons := p'\<rparr>)"
    "R \<le> popped_count n p'" "buf_ok n q' (popped_count n p') W" "cons_ok n q' p' (popped_count n p') W"
    "rb_data q' = rb_data q" "bn_prod s \<noteq> P_done \<or> p' = C_done"
  shows "\<exists>s'. cons_step n s = Some s' \<and> bench_inv n s'"
proof -
  have "prod_ok n q (bn_prod s) R W" using assms(4) by (simp add: bench_inv_def Let_def assms(1-3))
  from prod_ok_stable[OF this assms(6,9)] show ?thesis using assms by (auto simp: bench_inv_def Let_def)
qed

lemma bench_invD:
  assumes "bench_inv n s"
  shows "buf_ok n (bn_q s) (popped_count n (bn_cons s)) (pushed_count n (bn_prod s))"
    "prod_ok n (bn_q s) (bn_prod s) (popped_count n (bn_cons s)) (pushed_count n (bn_prod s))"
    "cons_ok n (bn_q s) (bn_cons s) (popped_count n (bn_cons s)) (pushed_count n (bn_prod s))"
    "bn_prod s = P_done \<Longrightarrow> bn_cons s = C_done"
  using assms by (simp_all add: bench_inv_def Let_def)

lemma prod_step_inv:
  assumes inv: "bench_inv n s"
  shows "\<exists>s'. prod_step n s = Some s' \<and> bench_inv n s'"
proof -
  let ?q = "bn_q s" and ?l = "length (rb_data (bn_q s))"
  note I = bench_invD[OF inv] and b = buf_okD[OF bench_invD(1)[OF inv]] and intro = prod_step_intro[OF inv]
  show ?thesis
  proof (cases "bn_prod s")
    case (P_push i)
    with I b show ?thesis
      by (intro intro[where q' = ?q and p' = "P_check i (rb_writeIdx ?q) (next_idx ?q (rb_writeIdx ?q))"])
        (auto simp: Let_def prod_step.simps prod_ok_def pushed_count_def)
  next
    case (P_check i w nxt)
    have "Suc i < popped_count n (bn_cons s) + ?l" if "nxt \<noteq> rb_readIdx ?q"
      using that I(2) b(3,6) P_check
      by (simp add: prod_ok_def word_unat_eq_iff pushed_count_def) (metis Suc_lessI mod_add_self2)
    with P_check I show ?thesis
      by (intro intro[where q' = ?q and p' = "if nxt = rb_readIdx ?q then P_push i else P_write i w nxt"])
        (auto simp: Let_def prod_step.simps prod_ok_def pushed_count_def)
  next
    case (P_write i w nxt)
    then have w: "unat w = i mod ?l" "Suc i < popped_count n (bn_cons s) + ?l" "i < n" "unat nxt = Suc i mod ?l"
      using I(2) by (auto simp: prod_ok_def pushed_count_def Let_def)
    moreover have "i mod ?l < ?l" by (rule b(11))
    ultimately show ?thesis using P_write I(1) buf_store[OF I(1), of "int i"]
      by (intro intro[where q' = "?q\<lparr>rb_data := (rb_data ?q)[unat w := int i]\<rparr>" and p' = "P_publish i nxt"])
        (simp_all add: Let_def prod_step.simps prod_ok_def pushed_count_def)
  next
    case (P_publish i nxt)
    then have w: "i < n" "unat nxt = Suc i mod ?l" "Suc i < popped_count n (bn_cons s) + ?l" "rb_data ?q ! (i mod ?l) = int i"
      "pushed_count n (bn_prod s) = i"
      using I(2) by (auto simp: prod_ok_def pushed_count_def Let_def)
    have loop: "pushed_count n (prod_loop n (Suc i)) = Suc i" "prod_loop n (Suc i) \<noteq> P_done"
      "prod_ok n q (prod_loop n (Suc i)) R W" for q R W
      using w(1) by (auto simp: prod_ok_def prod_loop_def pushed_count_def)
    show ?thesis using P_publish w loop buf_publish[OF I(1), of nxt]
      by (intro intro[where q' = "?q\<lparr>rb_writeIdx := nxt\<rparr>" and p' = "prod_loop n (Suc i)"])
        (simp_all add: Let_def prod_step.simps)
  next
    case P_wait
    with I show ?thesis
      by (intro intro[where q' = ?q and p' = "P_wait2 (rb_readIdx ?q)"]) (simp_all add: Let_def prod_step.simps prod_ok_def pushed_count_def)
  next
    case (P_wait2 r)
    with I show ?thesis
      by (intro intro[where q' = ?q and p' = "if r \<noteq> rb_writeIdx ?q then P_wait else P_join"])
        (simp_all add: Let_def prod_step.simps prod_ok_def pushed_count_def)
  next
    case P_join
    with I show ?thesis
      by (intro intro[where q' = ?q and p' = "if bn_cons s = C_done then P_done else P_join"])
        (auto simp: Let_def prod_step.simps prod_ok_def pushed_count_def)
  qed (use inv in \<open>simp add: prod_step.simps\<close>)
qed

lemma cons_step_inv:
  assumes inv: "bench_inv n s"
  shows "\<exists>s'. cons_step n s = Some s' \<and> bench_inv n s'"
proof -
  let ?q = "bn_q s" and ?l = "length (rb_data (bn_q s))" and ?W = "pushed_count n (bn_prod s)"
  note I = bench_invD[OF inv] and b = buf_okD[OF bench_invD(1)[OF inv]] and intro = cons_step_intro[OF inv]
  show ?thesis
  proof (cases "bn_cons s")
    case (C_pop i)
    with I b show ?thesis
      by (intro intro[where q' = ?q and p' = "C_check i (rb_readIdx ?q)"]) (auto simp: Let_def cons_step.simps cons_ok_def popped_count_def)
  next
    case (C_check i r)
    have "i < ?W" if "r \<noteq> rb_writeIdx ?q"
      using that I(3) b(4,5) C_check
      by (simp add: cons_ok_def word_unat_eq_iff popped_count_def) (metis le_neq_implies_less)
    with C_check I show ?thesis
      by (intro intro[where q' = ?q and p' = "if r = rb_writeIdx ?q then C_pop i else C_read i r"])
        (auto simp: Let_def cons_step.simps cons_ok_def popped_count_def)
  next
    case (C_read i r)
    then have r: "unat r = i mod ?l" "i < ?W" "i < n" using I(3) by (auto simp: cons_ok_def popped_count_def)
    have "0 < ?l" using b(1) by linarith
    from next_idx_count[OF r(1) this b(2)] have "unat (next_idx ?q r) = Suc i mod ?l" .
    moreover have "i mod ?l < ?l" by (rule b(11))
    moreover have "rb_data ?q ! (i mod ?l) = int i" using b(8)[of i] r(2) C_read by (simp add: popped_count_def)
    ultimately show ?thesis using C_read I r
      by (intro intro[where q' = ?q and p' = "C_publish i (next_idx ?q r) (int i)"])
        (auto simp: Let_def cons_step.simps cons_ok_def popped_count_def)
  next
    case (C_publish i nxt v)
    with I buf_consume[OF I(1), of nxt] show ?thesis
      by (intro intro[where q' = "?q\<lparr>rb_readIdx := nxt\<rparr>" and p' = "C_test i v"]) (auto simp: Let_def cons_step.simps cons_ok_def popped_count_def)
  next
    case (C_test i v)
    then have "popped_count n (cons_loop n (Suc i)) = Suc i" "cons_ok n ?q (cons_loop n (Suc i)) (Suc i) ?W"
      using I(3) by (auto simp: cons_loop_def cons_ok_def popped_count_def)
    with C_test I show ?thesis
      by (intro intro[where q' = ?q and p' = "cons_loop n (Suc i)"]) (auto simp: Let_def cons_step.simps cons_ok_def popped_count_def)
  qed (use inv in \<open>simp_all add: cons_step.simps\<close>)
qed

lemma bench_init_inv:
  assumes "2 \<le> qs"
  shows "bench_inv n (bench_init qs n)"
proof -
  have "2 \<le> unat qs" using assms by (simp add: word_le_nat_alt)
  moreover have "unat qs < 18446744073709551616" using unsigned_less[of qs] by simp
  moreover have "pushed_count n (prod_loop n 0) = 0" "popped_count n (cons_loop n 0) = 0"
    by (auto simp: prod_loop_def cons_loop_def pushed_count_def popped_count_def)
  ultimately show ?thesis
    by (auto simp: bench_inv_def bench_init_def rb_new_def buf_ok_def prod_ok_def cons_ok_def prod_loop_def cons_loop_def)
qed

lemma bench_reachable_inv:
  assumes "(bench_step n)\<^sup>*\<^sup>* (bench_init qs n) s" "2 \<le> qs"
  shows "bench_inv n s"
  using assms(1)
proof (induction rule: rtranclp_induct)
  case (step s t)
  with prod_step_inv[OF step.IH] cons_step_inv[OF step.IH] show ?case by (auto elim!: bench_step.cases)
qed (rule bench_init_inv[OF assms(2)])

lemma bench_length:
  assumes "(bench_step n)\<^sup>*\<^sup>* (bench_init qs n) s"
  shows "length (rb_data (bn_q s)) = unat qs"
  using assms
proof (induction rule: rtranclp_induct)
  case (step s t)
  then show ?case
    by (auto simp: prod_step.simps cons_step.simps Let_def elim!: bench_step.cases
      split: prod_pc.splits cons_pc.splits if_splits)
qed (simp add: bench_init_def rb_new_def)

lemma bench_inv_no_race:
  assumes "bench_inv n s"
  shows "\<not> race s"
proof
  assume "race s"
  then obtain i w nxt j where "bn_prod s = P_write i w nxt" "bn_cons s = C_read j w"
    by (auto simp: race_def split: prod_pc.splits cons_pc.splits)
  then show False using bench_invD(2,3)[OF assms] mod_window[of j i "length (rb_data (bn_q s))"]
    by (auto simp: prod_ok_def cons_ok_def pushed_count_def popped_count_def Let_def)
qed

section \<open>Progress\<close>

lemma bench_progress:
  assumes inv: "bench_inv n s" and run: "bn_prod s \<noteq> P_done"
  shows "\<exists>s'. bench_step n s s' \<and> bench_rank n s' < bench_rank n s"
proof -
  let ?q = "bn_q s" and ?R = "popped_count n (bn_cons s)" and ?W = "pushed_count n (bn_prod s)"
  note I = bench_invD[OF inv] and b = buf_okD[OF bench_invD(1)[OF inv]]
  have prod: "?thesis" if "\<exists>s'. prod_step n s = Some s' \<and> bench_rank n s' < bench_rank n s"
    using that bench_step.producer by blast
  have cons: "?thesis" if "\<exists>s'. cons_step n s = Some s' \<and> bench_rank n s' < bench_rank n s"
    using that bench_step.consumer by blast
  consider "bn_cons s = C_done" | i r where "bn_cons s = C_check i r" "r = rb_writeIdx ?q"
    | "bn_cons s \<noteq> C_done" "\<forall>i. bn_cons s \<noteq> C_check i (rb_writeIdx ?q)" by blast
  then show ?thesis
  proof cases
    case 1
    then have "?W = n" "rb_readIdx ?q = rb_writeIdx ?q"
      using b by (simp_all add: popped_count_def word_unat_eq_iff)
    then show ?thesis using I(2) run 1
      by (intro prod) (cases "bn_prod s"; simp add: prod_step.simps bench_rank_def prod_rank_def prod_ok_def pushed_count_def Let_def)
  next
    case 2
    then have "?R = i" "i < n" "i mod length (rb_data ?q) = ?W mod length (rb_data ?q)"
      using I(3) b by (simp_all add: popped_count_def cons_ok_def)
    with mod_window[of i ?W] b have W: "?W = i" by (metis le_neq_implies_less)
    then have "Suc i mod length (rb_data ?q) \<noteq> unat (rb_readIdx ?q)"
      using mod_window[of i "Suc i" "length (rb_data ?q)"] b(1,3) \<open>?R = i\<close> by simp
    then show ?thesis using I(2) run W \<open>i < n\<close> b(11)
      by (intro prod) (cases "bn_prod s"; auto simp: prod_step.simps bench_rank_def prod_rank_def prod_ok_def pushed_count_def
        prod_loop_def Let_def)
  next
    case 3
    have "prod_rank n (?q\<lparr>rb_readIdx := r\<rparr>) p = prod_rank n ?q p" for r p by (cases p) (simp_all add: prod_rank_def)
    with 3 I(3) show ?thesis using b(11)
      by (intro cons) (cases "bn_cons s"; auto simp: cons_step.simps bench_rank_def cons_rank_def cons_ok_def popped_count_def
        cons_loop_def Let_def)
  qed
qed

lemma bench_step_inv: "bench_step n s s' \<Longrightarrow> bench_inv n s \<Longrightarrow> bench_inv n s'"
  using prod_step_inv cons_step_inv by (fastforce elim!: bench_step.cases)

lemma bench_finishes:
  "bench_inv n s \<Longrightarrow> \<exists>t. (bench_step n)\<^sup>*\<^sup>* s t \<and> bn_prod t = P_done"
proof (induction "bench_rank n s" arbitrary: s rule: less_induct)
  case less
  show ?case
  proof (cases "bn_prod s = P_done")
    case False
    then obtain s' where s': "bench_step n s s'" "bench_rank n s' < bench_rank n s"
      using bench_progress[OF less.prems] by blast
    from less.hyps[OF s'(2) bench_step_inv[OF s'(1) less.prems]] s'(1) show ?thesis
      by (meson converse_rtranclp_into_rtranclp)
  qed auto
qed

section \<open>Properties\<close>

text \<open>C26. In every interleaving of the two benchmark threads, at every point: neither thread accesses
  the array outside its bounds, the two never stand at the same array slot with the producer about
  to write it, the consumer never finds a wrong value (so it never throws), it has consumed no more
  than was pushed, and at most \<open>queueSize - 1\<close> values wait in the buffer.\<close>

theorem bench_safe:
  assumes "(bench_step iters)\<^sup>*\<^sup>* (bench_init queueSize iters) s"
  shows "prod_step iters s \<noteq> None \<and> cons_step iters s \<noteq> None \<and> \<not> race s \<and> bn_cons s \<noteq> C_throw
    \<and> popped_count iters (bn_cons s) \<le> pushed_count iters (bn_prod s)
    \<and> pushed_count iters (bn_prod s) - popped_count iters (bn_cons s) \<le> unat queueSize - 1"
proof -
  have inv: "bench_inv iters s" by (rule bench_reachable_inv[OF assms]) (simp add: queueSize_def)
  note I = bench_invD[OF inv] and b = buf_okD[OF bench_invD(1)[OF inv]]
  have l: "length (rb_data (bn_q s)) = unat queueSize" by (rule bench_length[OF assms])
  have "\<not> race s" by (rule bench_inv_no_race[OF inv])
  moreover have "bn_cons s \<noteq> C_throw" using I(3) by (auto simp: cons_ok_def)
  ultimately show ?thesis using prod_step_inv[OF inv] cons_step_inv[OF inv] b(5,6) l by auto
qed

theorem bench_safe_witness:
  "prod_step iters (bench_init queueSize iters) \<noteq> None \<and> \<not> race (bench_init queueSize iters)
    \<and> bn_cons (bench_init queueSize iters) \<noteq> C_throw"
  using bench_safe[OF rtranclp.rtrancl_refl] by simp

text \<open>C27. The benchmark is never stuck: from every state it can reach, some continuation brings the
  main thread past the join, and there the consumer has received all values.\<close>

theorem bench_can_finish:
  assumes "(bench_step iters)\<^sup>*\<^sup>* (bench_init queueSize iters) s"
  shows "\<exists>t. (bench_step iters)\<^sup>*\<^sup>* s t \<and> bn_prod t = P_done \<and> bn_cons t = C_done
    \<and> popped_count iters (bn_cons t) = iters"
proof -
  have inv: "bench_inv iters s" by (rule bench_reachable_inv[OF assms]) (simp add: queueSize_def)
  obtain t where t: "(bench_step iters)\<^sup>*\<^sup>* s t" "bn_prod t = P_done" using bench_finishes[OF inv] by blast
  have "bench_inv iters t"
    by (rule bench_reachable_inv[OF rtranclp_trans[OF assms t(1)]]) (simp add: queueSize_def)
  from bench_invD(4)[OF this t(2)] t show ?thesis by (auto simp: popped_count_def)
qed

theorem bench_can_finish_witness:
  "\<exists>t. (bench_step iters)\<^sup>*\<^sup>* (bench_init queueSize iters) t \<and> bn_prod t = P_done \<and> bn_cons t = C_done"
  using bench_can_finish[OF rtranclp.rtrancl_refl] by blast

end
