(* ===== verification/Ring_Threads2.thy ===== *)
theory Ring_Threads2
  imports Ring_Threads Interleaving
begin

text \<open>
  The same benchmark over \<^verbatim>\<open>ringbuffer2\<close>, whose threads each keep a private copy of the other's index and reload it
  only when the copy says full or empty. Every step of this program is a step of the benchmark over
  \<^verbatim>\<open>ringbuffer\<close>, or changes only a copy; so it inherits the safety of the simpler program. The key is that a stale
  copy is always on the safe side.
\<close>

section \<open>Definitions\<close>

text \<open>The program counters gain the reload of the cached index.\<close>

datatype prod2_pc = Q_push nat | Q_check nat size_t size_t | Q_reload nat size_t size_t | Q_write nat size_t size_t
  | Q_publish nat size_t | Q_wait | Q_wait2 size_t | Q_join | Q_done

datatype cons2_pc = D_pop nat | D_check nat size_t | D_reload nat size_t | D_read nat size_t | D_publish nat size_t int
  | D_test nat int | D_throw | D_done

record bench2 =
  bn2_q :: ringbuffer2
  bn2_prod :: prod2_pc
  bn2_cons :: cons2_pc

definition prod2_loop :: "nat \<Rightarrow> nat \<Rightarrow> prod2_pc" where
  "prod2_loop n i = (if i < n then Q_push i else Q_wait)"

definition cons2_loop :: "nat \<Rightarrow> nat \<Rightarrow> cons2_pc" where
  "cons2_loop n i = (if i < n then D_pop i else D_done)"

definition bench2_init :: "size_t \<Rightarrow> nat \<Rightarrow> bench2" where
  "bench2_init qs n = \<lparr>bn2_q = rb2_new qs, bn2_prod = prod2_loop n 0, bn2_cons = cons2_loop n 0\<rparr>"

fun prod2_step :: "nat \<Rightarrow> bench2 \<Rightarrow> bench2 option" where
  "prod2_step n s =
    (let q = bn2_q s in case bn2_prod s of
      Q_push i \<Rightarrow> Some (s\<lparr>bn2_prod := Q_check i (rb_writeIdx q) (next_idx q (rb_writeIdx q))\<rparr>)
    | Q_check i w nxt \<Rightarrow> Some (s\<lparr>bn2_prod := (if nxt = rb_readIdxCached q then Q_reload i w nxt else Q_write i w nxt)\<rparr>)
    | Q_reload i w nxt \<Rightarrow>
        let q = q\<lparr>rb_readIdxCached := rb_readIdx q\<rparr>
        in Some (s\<lparr>bn2_q := q, bn2_prod := (if nxt = rb_readIdxCached q then Q_push i else Q_write i w nxt)\<rparr>)
    | Q_write i w nxt \<Rightarrow>
        if unat w < length (rb_data q)
        then Some (s\<lparr>bn2_q := q\<lparr>rb_data := (rb_data q)[unat w := int i]\<rparr>, bn2_prod := Q_publish i nxt\<rparr>) else None
    | Q_publish i nxt \<Rightarrow> Some (s\<lparr>bn2_q := q\<lparr>rb_writeIdx := nxt\<rparr>, bn2_prod := prod2_loop n (Suc i)\<rparr>)
    | Q_wait \<Rightarrow> Some (s\<lparr>bn2_prod := Q_wait2 (rb_readIdx q)\<rparr>)
    | Q_wait2 r \<Rightarrow> Some (s\<lparr>bn2_prod := (if r \<noteq> rb_writeIdx q then Q_wait else Q_join)\<rparr>)
    | Q_join \<Rightarrow> Some (if bn2_cons s = D_done then s\<lparr>bn2_prod := Q_done\<rparr> else s)
    | Q_done \<Rightarrow> Some s)"

fun cons2_step :: "nat \<Rightarrow> bench2 \<Rightarrow> bench2 option" where
  "cons2_step n s =
    (let q = bn2_q s in case bn2_cons s of
      D_pop i \<Rightarrow> Some (s\<lparr>bn2_cons := D_check i (rb_readIdx q)\<rparr>)
    | D_check i r \<Rightarrow> Some (s\<lparr>bn2_cons := (if r = rb_writeIdxCached q then D_reload i r else D_read i r)\<rparr>)
    | D_reload i r \<Rightarrow>
        let q = q\<lparr>rb_writeIdxCached := rb_writeIdx q\<rparr>
        in Some (s\<lparr>bn2_q := q, bn2_cons := (if r = rb_writeIdxCached q then D_pop i else D_read i r)\<rparr>)
    | D_read i r \<Rightarrow>
        if unat r < length (rb_data q)
        then Some (s\<lparr>bn2_cons := D_publish i (next_idx q r) (rb_data q ! unat r)\<rparr>) else None
    | D_publish i nxt v \<Rightarrow> Some (s\<lparr>bn2_q := q\<lparr>rb_readIdx := nxt\<rparr>, bn2_cons := D_test i v\<rparr>)
    | D_test i v \<Rightarrow> Some (s\<lparr>bn2_cons := (if v \<noteq> int i then D_throw else cons2_loop n (Suc i))\<rparr>)
    | D_throw \<Rightarrow> Some s
    | D_done \<Rightarrow> Some s)"

declare prod2_step.simps [simp del] cons2_step.simps [simp del]

text \<open>Either thread moves.\<close>

definition bench2_step :: "nat \<Rightarrow> bool \<Rightarrow> bench2 \<Rightarrow> bench2 option" where
  "bench2_step n producer s = (if producer then prod2_step n s else cons2_step n s)"

text \<open>The state of the simpler program: the copies are forgotten, and a reload is the check.\<close>

fun erase_prod :: "prod2_pc \<Rightarrow> prod_pc" where
  "erase_prod (Q_push i) = P_push i"
| "erase_prod (Q_check i w nxt) = P_check i w nxt"
| "erase_prod (Q_reload i w nxt) = P_check i w nxt"
| "erase_prod (Q_write i w nxt) = P_write i w nxt"
| "erase_prod (Q_publish i nxt) = P_publish i nxt"
| "erase_prod Q_wait = P_wait"
| "erase_prod (Q_wait2 r) = P_wait2 r"
| "erase_prod Q_join = P_join"
| "erase_prod Q_done = P_done"

fun erase_cons :: "cons2_pc \<Rightarrow> cons_pc" where
  "erase_cons (D_pop i) = C_pop i"
| "erase_cons (D_check i r) = C_check i r"
| "erase_cons (D_reload i r) = C_check i r"
| "erase_cons (D_read i r) = C_read i r"
| "erase_cons (D_publish i nxt v) = C_publish i nxt v"
| "erase_cons (D_test i v) = C_test i v"
| "erase_cons D_throw = C_throw"
| "erase_cons D_done = C_done"

definition erase :: "bench2 \<Rightarrow> bench" where
  "erase s = \<lparr>bn_q = ringbuffer.truncate (bn2_q s), bn_prod = erase_prod (bn2_prod s), bn_cons = erase_cons (bn2_cons s)\<rparr>"

text \<open>
  The copies as counts: the producer's is a number of values that had been popped, the consumer's a number that had
  been pushed; a producer about to write has room even by its copy, a consumer about to read has a value even by
  its copy.
\<close>

definition writing :: "prod2_pc \<Rightarrow> bool" where
  "writing p = (case p of Q_write i w nxt \<Rightarrow> True | Q_publish i nxt \<Rightarrow> True | _ \<Rightarrow> False)"

definition reading :: "cons2_pc \<Rightarrow> bool" where
  "reading p = (case p of D_read i r \<Rightarrow> True | D_publish i nxt v \<Rightarrow> True | _ \<Rightarrow> False)"

definition read_cache_ok :: "nat \<Rightarrow> size_t \<Rightarrow> bool \<Rightarrow> nat \<Rightarrow> nat \<Rightarrow> bool" where
  "read_cache_ok c x wr R W \<longleftrightarrow> (\<exists>k \<le> R. W < k + c \<and> unat x = k mod c \<and> (wr \<longrightarrow> Suc W < k + c))"

definition write_cache_ok :: "nat \<Rightarrow> size_t \<Rightarrow> bool \<Rightarrow> nat \<Rightarrow> nat \<Rightarrow> bool" where
  "write_cache_ok c x rd R W \<longleftrightarrow> (\<exists>k \<le> W. R \<le> k \<and> unat x = k mod c \<and> (rd \<longrightarrow> R < k))"

definition caches_ok :: "nat \<Rightarrow> bench2 \<Rightarrow> bool" where
  "caches_ok n s \<longleftrightarrow>
     (let q = bn2_q s; c = length (rb_data q); R = popped_count n (erase_cons (bn2_cons s));
          W = pushed_count n (erase_prod (bn2_prod s))
      in read_cache_ok c (rb_readIdxCached q) (writing (bn2_prod s)) R W
         \<and> write_cache_ok c (rb_writeIdxCached q) (reading (bn2_cons s)) R W)"

definition bench2_inv :: "nat \<Rightarrow> bench2 \<Rightarrow> bool" where
  "bench2_inv n s \<longleftrightarrow> bench_inv n (erase s) \<and> caches_ok n s"

text \<open>A step is a step of the simpler program, or it only moves on to a reload.\<close>

definition checks :: "bench2 \<Rightarrow> nat" where
  "checks s = (case bn2_prod s of Q_check i w nxt \<Rightarrow> 1 | _ \<Rightarrow> 0) + (case bn2_cons s of D_check i r \<Rightarrow> 1 | _ \<Rightarrow> 0)"

definition simulates :: "nat \<Rightarrow> bool \<Rightarrow> bench2 \<Rightarrow> bench2 \<Rightarrow> bool" where
  "simulates n producer s s' \<longleftrightarrow> erase s' = erase s \<and> checks s' < checks s
     \<or> (if producer then prod_step n (erase s) else cons_step n (erase s)) = Some (erase s')"

section \<open>Lemmas\<close>

lemma truncate_simps [simp]:
  "rb_data (ringbuffer.truncate q) = rb_data q" "rb_readIdx (ringbuffer.truncate q) = rb_readIdx q"
  "rb_writeIdx (ringbuffer.truncate q) = rb_writeIdx q"
  by (simp_all add: ringbuffer.truncate_def)

lemma next_idx_truncate [simp]: "next_idx (ringbuffer.truncate q) i = next_idx q i"
  by (simp add: next_idx_def)

lemma erase_simps [simp]:
  "bn_q (erase s) = ringbuffer.truncate (bn2_q s)" "bn_prod (erase s) = erase_prod (bn2_prod s)"
  "bn_cons (erase s) = erase_cons (bn2_cons s)"
  by (simp_all add: erase_def)

lemma truncate_update [simp]:
  "ringbuffer.truncate (q\<lparr>rb_readIdxCached := x\<rparr>) = ringbuffer.truncate q"
  "ringbuffer.truncate (q\<lparr>rb_writeIdxCached := x\<rparr>) = ringbuffer.truncate q"
  "ringbuffer.truncate (q\<lparr>rb_data := d\<rparr>) = (ringbuffer.truncate q)\<lparr>rb_data := d\<rparr>"
  "ringbuffer.truncate (q\<lparr>rb_readIdx := x\<rparr>) = (ringbuffer.truncate q)\<lparr>rb_readIdx := x\<rparr>"
  "ringbuffer.truncate (q\<lparr>rb_writeIdx := x\<rparr>) = (ringbuffer.truncate q)\<lparr>rb_writeIdx := x\<rparr>"
  by (simp_all add: ringbuffer.truncate_def)

lemma erase_loop [simp]: "erase_prod (prod2_loop n i) = prod_loop n i" "erase_cons (cons2_loop n i) = cons_loop n i"
  by (simp_all add: prod2_loop_def prod_loop_def cons2_loop_def cons_loop_def)

text \<open>A stale copy is on the safe side: if it shows room, or a value, there is.\<close>

lemma read_cache_room:
  assumes "read_cache_ok c x wr R W" "unat nxt = Suc W mod c" "nxt \<noteq> x" "R \<le> W"
  shows "read_cache_ok c x True R W \<and> Suc W mod c \<noteq> R mod c"
proof -
  obtain k where k: "k \<le> R" "W < k + c" "unat x = k mod c" using assms(1) by (auto simp: read_cache_ok_def)
  have "Suc W \<noteq> k + c" using assms(2,3) k(3) by (auto simp: word_unat_eq_iff)
  then have room: "Suc W < k + c" using k(2) by simp
  then have "Suc W mod c \<noteq> R mod c" using mod_window[of R "Suc W" c] assms(4) k(1) by auto
  then show ?thesis using k room by (auto simp: read_cache_ok_def)
qed

lemma write_cache_value:
  assumes "write_cache_ok c x rd R W" "unat r = R mod c" "r \<noteq> x" "W < R + c"
  shows "write_cache_ok c x True R W \<and> R mod c \<noteq> W mod c"
proof -
  obtain k where k: "R \<le> k" "k \<le> W" "unat x = k mod c" using assms(1) by (auto simp: write_cache_ok_def)
  have "R \<noteq> k" using assms(2,3) k(3) by (auto simp: word_unat_eq_iff)
  then have "R < k" using k(1) by simp
  moreover have "R mod c \<noteq> W mod c" using mod_window[of R W c] \<open>R < k\<close> k(2) assms(4) by auto
  ultimately show ?thesis using k by (auto simp: write_cache_ok_def)
qed

lemma read_cache_mono: "read_cache_ok c x wr R W \<Longrightarrow> R \<le> R' \<Longrightarrow> (wr' \<longrightarrow> wr) \<Longrightarrow> read_cache_ok c x wr' R' W"
  by (auto simp: read_cache_ok_def intro: order_trans)

lemma write_cache_mono: "write_cache_ok c x rd R W \<Longrightarrow> W \<le> W' \<Longrightarrow> (rd' \<longrightarrow> rd) \<Longrightarrow> write_cache_ok c x rd' R W'"
  by (auto simp: write_cache_ok_def intro: order_trans)

lemma read_cache_advance: "read_cache_ok c x True R W \<Longrightarrow> read_cache_ok c x False R (Suc W)"
  by (auto simp: read_cache_ok_def)

lemma write_cache_advance: "write_cache_ok c x True R W \<Longrightarrow> write_cache_ok c x False (Suc R) W"
  by (auto simp: write_cache_ok_def)

lemma caches_okD:
  assumes "caches_ok n s"
  shows "read_cache_ok (length (rb_data (bn2_q s))) (rb_readIdxCached (bn2_q s)) (writing (bn2_prod s))
      (popped_count n (erase_cons (bn2_cons s))) (pushed_count n (erase_prod (bn2_prod s)))"
    "write_cache_ok (length (rb_data (bn2_q s))) (rb_writeIdxCached (bn2_q s)) (reading (bn2_cons s))
      (popped_count n (erase_cons (bn2_cons s))) (pushed_count n (erase_prod (bn2_prod s)))"
  using assms by (simp_all add: caches_ok_def Let_def)

lemma simulates_inv:
  assumes "bench_inv n (erase s)" "simulates n producer s s'"
  shows "bench_inv n (erase s')"
  using prod_step_inv[OF assms(1)] cons_step_inv[OF assms(1)] assms by (auto simp: simulates_def split: if_splits)

lemma prod2_step_sim:
  assumes inv: "bench2_inv n s"
  shows "\<exists>s'. prod2_step n s = Some s' \<and> simulates n True s s' \<and> caches_ok n s'"
proof -
  let ?q = "bn2_q s" and ?R = "popped_count n (erase_cons (bn2_cons s))" and ?W = "pushed_count n (erase_prod (bn2_prod s))"
  have B: "bench_inv n (erase s)" and K: "caches_ok n s" using inv by (simp_all add: bench2_inv_def)
  note I = bench_invD[OF B, simplified] and b = buf_okD[OF bench_invD(1)[OF B], simplified] and k = caches_okD[OF K]
  note simps = prod2_step.simps prod_step.simps simulates_def caches_ok_def Let_def erase_def pushed_count_def writing_def checks_def
  show ?thesis
  proof (cases "bn2_prod s")
    case (Q_check i w nxt)
    have nxt: "unat nxt = Suc ?W mod length (rb_data ?q)" using I(2) Q_check by (simp add: prod_ok_def Let_def)
    show ?thesis
    proof (cases "nxt = rb_readIdxCached ?q")
      case True
      with Q_check k show ?thesis by (simp add: simps)
    next
      case False
      from read_cache_room[OF k(1) nxt False b(5)] have room: "read_cache_ok (length (rb_data ?q)) (rb_readIdxCached ?q) True ?R ?W"
        and "nxt \<noteq> rb_readIdx ?q" using nxt b(3) by auto
      with False Q_check k show ?thesis by (simp add: simps)
    qed
  next
    case (Q_reload i w nxt)
    have nxt: "unat nxt = Suc ?W mod length (rb_data ?q)" using I(2) Q_reload by (simp add: prod_ok_def Let_def)
    have c: "read_cache_ok (length (rb_data ?q)) (rb_readIdx ?q) False ?R ?W" using b(3,6) by (auto simp: read_cache_ok_def)
    show ?thesis
    proof (cases "nxt = rb_readIdx ?q")
      case True
      with Q_reload k c show ?thesis by (simp add: simps)
    next
      case False
      with Q_reload k read_cache_room[OF c nxt False b(5)] show ?thesis by (simp add: simps)
    qed
  next
    case (Q_write i w nxt)
    have "unat w < length (rb_data ?q)" using I(2) b(11) Q_write by (simp add: prod_ok_def Let_def)
    with Q_write k show ?thesis by (simp add: simps)
  next
    case (Q_publish i nxt)
    have "i < n" using I(2) Q_publish by (simp add: prod_ok_def Let_def)
    then have "pushed_count n (prod_loop n (Suc i)) = Suc i" "\<not> writing (prod2_loop n (Suc i))"
      by (auto simp: prod_loop_def prod2_loop_def pushed_count_def writing_def)
    moreover have "?W = i" "writing (bn2_prod s)" using Q_publish by (simp_all add: pushed_count_def writing_def)
    ultimately show ?thesis using Q_publish read_cache_advance[of _ _ ?R ?W] write_cache_mono[OF k(2), of "Suc ?W"] k
      by (simp add: prod2_step.simps prod_step.simps simulates_def caches_ok_def Let_def erase_def)
  next
    case Q_join
    with k show ?thesis by (cases "bn2_cons s") (simp_all add: simps)
  qed (use k in \<open>simp_all add: simps\<close>)
qed

lemma cons2_step_sim:
  assumes inv: "bench2_inv n s"
  shows "\<exists>s'. cons2_step n s = Some s' \<and> simulates n False s s' \<and> caches_ok n s'"
proof -
  let ?q = "bn2_q s" and ?R = "popped_count n (erase_cons (bn2_cons s))" and ?W = "pushed_count n (erase_prod (bn2_prod s))"
  have B: "bench_inv n (erase s)" and K: "caches_ok n s" using inv by (simp_all add: bench2_inv_def)
  note I = bench_invD[OF B, simplified] and b = buf_okD[OF bench_invD(1)[OF B], simplified] and k = caches_okD[OF K]
  note simps = cons2_step.simps cons_step.simps simulates_def caches_ok_def Let_def erase_def popped_count_def reading_def checks_def
  show ?thesis
  proof (cases "bn2_cons s")
    case (D_check i r)
    have r: "unat r = ?R mod length (rb_data ?q)" using I(3) D_check by (simp add: cons_ok_def Let_def)
    show ?thesis
    proof (cases "r = rb_writeIdxCached ?q")
      case True
      with D_check k show ?thesis by (simp add: simps)
    next
      case False
      from write_cache_value[OF k(2) r False b(6)] have "r \<noteq> rb_writeIdx ?q" using r b(4) by auto
      with False D_check k write_cache_value[OF k(2) r False b(6)] show ?thesis by (simp add: simps)
    qed
  next
    case (D_reload i r)
    have r: "unat r = ?R mod length (rb_data ?q)" using I(3) D_reload by (simp add: cons_ok_def Let_def)
    have c: "write_cache_ok (length (rb_data ?q)) (rb_writeIdx ?q) False ?R ?W" using b(4,5) by (auto simp: write_cache_ok_def)
    show ?thesis
    proof (cases "r = rb_writeIdx ?q")
      case True
      with D_reload k c show ?thesis by (simp add: simps)
    next
      case False
      with D_reload k write_cache_value[OF c r False b(6)] show ?thesis by (simp add: simps)
    qed
  next
    case (D_read i r)
    have "unat r < length (rb_data ?q)" using I(3) b(11) D_read by (simp add: cons_ok_def Let_def)
    with D_read k show ?thesis by (simp add: simps)
  next
    case (D_publish i nxt v)
    have "?R = i" "reading (bn2_cons s)" using D_publish by (simp_all add: popped_count_def reading_def)
    then show ?thesis using D_publish write_cache_advance[of _ _ ?R ?W] read_cache_mono[OF k(1), of "Suc ?R"] k
      by (simp add: simps)
  next
    case (D_test i v)
    have "i < n" "v = int i" using I(3) D_test by (simp_all add: cons_ok_def Let_def)
    then have "popped_count n (cons_loop n (Suc i)) = Suc i" "\<not> reading (cons2_loop n (Suc i))"
      by (auto simp: cons_loop_def cons2_loop_def popped_count_def reading_def)
    moreover have "?R = Suc i" "\<not> reading (bn2_cons s)" using D_test by (simp_all add: popped_count_def reading_def)
    ultimately show ?thesis using D_test k \<open>v = int i\<close>
      by (simp add: cons2_step.simps cons_step.simps simulates_def caches_ok_def Let_def erase_def)
  qed (use k in \<open>simp_all add: simps\<close>)
qed

lemma bench2_step_sim:
  assumes "bench2_inv n s"
  shows "\<exists>s'. bench2_step n producer s = Some s' \<and> simulates n producer s s' \<and> bench2_inv n s'"
  using prod2_step_sim[OF assms] cons2_step_sim[OF assms] simulates_inv assms
  by (cases producer) (auto simp: bench2_step_def bench2_inv_def)

interpretation bench2: safe_steps "bench2_step n" "bench2_inv n"
  by unfold_locales (use bench2_step_sim in blast)

lemma erase_init: "erase (bench2_init qs n) = bench_init qs n"
  by (simp add: erase_def bench2_init_def bench_init_def rb2_new_def rb_new_def ringbuffer.truncate_def)

lemma bench2_init_inv:
  assumes "2 \<le> qs"
  shows "bench2_inv n (bench2_init qs n)"
proof -
  have "2 \<le> unat qs" using assms by (simp add: word_le_nat_alt)
  moreover have "pushed_count n (prod_loop n 0) = 0" "popped_count n (cons_loop n 0) = 0"
    "\<not> writing (prod2_loop n 0)" "\<not> reading (cons2_loop n 0)"
    by (auto simp: prod_loop_def cons_loop_def prod2_loop_def cons2_loop_def pushed_count_def popped_count_def writing_def reading_def)
  ultimately have "caches_ok n (bench2_init qs n)"
    by (auto simp: caches_ok_def bench2_init_def rb2_new_def read_cache_ok_def write_cache_ok_def)
  then show ?thesis using bench_init_inv[OF assms, of n] by (simp add: bench2_inv_def erase_init)
qed

text \<open>Every run of this program is, with the copies forgotten, a run of the simpler one.\<close>

lemma reach_erase:
  assumes "reach (bench2_step n) s0 s" "bench2_inv n s0"
  shows "(bench_step n)\<^sup>*\<^sup>* (erase s0) (erase s)"
  using assms(1)
proof (induction rule: reach.induct)
  case (step s c s')
  have "bench2_inv n s" by (rule bench2.reach_inv[OF step.hyps(1) assms(2)])
  then have "simulates n c s s'" using bench2_step_sim[of n s c] step.hyps(2) by auto
  then have "(bench_step n)\<^sup>*\<^sup>* (erase s) (erase s')"
    by (cases c) (auto simp: simulates_def intro: bench_step.intros)
  with step.IH show ?case by (rule rtranclp_trans)
qed simp

lemma bench2_progress:
  assumes inv: "bench2_inv n s" and run: "bn2_prod s \<noteq> Q_done"
  shows "\<exists>c s'. bench2_step n c s = Some s' \<and> bench2_inv n s'
    \<and> 3 * bench_rank n (erase s') + checks s' < 3 * bench_rank n (erase s) + checks s"
proof -
  have "bench_inv n (erase s)" using inv by (simp add: bench2_inv_def)
  moreover have "bn_prod (erase s) \<noteq> P_done" using run by (cases "bn2_prod s") simp_all
  ultimately obtain t c where t: "(if c then prod_step n (erase s) else cons_step n (erase s)) = Some t"
    "bench_rank n t < bench_rank n (erase s)"
    using bench_progress by (metis bench_step.cases)
  obtain s' where s': "bench2_step n c s = Some s'" "simulates n c s s'" "bench2_inv n s'"
    using bench2_step_sim[OF inv] by blast
  have "checks s' \<le> 2" by (auto simp: checks_def split: prod2_pc.splits cons2_pc.splits)
  then have "3 * bench_rank n (erase s') + checks s' < 3 * bench_rank n (erase s) + checks s"
    using s'(2) t by (auto simp: simulates_def)
  with s' show ?thesis by blast
qed

lemma bench2_finishes:
  "bench2_inv n s \<Longrightarrow> \<exists>cs t. schedule (bench2_step n) cs s = Some t \<and> bn2_prod t = Q_done"
proof (induction "3 * bench_rank n (erase s) + checks s" arbitrary: s rule: less_induct)
  case less
  show ?case
  proof (cases "bn2_prod s = Q_done")
    case True
    then have "schedule (bench2_step n) [] s = Some s" by simp
    with True show ?thesis by blast
  next
    case False
    then obtain c s' where s': "bench2_step n c s = Some s'" "bench2_inv n s'"
      "3 * bench_rank n (erase s') + checks s' < 3 * bench_rank n (erase s) + checks s"
      using bench2_progress[OF less.prems] by blast
    from less.hyps[OF s'(3,2)] obtain cs t where "schedule (bench2_step n) cs s' = Some t" "bn2_prod t = Q_done" by blast
    with s'(1) have "schedule (bench2_step n) (c # cs) s = Some t" by simp
    with \<open>bn2_prod t = Q_done\<close> show ?thesis by blast
  qed
qed

section \<open>Properties\<close>

text \<open>C28. Caching the other thread's index is sound under every interleaving: forgetting the cached copies turns each run of
  the benchmark over \<^verbatim>\<open>ringbuffer2\<close> into a run of the benchmark over \<^verbatim>\<open>ringbuffer\<close>. Neither thread leaves the
  array, they never meet at a slot, and the consumer never finds a wrong value.\<close>

theorem bench2_refines_bench:
  assumes "reach (bench2_step iters) (bench2_init queueSize iters) s"
  shows "(bench_step iters)\<^sup>*\<^sup>* (bench_init queueSize iters) (erase s)
    \<and> prod2_step iters s \<noteq> None \<and> cons2_step iters s \<noteq> None \<and> \<not> race (erase s) \<and> bn2_cons s \<noteq> D_throw"
proof -
  have init: "bench2_inv iters (bench2_init queueSize iters)" by (rule bench2_init_inv) (simp add: queueSize_def)
  have inv: "bench2_inv iters s" by (rule bench2.reach_inv[OF assms init])
  have B: "bench_inv iters (erase s)" using inv by (simp add: bench2_inv_def)
  have "bn2_cons s \<noteq> D_throw" using bench_invD(3)[OF B] by (auto simp: cons_ok_def)
  then show ?thesis
    using reach_erase[OF assms init] prod2_step_sim[OF inv] cons2_step_sim[OF inv] bench_inv_no_race[OF B] by (auto simp: erase_init)
qed

theorem bench2_refines_bench_witness:
  "\<not> race (erase (bench2_init queueSize iters)) \<and> prod2_step iters (bench2_init queueSize iters) \<noteq> None"
  using bench2_refines_bench[OF reach.start] by simp

text \<open>The cached benchmark is never stuck either: from every state it can reach some schedule brings the main
  thread past the join, with all values consumed.\<close>

theorem bench2_can_finish:
  assumes "reach (bench2_step iters) (bench2_init queueSize iters) s"
  shows "\<exists>cs t. schedule (bench2_step iters) cs s = Some t \<and> bn2_prod t = Q_done \<and> bn2_cons t = D_done"
proof -
  have init: "bench2_inv iters (bench2_init queueSize iters)" by (rule bench2_init_inv) (simp add: queueSize_def)
  have inv: "bench2_inv iters s" by (rule bench2.reach_inv[OF assms init])
  obtain cs t where t: "schedule (bench2_step iters) cs s = Some t" "bn2_prod t = Q_done" using bench2_finishes[OF inv] by blast
  have "bench2_inv iters t" using bench2.schedule_total[OF inv, of cs] t(1) by auto
  then have "bn_cons (erase t) = C_done" using bench_invD(4)[of iters "erase t"] t(2) by (simp add: bench2_inv_def)
  then have "bn2_cons t = D_done" by (cases "bn2_cons t") simp_all
  with t show ?thesis by blast
qed

theorem bench2_can_finish_witness:
  "\<exists>cs t. schedule (bench2_step iters) cs (bench2_init queueSize iters) = Some t \<and> bn2_prod t = Q_done"
  using bench2_can_finish[OF reach.start] by blast

end
