(* ===== verification/Ipc_Queue.thy ===== *)
theory Ipc_Queue
  imports Fifo
begin

text \<open>
  The shared-memory queue of unids of \<^verbatim>\<open>spike/ipc_circular_queue.hpp\<close> and
  \<^verbatim>\<open>spike/ipc_circular_queue.cpp\<close>. Its operations are modelled twice: run to completion, as
  \<^verbatim>\<open>main\<close> uses them, and access by access for one producer and one consumer thread.
  An index outside the array is \<open>None\<close>; arithmetic is 32-bit.
\<close>

section \<open>Definitions\<close>

record ipc_queue =
  ipc_queue :: "u64 list"
  ipc_front :: u32
  ipc_rear :: u32
  ipc_capacity :: u32
  ipc_size :: u32

text \<open>
  \<^verbatim>\<open>memset(queue, 0, capacity)\<close> clears \<^verbatim>\<open>capacity\<close> bytes of the \<^verbatim>\<open>8 * capacity\<close> bytes of the
  array: of element \<open>i\<close>, which held \<open>w\<close>, the low bytes that lie in the cleared range.
\<close>

definition memset_element :: "nat \<Rightarrow> nat \<Rightarrow> u64 \<Rightarrow> u64" where
  "memset_element count i w = (let k = min 64 (8 * (count - 8 * i)) in push_bit k (drop_bit k w))"

definition ipc_new :: "(nat \<Rightarrow> u64) \<Rightarrow> u32 \<Rightarrow> exn + ipc_queue" where
  "ipc_new garbage cap =
     (if cap = 0 then Inl (Invalid_argument ''Circular_queue: Capacity must be > 0'')
      else Inr \<lparr>ipc_queue = map (\<lambda>i. memset_element (unat cap) i (garbage i)) [0..<unat cap],
        ipc_front = 0, ipc_rear = 0, ipc_capacity = cap, ipc_size = 0\<rparr>)"

definition ipc_increment :: "ipc_queue \<Rightarrow> u32 \<Rightarrow> u32" where
  "ipc_increment q index = (index + 1) mod ipc_capacity q"

definition ipc_enqueue :: "ipc_queue \<Rightarrow> u64 \<Rightarrow> (exn + bool \<times> ipc_queue) option" where
  "ipc_enqueue q unid =
     (let current_rear = ipc_rear q; next_rear = ipc_increment q current_rear in
      if next_rear \<noteq> ipc_front q then
        if unat current_rear < length (ipc_queue q)
        then Some (Inr (True, q\<lparr>ipc_queue := (ipc_queue q)[unat current_rear := unid],
               ipc_rear := next_rear, ipc_size := ipc_size q + 1\<rparr>))
        else None
      else Some (Inl (Logic_error ''enqueue(): Queue overflow'')))"

text \<open>\<^verbatim>\<open>dequeue\<close> returns true together with the unid it wrote to its argument, or false.\<close>

definition ipc_dequeue :: "ipc_queue \<Rightarrow> (u64 option \<times> ipc_queue) option" where
  "ipc_dequeue q =
     (let current_front = ipc_front q in
      if current_front = ipc_rear q then Some (None, q)
      else if unat current_front < length (ipc_queue q)
      then Some (Some (ipc_queue q ! unat current_front),
             q\<lparr>ipc_front := ipc_increment q current_front, ipc_size := ipc_size q - 1\<rparr>)
      else None)"

definition ipc_was_empty :: "ipc_queue \<Rightarrow> bool" where
  "ipc_was_empty q \<longleftrightarrow> ipc_front q = ipc_rear q"

definition ipc_was_full :: "ipc_queue \<Rightarrow> bool" where
  "ipc_was_full q \<longleftrightarrow> ipc_increment q (ipc_rear q) = ipc_front q"

definition show_word :: "'a::len word \<Rightarrow> string" where
  "show_word w = show_base 10 (unat w)"

fun ipc_print_values :: "ipc_queue \<Rightarrow> nat list \<Rightarrow> string" where
  "ipc_print_values q [] = ''''"
| "ipc_print_values q (i # is) =
     ''value['' @ show_base 10 i @ '']: '' @ show_word (ipc_queue q ! i)
     @ (if i = unat (ipc_front q) \<and> i = unat (ipc_rear q) then '' <- Front <- Rear''
        else if i = unat (ipc_front q) then '' <- Front''
        else if i = unat (ipc_rear q) then '' <- Rear'' else '''')
     @ ''\<newline>'' @ ipc_print_values q is"

definition ipc_print_queue_state :: "ipc_queue \<Rightarrow> string \<Rightarrow> string" where
  "ipc_print_queue_state q message =
     ''---------------------------------\<newline>'' @ message @ ''\<newline>front: '' @ show_word (ipc_front q)
     @ ''\<newline>rear: '' @ show_word (ipc_rear q) @ ''\<newline>capacity: '' @ show_word (ipc_capacity q)
     @ ''\<newline>size: '' @ show_word (ipc_size q) @ ''\<newline>'' @ ipc_print_values q [0..<unat (ipc_capacity q)]"

text \<open>
  \<^verbatim>\<open>main\<close>: what it writes to the two streams, or the exception that leaves it. \<open>g1\<close>, \<open>g2\<close>, \<open>g3\<close>
  are the contents of the memory the three queues are built in.
\<close>

fun ipc_enqueue_all :: "ipc_queue \<Rightarrow> u64 list \<Rightarrow> (exn + ipc_queue) option" where
  "ipc_enqueue_all q [] = Some (Inr q)"
| "ipc_enqueue_all q (v # vs) = do {
     r \<leftarrow> ipc_enqueue q v;
     case r of Inl x \<Rightarrow> Some (Inl x) | Inr (_, q) \<Rightarrow> ipc_enqueue_all q vs
   }"

definition ipc_main0 :: "exn + string" where
  "ipc_main0 = (case ipc_new (\<lambda>_. 0) 0 of
     Inl (Invalid_argument what) \<Rightarrow> Inr (what @ ''\<newline>'') | Inl x \<Rightarrow> Inl x | Inr q \<Rightarrow> Inr '''')"

definition ipc_main1 :: "(nat \<Rightarrow> u64) \<Rightarrow> exn + string" where
  "ipc_main1 g = (case ipc_new g 5 of
     Inl x \<Rightarrow> Inl x | Inr q \<Rightarrow> Inr (ipc_print_queue_state q ''1. Construct - capacity = 5''))"

definition ipc_main2 :: "(nat \<Rightarrow> u64) \<Rightarrow> (exn + string) option" where
  "ipc_main2 g = (case ipc_new g 5 of
     Inl x \<Rightarrow> Some (Inl x)
   | Inr q \<Rightarrow> do {
       r \<leftarrow> ipc_enqueue_all q [1, 2, 3];
       case r of Inl x \<Rightarrow> Some (Inl x)
       | Inr q \<Rightarrow> do {
           let out = ipc_print_queue_state q ''2. Enqueue 3 values'';
           (_, q) \<leftarrow> ipc_dequeue q;
           let out = out @ ipc_print_queue_state q ''3. Dequeue 1 value'';
           (_, q) \<leftarrow> ipc_dequeue q;
           (_, q) \<leftarrow> ipc_dequeue q;
           Some (Inr (out @ ipc_print_queue_state q ''3. Dequeue 2 values - now empty''))
         }
     })"

definition ipc_main3 :: "(nat \<Rightarrow> u64) \<Rightarrow> (exn + string \<times> string) option" where
  "ipc_main3 g = (case ipc_new g 5 of
     Inl x \<Rightarrow> Some (Inl x)
   | Inr q \<Rightarrow> do {
       r \<leftarrow> ipc_enqueue_all q [1, 2, 3, 4];
       case r of Inl x \<Rightarrow> Some (Inl x)
       | Inr q \<Rightarrow> do {
           r \<leftarrow> ipc_enqueue q 5;
           case r of
             Inl (Logic_error what) \<Rightarrow>
               Some (Inr (ipc_print_queue_state q ''4. Equeue 6 values - overflow!'', what @ ''\<newline>''))
           | Inl x \<Rightarrow> Some (Inl x)
           | Inr (_, q) \<Rightarrow> Some (Inr (ipc_print_queue_state q ''4. Equeue 6 values - overflow!'', ''''))
         }
     })"

definition ipc_main :: "(nat \<Rightarrow> u64) \<Rightarrow> (nat \<Rightarrow> u64) \<Rightarrow> (nat \<Rightarrow> u64) \<Rightarrow> (exn + string \<times> string) option" where
  "ipc_main g1 g2 g3 = (case (ipc_main0, ipc_main1 g1) of
       (Inr err0, Inr out1) \<Rightarrow> do {
         r2 \<leftarrow> ipc_main2 g2;
         case r2 of Inl x \<Rightarrow> Some (Inl x)
         | Inr out2 \<Rightarrow> do {
             r3 \<leftarrow> ipc_main3 g3;
             case r3 of Inl x \<Rightarrow> Some (Inl x)
             | Inr (out3, err3) \<Rightarrow>
                 Some (Inr (''Starting main()\<newline>Functionality tests\<newline>0. Construct - capacity = 0\<newline>'' @ out1 @ out2 @ out3,
                   err0 @ err3))
           }
       }
     | (Inl x, _) \<Rightarrow> Some (Inl x)
     | (_, Inl x) \<Rightarrow> Some (Inl x))"

text \<open>The operations in the form of the queue interface.\<close>

fun ipc_step :: "ipc_queue \<Rightarrow> u64 qop \<Rightarrow> (u64 qres \<times> ipc_queue) option" where
  "ipc_step q (Push v) = map_option (\<lambda>r. case r of Inl x \<Rightarrow> (Full, q) | Inr (_, q) \<Rightarrow> (Pushed, q)) (ipc_enqueue q v)"
| "ipc_step q Pop = map_option (\<lambda>(r, q). (case r of None \<Rightarrow> Empty | Some v \<Rightarrow> Popped v, q)) (ipc_dequeue q)"

definition ipc_count :: "ipc_queue \<Rightarrow> nat" where
  "ipc_count q = ring_count (length (ipc_queue q)) (unat (ipc_front q)) (unat (ipc_rear q))"

definition ipc_abs :: "ipc_queue \<Rightarrow> u64 list" where
  "ipc_abs q = ring_list (ipc_queue q) (unat (ipc_front q)) (ipc_count q)"

definition ipc_room :: "ipc_queue \<Rightarrow> nat" where
  "ipc_room q = length (ipc_queue q) - 1"

definition ipc_inv :: "ipc_queue \<Rightarrow> bool" where
  "ipc_inv q \<longleftrightarrow> unat (ipc_capacity q) = length (ipc_queue q) \<and> unat (ipc_front q) < length (ipc_queue q)
     \<and> unat (ipc_rear q) < length (ipc_queue q) \<and> ipc_size q = of_nat (ipc_count q)"

text \<open>
  One call of \<^verbatim>\<open>enqueue\<close> in the producer thread and one of \<^verbatim>\<open>dequeue\<close> in the consumer thread, access
  by access. \<^verbatim>\<open>size++\<close> and \<^verbatim>\<open>size--\<close> on the plain \<^verbatim>\<open>uint32_t\<close> are a load and a store.
\<close>

datatype enq_pc = E_rear | E_front u32 u32 | E_write u32 u32 | E_store u32 | E_size | E_size_store u32
  | E_true | E_throw

datatype deq_pc = D_front | D_rear u32 | D_read u32 | D_store u32 u64 | D_size u64 | D_size_store u64 u32
  | D_true u64 | D_false

fun enq_step :: "u64 \<Rightarrow> enq_pc \<times> ipc_queue \<Rightarrow> (enq_pc \<times> ipc_queue) option" where
  "enq_step unid (pc, q) = (case pc of
     E_rear \<Rightarrow> Some (E_front (ipc_rear q) (ipc_increment q (ipc_rear q)), q)
   | E_front r nxt \<Rightarrow> Some (if nxt \<noteq> ipc_front q then E_write r nxt else E_throw, q)
   | E_write r nxt \<Rightarrow> if unat r < length (ipc_queue q)
       then Some (E_store nxt, q\<lparr>ipc_queue := (ipc_queue q)[unat r := unid]\<rparr>) else None
   | E_store nxt \<Rightarrow> Some (E_size, q\<lparr>ipc_rear := nxt\<rparr>)
   | E_size \<Rightarrow> Some (E_size_store (ipc_size q), q)
   | E_size_store s \<Rightarrow> Some (E_true, q\<lparr>ipc_size := s + 1\<rparr>)
   | E_true \<Rightarrow> Some (E_true, q)
   | E_throw \<Rightarrow> Some (E_throw, q))"

fun deq_step :: "deq_pc \<times> ipc_queue \<Rightarrow> (deq_pc \<times> ipc_queue) option" where
  "deq_step (pc, q) = (case pc of
     D_front \<Rightarrow> Some (D_rear (ipc_front q), q)
   | D_rear f \<Rightarrow> Some (if f = ipc_rear q then D_false else D_read f, q)
   | D_read f \<Rightarrow> if unat f < length (ipc_queue q) then Some (D_store f (ipc_queue q ! unat f), q) else None
   | D_store f v \<Rightarrow> Some (D_size v, q\<lparr>ipc_front := ipc_increment q f\<rparr>)
   | D_size v \<Rightarrow> Some (D_size_store v (ipc_size q), q)
   | D_size_store v s \<Rightarrow> Some (D_true v, q\<lparr>ipc_size := s - 1\<rparr>)
   | D_true v \<Rightarrow> Some (D_true v, q)
   | D_false \<Rightarrow> Some (D_false, q))"

text \<open>A schedule says which thread moves next, the producer on \<open>True\<close>.\<close>

fun ipc_sched :: "u64 \<Rightarrow> bool list \<Rightarrow> enq_pc \<times> deq_pc \<times> ipc_queue \<Rightarrow> (enq_pc \<times> deq_pc \<times> ipc_queue) option" where
  "ipc_sched unid [] s = Some s"
| "ipc_sched unid (True # sch) (e, d, q) = do { (e, q) \<leftarrow> enq_step unid (e, q); ipc_sched unid sch (e, d, q) }"
| "ipc_sched unid (False # sch) (e, d, q) = do { (d, q) \<leftarrow> deq_step (d, q); ipc_sched unid sch (e, d, q) }"

section \<open>Refinement of the list queue\<close>

lemma ipc_increment_unat:
  assumes "ipc_inv q" "unat i < length (ipc_queue q)"
  shows "unat (ipc_increment q i) = Suc (unat i) mod length (ipc_queue q)"
proof -
  have "length (ipc_queue q) < 2 ^ LENGTH(32)"
    using assms(1) unsigned_less[of "ipc_capacity q"] by (metis ipc_inv_def unsigned_less)
  then have "unat (i + 1) = Suc (unat i)" using assms(2) by (simp add: unat_add_less)
  then show ?thesis using assms(1) by (simp add: ipc_increment_def unat_mod ipc_inv_def)
qed

lemma ipc_full_iff:
  assumes "ipc_inv q"
  shows "ipc_increment q (ipc_rear q) = ipc_front q \<longleftrightarrow> ipc_count q = ipc_room q"
    "ipc_front q = ipc_rear q \<longleftrightarrow> ipc_count q = 0" "ipc_count q \<le> ipc_room q"
proof -
  let ?n = "length (ipc_queue q)" and ?f = "unat (ipc_front q)" and ?r = "unat (ipc_rear q)"
  have fr: "?f < ?n" "?r < ?n" using assms by (simp_all add: ipc_inv_def)
  note laws = ring_count_laws[OF fr]
  show "ipc_increment q (ipc_rear q) = ipc_front q \<longleftrightarrow> ipc_count q = ipc_room q"
    using laws(4) ipc_increment_unat[OF assms fr(2)] by (simp add: word_unat_eq_iff ipc_count_def ipc_room_def)
  show "ipc_front q = ipc_rear q \<longleftrightarrow> ipc_count q = 0"
    using laws(3) by (simp add: word_unat_eq_iff ipc_count_def)
  show "ipc_count q \<le> ipc_room q" using laws(1) by (simp add: ipc_count_def ipc_room_def)
qed

lemma ipc_enqueue_ok:
  assumes inv: "ipc_inv q" and room: "ipc_count q < ipc_room q"
  shows "\<exists>q'. ipc_enqueue q v = Some (Inr (True, q')) \<and> ipc_inv q' \<and> ipc_abs q' = ipc_abs q @ [v]
    \<and> ipc_room q' = ipc_room q"
proof -
  let ?n = "length (ipc_queue q)" and ?f = "unat (ipc_front q)" and ?r = "unat (ipc_rear q)"
  let ?q' = "q\<lparr>ipc_queue := (ipc_queue q)[?r := v], ipc_rear := ipc_increment q (ipc_rear q), ipc_size := ipc_size q + 1\<rparr>"
  have fr: "?f < ?n" "?r < ?n" using inv by (simp_all add: ipc_inv_def)
  note laws = ring_count_laws[OF fr]
  have nx: "unat (ipc_increment q (ipc_rear q)) = Suc ?r mod ?n" using ipc_increment_unat[OF inv fr(2)] .
  have run: "ipc_enqueue q v = Some (Inr (True, ?q'))"
    using ipc_full_iff(1)[OF inv] room fr by (simp add: ipc_enqueue_def Let_def)
  have "Suc ?r mod ?n \<noteq> ?f" using laws(4) room by (auto simp: ipc_count_def ipc_room_def)
  from laws(5)[OF this] have count: "ipc_count ?q' = Suc (ipc_count q)" by (simp add: ipc_count_def nx)
  have "Suc ?r mod ?n < ?n" using fr(1) by (intro mod_less_divisor) linarith
  then have "ipc_inv ?q'" using inv count nx by (simp add: ipc_inv_def)
  moreover have "ring_list ((ipc_queue q)[(?f + ipc_count q) mod ?n := v]) ?f (Suc (ipc_count q))
      = ring_list (ipc_queue q) ?f (ipc_count q) @ [v]"
    using laws(1) by (intro ring_list_push fr(1)) (simp add: ipc_count_def)
  then have "ipc_abs ?q' = ipc_abs q @ [v]" using laws(2) count by (simp add: ipc_abs_def ipc_count_def)
  ultimately show ?thesis using run by (simp add: ipc_room_def)
qed

lemma ipc_dequeue_ok:
  assumes inv: "ipc_inv q" and some: "0 < ipc_count q"
  shows "\<exists>x q'. ipc_dequeue q = Some (Some x, q') \<and> ipc_inv q' \<and> ipc_abs q = x # ipc_abs q'
    \<and> ipc_room q' = ipc_room q"
proof -
  let ?n = "length (ipc_queue q)" and ?f = "unat (ipc_front q)" and ?r = "unat (ipc_rear q)"
  let ?q' = "q\<lparr>ipc_front := ipc_increment q (ipc_front q), ipc_size := ipc_size q - 1\<rparr>"
  have fr: "?f < ?n" "?r < ?n" using inv by (simp_all add: ipc_inv_def)
  note laws = ring_count_laws[OF fr]
  have nx: "unat (ipc_increment q (ipc_front q)) = Suc ?f mod ?n" using ipc_increment_unat[OF inv fr(1)] .
  have run: "ipc_dequeue q = Some (Some (ipc_queue q ! ?f), ?q')"
    using ipc_full_iff(2)[OF inv] some fr by (simp add: ipc_dequeue_def Let_def)
  have "?f \<noteq> ?r" using laws(3) some by (auto simp: ipc_count_def)
  from laws(6)[OF this] have count: "ipc_count q = Suc (ipc_count ?q')"
    using some by (simp add: ipc_count_def nx)
  have "Suc ?f mod ?n < ?n" using fr(1) by (intro mod_less_divisor) linarith
  moreover have "ipc_size q - 1 = of_nat (ipc_count ?q')" using inv count unfolding ipc_inv_def by (metis add_diff_cancel_left' of_nat_Suc)
  ultimately have "ipc_inv ?q'" using inv nx by (simp add: ipc_inv_def)
  moreover have "ipc_abs q = ipc_queue q ! ?f # ipc_abs ?q'"
    using ring_list_pop[OF fr(1), of "ipc_count q"] count by (simp add: ipc_abs_def nx)
  ultimately show ?thesis using run by (simp add: ipc_room_def)
qed

lemma ipc_abs_length [simp]: "length (ipc_abs q) = ipc_count q"
  by (simp add: ipc_abs_def)

interpretation ipc: bounded_fifo ipc_step ipc_inv ipc_abs "\<lambda>x. x" ipc_room
proof
  show "length (ipc_abs q) \<le> ipc_room q" if "ipc_inv q" for q using ipc_full_iff(3)[OF that] by simp
  fix q op assume inv: "ipc_inv q"
  note iff = ipc_full_iff[OF inv]
  show "\<exists>q'. ipc_step q op = Some (fst (list_step (\<lambda>x. x) (ipc_room q) (ipc_abs q) op), q')
      \<and> ipc_inv q' \<and> ipc_abs q' = snd (list_step (\<lambda>x. x) (ipc_room q) (ipc_abs q) op) \<and> ipc_room q' = ipc_room q"
  proof (cases op)
    case (Push v)
    show ?thesis
    proof (cases "ipc_count q < ipc_room q")
      case True
      from ipc_enqueue_ok[OF inv this, of v] True show ?thesis by (auto simp: Push)
    next
      case False
      with iff have "ipc_enqueue q v = Some (Inl (Logic_error ''enqueue(): Queue overflow''))"
        by (simp add: ipc_enqueue_def Let_def)
      with Push False inv show ?thesis by simp
    qed
  next
    case Pop
    show ?thesis
    proof (cases "ipc_count q")
      case 0
      then have "ipc_abs q = []" by (metis ipc_abs_length length_0_conv)
      with 0 Pop inv iff show ?thesis by (simp add: ipc_dequeue_def)
    next
      case (Suc m)
      then show ?thesis using ipc_dequeue_ok[OF inv] Pop by auto
    qed
  qed
qed

lemma ipc_new_ok:
  assumes "0 < cap"
  shows "\<exists>q. ipc_new g cap = Inr q \<and> ipc_inv q \<and> ipc_abs q = [] \<and> ipc_room q = unat cap - 1"
proof -
  have "0 < unat cap" using assms by (simp add: word_less_nat_alt)
  then show ?thesis using assms
    by (auto simp: ipc_new_def ipc_inv_def ipc_abs_def ipc_count_def ipc_room_def ring_count_eq ring_list_def)
qed

lemma memset_element_cases:
  "8 * i + 8 \<le> count \<Longrightarrow> memset_element count i w = 0"
  "count \<le> 8 * i \<Longrightarrow> memset_element count i w = w"
  by (simp_all add: memset_element_def Let_def)

section \<open>Properties\<close>

text \<open>C29. Built with a positive capacity, the queue is a first-in first-out queue of at most
  \<open>capacity - 1\<close> unids whatever the memory held before: any sequence of calls is defined and gives the
  results of the list queue, where the refusal of an \<^verbatim>\<open>enqueue\<close> is the exception; the dequeued unids
  are the accepted ones in order, and \<^verbatim>\<open>size\<close> is the number of unids that are left. This is what
  \<^verbatim>\<open>ipc_circular_queue.cpp\<close> does; the comments of its header say otherwise in two places, that a full queue makes
  \<^verbatim>\<open>enqueue\<close> return false, and that \<^verbatim>\<open>capacity\<close> is the maximum number of unids.\<close>

theorem ipc_queue_fifo:
  assumes "0 < cap"
  shows "\<exists>q rs q'. ipc_new g cap = Inr q \<and> run_ops ipc_step q ops = Some (rs, q')
    \<and> (rs, ipc_abs q') = list_run (\<lambda>x. x) (unat cap - 1) [] ops
    \<and> accepted ops rs = popped rs @ ipc_abs q' \<and> unat (ipc_size q') = length (ipc_abs q')"
proof -
  obtain q where q: "ipc_new g cap = Inr q" "ipc_inv q" "ipc_abs q = []" "ipc_room q = unat cap - 1"
    using ipc_new_ok[OF assms] by blast
  obtain q' where q': "run_ops ipc_step q ops = Some (fst (list_run (\<lambda>x. x) (unat cap - 1) [] ops), q')" "ipc_inv q'"
    "ipc_abs q' = snd (list_run (\<lambda>x. x) (unat cap - 1) [] ops)" "ipc_room q' = unat cap - 1"
    using ipc.run_refines[OF q(2), of ops] q(3,4) by auto
  obtain rs ys where run: "list_run (\<lambda>x. x) (unat cap - 1) [] ops = (rs, ys)" by fastforce
  have "ipc_count q' < 2 ^ LENGTH(32)"
    using ipc_full_iff(3)[OF q'(2)] q'(4) unsigned_less[of cap] by (metis diff_le_self le_less_trans order_le_less_trans unsigned_less)
  then have "unat (ipc_size q') = length (ipc_abs q')" using q'(2) by (simp add: ipc_inv_def unat_of_nat)
  with list_run_fifo[OF run] q q' run show ?thesis by auto
qed

theorem ipc_queue_fifo_witness:
  "\<exists>q rs q'. ipc_new (\<lambda>_. 99) 3 = Inr q
    \<and> run_ops ipc_step q [Push 5, Push 6, Push 7, Pop, Push 8] = Some (rs, q')
    \<and> rs = [Pushed, Pushed, Full, Popped 5, Pushed] \<and> ipc_abs q' = [6, 8] \<and> unat (ipc_size q') = 2"
  using ipc_queue_fifo[of 3 "\<lambda>_. 99" "[Push 5, Push 6, Push 7, Pop, Push 8]"]
  by (auto simp del: run_ops.simps ipc_abs_length dest!: sym[of "[6, 8]"])

text \<open>Under two threads the plain counter \<^verbatim>\<open>size\<close> loses updates: there is a queue holding one unid
  and an interleaving of one \<^verbatim>\<open>enqueue\<close> with one \<^verbatim>\<open>dequeue\<close> in which both return true and the queue
  again holds one unid, the enqueued one, but \<^verbatim>\<open>size\<close> is left at 2; in another order of the same accesses it is left
  at 0.\<close>

theorem ipc_size_lost_update:
  "\<exists>q q' q''. ipc_inv q \<and> ipc_abs q = [7] \<and> ipc_size q = 1
    \<and> ipc_sched 8 (replicate 5 True @ replicate 6 False @ [True]) (E_rear, D_front, q) = Some (E_true, D_true 7, q')
    \<and> ipc_abs q' = [8] \<and> ipc_size q' = 2
    \<and> ipc_sched 8 (replicate 5 False @ replicate 6 True @ [False]) (E_rear, D_front, q) = Some (E_true, D_true 7, q'')
    \<and> ipc_abs q'' = [8] \<and> ipc_size q'' = 0"
proof -
  let ?q = "\<lambda>a f r n. \<lparr>ipc_queue = a, ipc_front = f, ipc_rear = r, ipc_capacity = 3, ipc_size = n\<rparr>"
  have abs: "ipc_abs (?q [7, 0, 0] 0 1 n) = [7]" "ipc_abs (?q [7, 8, 0] 1 2 n) = [8]" for n
    by (simp_all add: ipc_abs_def ipc_count_def ring_count_def ring_list_def upt_rec)
  have rep: "replicate 5 b = [b, b, b, b, b]" "replicate 6 b = [b, b, b, b, b, b]" for b :: bool
    by (simp_all add: eval_nat_numeral)
  have run1: "ipc_sched 8 (replicate 5 True @ replicate 6 False @ [True]) (E_rear, D_front, ?q [7, 0, 0] 0 1 1)
      = Some (E_true, D_true 7, ?q [7, 8, 0] 1 2 2)"
    by (simp add: rep ipc_increment_def)
  have run2: "ipc_sched 8 (replicate 5 False @ replicate 6 True @ [False]) (E_rear, D_front, ?q [7, 0, 0] 0 1 1)
      = Some (E_true, D_true 7, ?q [7, 8, 0] 1 2 0)"
    by (simp add: rep ipc_increment_def)
  have "ipc_inv (?q [7, 0, 0] 0 1 1)" by (simp add: ipc_inv_def ipc_count_def ring_count_def)
  with abs run1 run2 show ?thesis by (intro exI conjI) (assumption | simp)+
qed

text \<open>The test program catches both exceptions it provokes, never indexes outside a queue, and
  writes the two messages to the error stream, whatever the memory of its queues held.\<close>

theorem ipc_main_ok:
  "\<exists>out. ipc_main g1 g2 g3 = Some (Inr (out, ''Circular_queue: Capacity must be > 0\<newline>enqueue(): Queue overflow\<newline>''))"
proof -
  obtain o2 where "ipc_main2 g2 = Some (Inr o2)"
    by (simp add: ipc_main2_def ipc_new_def ipc_enqueue_def ipc_dequeue_def ipc_increment_def Let_def)
  moreover obtain o3 where "ipc_main3 g3 = Some (Inr (o3, ''enqueue(): Queue overflow\<newline>''))"
    by (simp add: ipc_main3_def ipc_new_def ipc_enqueue_def ipc_increment_def Let_def)
  ultimately show ?thesis by (simp add: ipc_main_def ipc_main0_def ipc_main1_def ipc_new_def)
qed

text \<open>The constructor clears only the first \<^verbatim>\<open>capacity\<close> bytes of the array: an element whose
  bytes lie behind them keeps what the memory held, an element within them is zero.\<close>

theorem ipc_new_clears_bytes:
  assumes "0 < cap" "i < unat cap"
  shows "\<exists>q. ipc_new g cap = Inr q \<and> (8 * i + 8 \<le> unat cap \<longrightarrow> ipc_queue q ! i = 0)
    \<and> (unat cap \<le> 8 * i \<longrightarrow> ipc_queue q ! i = g i)"
  using assms by (auto simp: ipc_new_def memset_element_cases)

theorem ipc_new_clears_bytes_witness:
  "\<exists>q. ipc_new (\<lambda>_. 99) 5 = Inr q \<and> ipc_queue q ! 1 = 99"
  using ipc_new_clears_bytes[of 5 1 "\<lambda>_. 99"] by simp

end
