(* ===== verification/Ipc_Threads.thy ===== *)
theory Ipc_Threads
  imports Ipc_Queue Interleaving
begin

text \<open>
  The queue of \<^verbatim>\<open>spike/ipc_circular_queue.cpp\<close> between one producer and one consumer thread, the use its header
  documents. Each thread makes any number of calls, and the calls interleave at every access. The states of a
  call are those of \<open>Ipc_Queue\<close>. The values whose \<^verbatim>\<open>rear.store\<close> is done and those whose \<^verbatim>\<open>front.store\<close> is done are
  recorded beside the queue.
\<close>

section \<open>Definitions\<close>

record ipc_run =
  ir_queue :: ipc_queue
  ir_enq :: "(u64 \<times> enq_pc) option"
  ir_deq :: "deq_pc option"
  ir_sent :: "u64 list"
  ir_got :: "u64 list"

datatype ipc_call = Enq u64 | Enq_go | Deq | Deq_go

fun enq_done :: "enq_pc \<Rightarrow> bool" where
  "enq_done E_true = True" | "enq_done E_throw = True" | "enq_done pc = False"

fun deq_done :: "deq_pc \<Rightarrow> bool" where
  "deq_done (D_true v) = True" | "deq_done D_false = True" | "deq_done pc = False"

fun sent_at :: "u64 \<Rightarrow> enq_pc \<Rightarrow> u64 list" where
  "sent_at v (E_store nxt) = [v]" | "sent_at v pc = []"

fun got_at :: "deq_pc \<Rightarrow> u64 list" where
  "got_at (D_store f v) = [v]" | "got_at pc = []"

text \<open>A thread begins a call when it has none, or its call makes the next access or returns.\<close>

fun ipc_move :: "ipc_call \<Rightarrow> ipc_run \<Rightarrow> ipc_run option" where
  "ipc_move (Enq v) s = Some (if ir_enq s = None then s\<lparr>ir_enq := Some (v, E_rear)\<rparr> else s)"
| "ipc_move Enq_go s = (case ir_enq s of
     None \<Rightarrow> Some s
   | Some (v, pc) \<Rightarrow> if enq_done pc then Some (s\<lparr>ir_enq := None\<rparr>) else do {
       (pc', q) \<leftarrow> enq_step v (pc, ir_queue s);
       Some (s\<lparr>ir_queue := q, ir_enq := Some (v, pc'), ir_sent := ir_sent s @ sent_at v pc\<rparr>)
     })"
| "ipc_move Deq s = Some (if ir_deq s = None then s\<lparr>ir_deq := Some D_front\<rparr> else s)"
| "ipc_move Deq_go s = (case ir_deq s of
     None \<Rightarrow> Some s
   | Some pc \<Rightarrow> if deq_done pc then Some (s\<lparr>ir_deq := None\<rparr>) else do {
       (pc', q) \<leftarrow> deq_step (pc, ir_queue s);
       Some (s\<lparr>ir_queue := q, ir_deq := Some pc', ir_got := ir_got s @ got_at pc\<rparr>)
     })"

definition ipc_start :: "ipc_queue \<Rightarrow> ipc_run" where
  "ipc_start q = \<lparr>ir_queue = q, ir_enq = None, ir_deq = None, ir_sent = [], ir_got = []\<rparr>"

text \<open>The invariant of \<open>Ipc_Queue\<close> without the counter \<^verbatim>\<open>size\<close>.\<close>

definition ipc_shape :: "ipc_queue \<Rightarrow> bool" where
  "ipc_shape q \<longleftrightarrow> unat (ipc_capacity q) = length (ipc_queue q) \<and> unat (ipc_front q) < length (ipc_queue q)
     \<and> unat (ipc_rear q) < length (ipc_queue q)"

fun enq_ok :: "ipc_queue \<Rightarrow> u64 \<Rightarrow> enq_pc \<Rightarrow> bool" where
  "enq_ok q v (E_front r nxt) = (r = ipc_rear q \<and> nxt = ipc_increment q r)"
| "enq_ok q v (E_write r nxt) = (r = ipc_rear q \<and> nxt = ipc_increment q r \<and> nxt \<noteq> ipc_front q)"
| "enq_ok q v (E_store nxt) = (nxt = ipc_increment q (ipc_rear q) \<and> nxt \<noteq> ipc_front q \<and> ipc_queue q ! unat (ipc_rear q) = v)"
| "enq_ok q v pc = True"

fun deq_ok :: "ipc_queue \<Rightarrow> deq_pc \<Rightarrow> bool" where
  "deq_ok q (D_rear f) = (f = ipc_front q)"
| "deq_ok q (D_read f) = (f = ipc_front q \<and> f \<noteq> ipc_rear q)"
| "deq_ok q (D_store f v) = (f = ipc_front q \<and> f \<noteq> ipc_rear q \<and> v = ipc_queue q ! unat f)"
| "deq_ok q pc = True"

definition ipc_run_inv :: "nat \<Rightarrow> ipc_run \<Rightarrow> bool" where
  "ipc_run_inv cap s \<longleftrightarrow> ipc_shape (ir_queue s) \<and> length (ipc_queue (ir_queue s)) = cap \<and> ir_sent s = ir_got s @ ipc_abs (ir_queue s)
     \<and> (\<forall>v pc. ir_enq s = Some (v, pc) \<longrightarrow> enq_ok (ir_queue s) v pc) \<and> (\<forall>pc. ir_deq s = Some pc \<longrightarrow> deq_ok (ir_queue s) pc)"

section \<open>Indices\<close>

lemma shape_inv: "ipc_shape q \<Longrightarrow> ipc_inv (q\<lparr>ipc_size := of_nat (ipc_count q)\<rparr>)"
  by (simp add: ipc_shape_def ipc_inv_def ipc_count_def)

lemma shape_increment:
  assumes "ipc_shape q" "unat i < length (ipc_queue q)"
  shows "unat (ipc_increment q i) = Suc (unat i) mod length (ipc_queue q)" "unat (ipc_increment q i) < length (ipc_queue q)"
proof -
  show "unat (ipc_increment q i) = Suc (unat i) mod length (ipc_queue q)"
    using ipc_increment_unat[OF shape_inv[OF assms(1)], of i] assms(2) by (simp add: ipc_increment_def)
  then show "unat (ipc_increment q i) < length (ipc_queue q)" using assms(2) by (metis gr_implies_not0 mod_less_divisor neq0_conv)
qed

lemma shape_count: "ipc_shape q \<Longrightarrow> ipc_count q < length (ipc_queue q)"
  using ring_count_laws(1) by (simp add: ipc_shape_def ipc_count_def)

lemma shape_slot: "ipc_shape q \<Longrightarrow> (unat (ipc_front q) + ipc_count q) mod length (ipc_queue q) = unat (ipc_rear q)"
  using ring_count_laws(2) by (simp add: ipc_shape_def ipc_count_def)

lemma increment_inj:
  assumes "ipc_shape q" "ipc_front q \<noteq> ipc_rear q"
  shows "ipc_increment q (ipc_rear q) \<noteq> ipc_increment q (ipc_front q)"
proof
  assume "ipc_increment q (ipc_rear q) = ipc_increment q (ipc_front q)"
  then have "Suc (unat (ipc_rear q)) mod length (ipc_queue q) = Suc (unat (ipc_front q)) mod length (ipc_queue q)"
    using shape_increment(1)[OF assms(1)] assms(1) by (metis ipc_shape_def)
  then have "unat (ipc_rear q) = unat (ipc_front q)" using assms(1) by (auto simp: ipc_shape_def Suc_mod split: if_splits)
  with assms(2) show False by (simp add: word_unat_eq_iff)
qed

text \<open>The three updates of the queue that matter, and what they do to its contents.\<close>

lemma write_slot:
  assumes "ipc_shape q"
  shows "ipc_abs (q\<lparr>ipc_queue := (ipc_queue q)[unat (ipc_rear q) := v]\<rparr>) = ipc_abs q"
proof -
  let ?d = "ipc_queue q" and ?f = "unat (ipc_front q)" and ?n = "ipc_count q"
  have f: "?f < length ?d" using assms by (simp add: ipc_shape_def)
  have "ring_list (?d[unat (ipc_rear q) := v]) ?f (Suc ?n) = ring_list ?d ?f ?n @ [v]"
    using ring_list_push[OF f shape_count[OF assms]] shape_slot[OF assms] by simp
  then have "take ?n (ring_list (?d[unat (ipc_rear q) := v]) ?f (Suc ?n)) = ring_list ?d ?f ?n" by simp
  then show ?thesis by (simp add: ipc_abs_def ipc_count_def ring_list_def take_map)
qed

lemma move_rear:
  assumes "ipc_shape q" "ipc_increment q (ipc_rear q) \<noteq> ipc_front q"
  defines "q' \<equiv> q\<lparr>ipc_rear := ipc_increment q (ipc_rear q)\<rparr>"
  shows "ipc_shape q'" "ipc_abs q' = ipc_abs q @ [ipc_queue q ! unat (ipc_rear q)]"
proof -
  let ?d = "ipc_queue q" and ?f = "unat (ipc_front q)" and ?r = "unat (ipc_rear q)"
  have fr: "?f < length ?d" "?r < length ?d" using assms(1) by (simp_all add: ipc_shape_def)
  note nx = shape_increment[OF assms(1) fr(2)]
  show "ipc_shape q'" using assms(1) nx(2) by (simp add: ipc_shape_def q'_def)
  have "Suc ?r mod length ?d \<noteq> ?f" using assms(2) nx(1) by (metis word_unat_eq_iff)
  from ring_count_laws(5)[OF fr this] have "ipc_count q' = Suc (ipc_count q)" by (simp add: ipc_count_def q'_def nx(1))
  then show "ipc_abs q' = ipc_abs q @ [?d ! ?r]" using shape_slot[OF assms(1)] by (simp add: ipc_abs_def ring_list_def q'_def)
qed

lemma move_front:
  assumes "ipc_shape q" "ipc_front q \<noteq> ipc_rear q"
  defines "q' \<equiv> q\<lparr>ipc_front := ipc_increment q (ipc_front q)\<rparr>"
  shows "ipc_shape q'" "ipc_abs q = ipc_queue q ! unat (ipc_front q) # ipc_abs q'"
proof -
  let ?d = "ipc_queue q" and ?f = "unat (ipc_front q)" and ?r = "unat (ipc_rear q)"
  have fr: "?f < length ?d" "?r < length ?d" using assms(1) by (simp_all add: ipc_shape_def)
  note nx = shape_increment[OF assms(1) fr(1)]
  show "ipc_shape q'" using assms(1) nx(2) by (simp add: ipc_shape_def q'_def)
  have ne: "?f \<noteq> ?r" using assms(2) by (simp add: word_unat_eq_iff)
  then have "ipc_count q' = ipc_count q - 1" "0 < ipc_count q"
    using ring_count_laws(6)[OF fr ne] ring_count_laws(3)[OF fr] by (simp_all add: ipc_count_def q'_def nx(1))
  then show "ipc_abs q = ?d ! ?f # ipc_abs q'"
    using ring_list_pop[OF fr(1), of "ipc_count q"] by (simp add: ipc_abs_def q'_def nx(1))
qed

section \<open>Every move is defined and keeps the invariant\<close>

lemma ipc_size_irrelevant [simp]:
  "ipc_abs (q\<lparr>ipc_size := n\<rparr>) = ipc_abs q" "ipc_shape (q\<lparr>ipc_size := n\<rparr>) = ipc_shape q"
  "enq_ok (q\<lparr>ipc_size := n\<rparr>) v pc = enq_ok q v pc" "deq_ok (q\<lparr>ipc_size := n\<rparr>) dpc = deq_ok q dpc"
proof -
  show "enq_ok (q\<lparr>ipc_size := n\<rparr>) v pc = enq_ok q v pc" by (cases pc) (simp_all add: ipc_increment_def)
  show "deq_ok (q\<lparr>ipc_size := n\<rparr>) dpc = deq_ok q dpc" by (cases dpc) simp_all
qed (simp_all add: ipc_abs_def ipc_count_def ipc_shape_def)

lemma enq_go_inv:
  assumes inv: "ipc_run_inv cap s" and pc: "ir_enq s = Some (v, pc)" "\<not> enq_done pc"
  shows "\<exists>s'. ipc_move Enq_go s = Some s' \<and> ipc_run_inv cap s'"
proof -
  let ?q = "ir_queue s"
  have i: "ipc_shape ?q" "length (ipc_queue ?q) = cap" "ir_sent s = ir_got s @ ipc_abs ?q" "enq_ok ?q v pc"
    "\<And>d. ir_deq s = Some d \<Longrightarrow> deq_ok ?q d" using inv pc by (auto simp: ipc_run_inv_def)
  have rear: "unat (ipc_rear ?q) < length (ipc_queue ?q)" using i(1) by (simp add: ipc_shape_def)
  show ?thesis
  proof (cases pc)
    case (E_write r nxt)
    let ?q' = "?q\<lparr>ipc_queue := (ipc_queue ?q)[unat (ipc_rear ?q) := v]\<rparr>"
    have "deq_ok ?q' d" if "ir_deq s = Some d" for d
      using i(5)[OF that] by (cases d) (auto simp: word_unat_eq_iff)
    then have "ipc_run_inv cap (s\<lparr>ir_queue := ?q', ir_enq := Some (v, E_store nxt)\<rparr>)"
      using i(1-4) write_slot[OF i(1)] rear E_write by (auto simp: ipc_run_inv_def ipc_shape_def ipc_increment_def)
    then show ?thesis using pc E_write i(4) rear by simp
  next
    case (E_store nxt)
    then have nx: "nxt = ipc_increment ?q (ipc_rear ?q)" "nxt \<noteq> ipc_front ?q" and v: "ipc_queue ?q ! unat (ipc_rear ?q) = v"
      using i(4) by auto
    have ne: "ipc_increment ?q (ipc_rear ?q) \<noteq> ipc_front ?q" using nx by simp
    note mr = move_rear[OF i(1) ne, folded nx(1)]
    have "deq_ok (?q\<lparr>ipc_rear := nxt\<rparr>) d" if "ir_deq s = Some d" for d using i(5)[OF that] nx(2) by (cases d) auto
    then show ?thesis using pc E_store i(2,3) mr v by (auto simp: ipc_run_inv_def)
  qed (use pc i in \<open>auto simp: ipc_run_inv_def\<close>)
qed

lemma deq_go_inv:
  assumes inv: "ipc_run_inv cap s" and pc: "ir_deq s = Some pc" "\<not> deq_done pc"
  shows "\<exists>s'. ipc_move Deq_go s = Some s' \<and> ipc_run_inv cap s'"
proof -
  let ?q = "ir_queue s"
  have i: "ipc_shape ?q" "length (ipc_queue ?q) = cap" "ir_sent s = ir_got s @ ipc_abs ?q" "deq_ok ?q pc"
    "\<And>v e. ir_enq s = Some (v, e) \<Longrightarrow> enq_ok ?q v e" using inv pc by (auto simp: ipc_run_inv_def)
  have front: "unat (ipc_front ?q) < length (ipc_queue ?q)" using i(1) by (simp add: ipc_shape_def)
  show ?thesis
  proof (cases pc)
    case (D_store f v)
    then have f: "f = ipc_front ?q" "ipc_front ?q \<noteq> ipc_rear ?q" and v: "v = ipc_queue ?q ! unat (ipc_front ?q)" using i(4) by auto
    let ?q' = "?q\<lparr>ipc_front := ipc_increment ?q (ipc_front ?q)\<rparr>"
    note mf = move_front[OF i(1) f(2)]
    have "enq_ok ?q' w e" if "ir_enq s = Some (w, e)" for w e
      using i(5)[OF that] increment_inj[OF i(1) f(2)] by (cases e) (auto simp: ipc_increment_def)
    then have "ipc_run_inv cap (s\<lparr>ir_queue := ?q', ir_deq := Some (D_size v), ir_got := ir_got s @ [v]\<rparr>)"
      using i(2,3) mf v by (auto simp: ipc_run_inv_def)
    then show ?thesis using pc D_store f by simp
  qed (use pc i front in \<open>auto simp: ipc_run_inv_def\<close>)
qed

lemma ipc_move_inv:
  assumes "ipc_run_inv cap s"
  shows "\<exists>s'. ipc_move m s = Some s' \<and> ipc_run_inv cap s'"
proof (cases m)
  case Enq_go
  then show ?thesis
  proof (cases "\<exists>v pc. ir_enq s = Some (v, pc) \<and> \<not> enq_done pc")
    case True
    then show ?thesis using enq_go_inv[OF assms] Enq_go by blast
  next
    case False
    then show ?thesis using assms Enq_go by (cases "ir_enq s") (auto simp: ipc_run_inv_def)
  qed
next
  case Deq_go
  then show ?thesis
  proof (cases "\<exists>pc. ir_deq s = Some pc \<and> \<not> deq_done pc")
    case True
    then show ?thesis using deq_go_inv[OF assms] Deq_go by blast
  next
    case False
    then show ?thesis using assms Deq_go by (cases "ir_deq s") (auto simp: ipc_run_inv_def)
  qed
qed (use assms in \<open>auto simp: ipc_run_inv_def\<close>)

interpretation spsc: safe_steps ipc_move "ipc_run_inv cap"
  by unfold_locales (rule ipc_move_inv)

section \<open>Properties\<close>

text \<open>C30. Between one producer and one consumer thread the queue is correct apart from its counter, whatever the memory
  held before and however the calls interleave: no access is outside the array, producer and consumer never access
  the same element at the same time, and the unids published so far are those taken out so far followed by the contents of the
  queue, of which there are at most \<open>capacity - 1\<close>. Nothing is lost, duplicated or reordered.\<close>

theorem ipc_spsc_fifo:
  assumes "0 < cap" "ipc_new g cap = Inr q" "reach ipc_move (ipc_start q) s"
  shows "ipc_move m s \<noteq> None \<and> ir_sent s = ir_got s @ ipc_abs (ir_queue s) \<and> length (ipc_abs (ir_queue s)) \<le> unat cap - 1
    \<and> (\<forall>v r nxt f. ir_enq s = Some (v, E_write r nxt) \<longrightarrow> ir_deq s = Some (D_read f) \<longrightarrow> r \<noteq> f)"
proof -
  have "ipc_inv q" "ipc_abs q = []" "ipc_room q = unat cap - 1" using ipc_new_ok[OF assms(1), of g] assms(2) by auto
  moreover have "length (ipc_queue q) = unat cap" using assms(1,2) by (auto simp: ipc_new_def split: if_splits)
  ultimately have "ipc_run_inv (unat cap) (ipc_start q)" by (simp add: ipc_run_inv_def ipc_start_def ipc_shape_def ipc_inv_def)
  from spsc.reach_inv[OF assms(3) this] have inv: "ipc_run_inv (unat cap) s" .
  have "ir_sent s = ir_got s @ ipc_abs (ir_queue s)" using inv by (simp add: ipc_run_inv_def)
  moreover have "ipc_move m s \<noteq> None" using ipc_move_inv[OF inv, of m] by auto
  moreover have "length (ipc_abs (ir_queue s)) \<le> unat cap - 1"
    using inv shape_count[of "ir_queue s"] by (simp add: ipc_run_inv_def)
  moreover have "r \<noteq> f" if "ir_enq s = Some (v, E_write r nxt)" "ir_deq s = Some (D_read f)" for v r nxt f
  proof -
    have "enq_ok (ir_queue s) v (E_write r nxt)" "deq_ok (ir_queue s) (D_read f)"
      using inv that unfolding ipc_run_inv_def by blast+
    then show ?thesis by auto
  qed
  ultimately show ?thesis by blast
qed

theorem ipc_spsc_fifo_witness:
  "\<exists>q s. ipc_new (\<lambda>_. 9) 3 = Inr q
     \<and> schedule ipc_move [Enq 5, Deq, Enq_go, Enq_go, Enq_go, Enq_go, Deq_go, Deq_go, Deq_go, Deq_go] (ipc_start q) = Some s
     \<and> ir_sent s = [5] \<and> ir_got s = [5] \<and> ipc_abs (ir_queue s) = []"
proof -
  let ?q = "\<lparr>ipc_queue = map (\<lambda>i. memset_element 3 i 9) [0, 1, Suc 1], ipc_front = 0, ipc_rear = 0, ipc_capacity = 3, ipc_size = 0\<rparr>"
  let ?cs = "[Enq 5, Deq, Enq_go, Enq_go, Enq_go, Enq_go, Deq_go, Deq_go, Deq_go, Deq_go]"
  have q: "ipc_new (\<lambda>_. 9) 3 = Inr ?q" by (simp add: ipc_new_def upt_rec)
  have "\<exists>s. schedule ipc_move ?cs (ipc_start ?q) = Some s \<and> ir_sent s = [5] \<and> ir_got s = [5]"
    by (simp add: ipc_start_def ipc_increment_def)
  then obtain s where s: "schedule ipc_move ?cs (ipc_start ?q) = Some s" "ir_sent s = [5]" "ir_got s = [5]" by blast
  have "ir_sent s = ir_got s @ ipc_abs (ir_queue s)"
    using ipc_spsc_fifo[OF _ q schedule_reach[OF s(1)], of Deq] by simp
  with q s show ?thesis by auto
qed

end
