(* ===== verification/Shared_Memory.thy ===== *)
theory Shared_Memory
  imports Interleaving
begin

text \<open>
  The shared-memory spike: \<^verbatim>\<open>ipc_shared_memory.hpp\<close>, \<^verbatim>\<open>ipc_shared_memory_server.cpp\<close> and
  \<^verbatim>\<open>ipc_shared_memory_client.cpp\<close>. The two processes are programs over one system state: the shared memory
  object with its name, the named semaphore, and what each process has printed. A process advances
  by one system call or one access to the mapped structure at a time, and any system call that the source checks
  may fail. The calls that the source does not check (\<^verbatim>\<open>ftruncate\<close>, \<^verbatim>\<open>sem_post\<close>, \<^verbatim>\<open>sem_wait\<close> and the
  clean-up calls) are taken to succeed: the theorems say nothing of a run in which \<^verbatim>\<open>ftruncate\<close> fails, where the
  first store into the mapping would be a bus error. The semaphore is a counter: \<^verbatim>\<open>sem_post\<close> increments it and \<^verbatim>\<open>sem_wait\<close> blocks at zero.
  Of \<^verbatim>\<open>perror\<close> only the argument is kept.
\<close>

section \<open>Definitions\<close>

definition BUFFER_SIZE :: nat where "BUFFER_SIZE = 256"

record shared_data =
  sd_status :: int
  sd_message :: string

text \<open>
  The server's position. \<open>V_exit c\<close> is the exit with code \<open>c\<close>; the calls of the clean-up that are not
  checked are taken together with the next one.
\<close>

datatype server_pc = V_shm_open | V_ftruncate | V_mmap | V_sem_open | V_status | V_message | V_print | V_post
  | V_sleep | V_munmap | V_shm_unlink | V_sem_unlink | V_exit int

datatype reader_pc = R_shm_open | R_mmap | R_sem_open | R_wait | R_status | R_message | R_munmap | R_exit int

text \<open>
  \<open>sh_named\<close> and \<open>sm_named\<close> tell whether the names exist; \<open>sh_sized\<close> whether the object has been given its
  size, without which an access to a mapping of it is a bus error. Unlinking removes the name
  only: an open object stays usable.
\<close>

record shm =
  sh_named :: bool
  sh_sized :: bool
  sh_data :: shared_data
  sm_named :: bool
  sm_value :: nat
  sh_server :: server_pc
  sh_client :: reader_pc
  sh_server_out :: string
  sh_server_err :: string
  sh_client_out :: string
  sh_client_err :: string

text \<open>\<^verbatim>\<open>strncpy(message, s, BUFFER_SIZE)\<close> pads with zeros, and \<^verbatim>\<open><<\<close> prints up to the first zero.\<close>

definition strncpy :: "string \<Rightarrow> nat \<Rightarrow> string" where
  "strncpy s n = take n s @ replicate (n - length s) (CHR 0x00)"

text \<open>What an object holds when it is given its size.\<close>

definition zero_data :: shared_data where
  "zero_data = \<lparr>sd_status = 0, sd_message = replicate BUFFER_SIZE (CHR 0x00)\<rparr>"

text \<open>One step of the server; \<open>fails\<close> is the failure of a checked call. \<open>None\<close> is a bus error.\<close>

definition shm_server_step :: "bool \<Rightarrow> shm \<Rightarrow> shm option" where
  "shm_server_step fails s = (case sh_server s of
     V_shm_open \<Rightarrow> Some (if fails then s\<lparr>sh_server_err := sh_server_err s @ ''shm_open'', sh_server := V_exit 1\<rparr>
       else if sh_named s then s\<lparr>sh_server := V_ftruncate\<rparr>
       else s\<lparr>sh_named := True, sh_sized := False, sh_server := V_ftruncate\<rparr>)
   | V_ftruncate \<Rightarrow> Some (s\<lparr>sh_data := (if sh_sized s then sh_data s else zero_data), sh_sized := True, sh_server := V_mmap\<rparr>)
   | V_mmap \<Rightarrow> Some (if fails then s\<lparr>sh_server_err := sh_server_err s @ ''mmap'', sh_server := V_exit 1\<rparr>
       else s\<lparr>sh_server := V_sem_open\<rparr>)
   | V_sem_open \<Rightarrow> Some (if fails then s\<lparr>sh_server_err := sh_server_err s @ ''sem_open'', sh_server := V_exit 1\<rparr> else
       if sm_named s then s\<lparr>sh_server := V_status\<rparr> else s\<lparr>sm_named := True, sm_value := 0, sh_server := V_status\<rparr>)
   | V_status \<Rightarrow> if sh_sized s then Some (s\<lparr>sh_data := (sh_data s)\<lparr>sd_status := 1\<rparr>, sh_server := V_message\<rparr>) else None
   | V_message \<Rightarrow> if sh_sized s
       then Some (s\<lparr>sh_data := (sh_data s)\<lparr>sd_message := strncpy ''Hello from server!'' BUFFER_SIZE\<rparr>, sh_server := V_print\<rparr>)
       else None
   | V_print \<Rightarrow> if sh_sized s
       then Some (s\<lparr>sh_server_out := sh_server_out s @ ''Server wrote data: '' @ c_string (sd_message (sh_data s)) @ ''\<newline>'',
              sh_server := V_post\<rparr>)
       else None
   | V_post \<Rightarrow> Some (s\<lparr>sm_value := sm_value s + 1, sh_server := V_sleep\<rparr>)
   | V_sleep \<Rightarrow> Some (s\<lparr>sh_server := V_munmap\<rparr>)
   | V_munmap \<Rightarrow> Some (s\<lparr>sh_server_err := sh_server_err s @ (if fails then ''munmap'' else []), sh_server := V_shm_unlink\<rparr>)
   | V_shm_unlink \<Rightarrow> Some (s\<lparr>sh_named := False, sh_server := V_sem_unlink\<rparr>)
   | V_sem_unlink \<Rightarrow> Some (s\<lparr>sm_named := False, sh_server := V_exit 0\<rparr>)
   | V_exit c \<Rightarrow> Some s)"

text \<open>One step of the client; a blocked \<^verbatim>\<open>sem_wait\<close> stays where it is.\<close>

definition shm_client_step :: "bool \<Rightarrow> shm \<Rightarrow> shm option" where
  "shm_client_step fails s = (case sh_client s of
     R_shm_open \<Rightarrow> Some (if fails \<or> \<not> sh_named s then s\<lparr>sh_client_err := sh_client_err s @ ''shm_open'', sh_client := R_exit 1\<rparr>
       else s\<lparr>sh_client := R_mmap\<rparr>)
   | R_mmap \<Rightarrow> Some (if fails then s\<lparr>sh_client_err := sh_client_err s @ ''mmap'', sh_client := R_exit 1\<rparr>
       else s\<lparr>sh_client := R_sem_open\<rparr>)
   | R_sem_open \<Rightarrow> Some (if fails \<or> \<not> sm_named s then s\<lparr>sh_client_err := sh_client_err s @ ''sem_open'', sh_client := R_exit 1\<rparr>
       else s\<lparr>sh_client_out := sh_client_out s @ ''Client waiting for data...\<newline>'', sh_client := R_wait\<rparr>)
   | R_wait \<Rightarrow> Some (if sm_value s = 0 then s else s\<lparr>sm_value := sm_value s - 1, sh_client := R_status\<rparr>)
   | R_status \<Rightarrow> if sh_sized s
       then Some (s\<lparr>sh_client_out := sh_client_out s @ ''Client read status: '' @ show_int (sd_status (sh_data s)) @ ''\<newline>'',
              sh_client := R_message\<rparr>)
       else None
   | R_message \<Rightarrow> if sh_sized s
       then Some (s\<lparr>sh_client_out := sh_client_out s @ ''Client read data: '' @ c_string (sd_message (sh_data s)) @ ''\<newline>'',
              sh_client := R_munmap\<rparr>)
       else None
   | R_munmap \<Rightarrow> Some (s\<lparr>sh_client_err := sh_client_err s @ (if fails then ''munmap'' else []), sh_client := R_exit 0\<rparr>)
   | R_exit c \<Rightarrow> Some s)"

text \<open>The start of both processes, with the names and the semaphore's value an earlier run may have left behind.\<close>

definition shm_init :: "bool \<Rightarrow> bool \<Rightarrow> shared_data \<Rightarrow> bool \<Rightarrow> nat \<Rightarrow> shm" where
  "shm_init named sized data sem value =
     \<lparr>sh_named = named, sh_sized = sized, sh_data = data, sm_named = sem, sm_value = value, sh_server = V_shm_open,
      sh_client = R_shm_open, sh_server_out = [], sh_server_err = [], sh_client_out = [], sh_client_err = []\<rparr>"

text \<open>One step of either process: whether the server moves, and whether the call fails.\<close>

fun shm_step :: "bool \<times> bool \<Rightarrow> shm \<Rightarrow> shm option" where
  "shm_step (server, fails) s = (if server then shm_server_step fails s else shm_client_step fails s)"

text \<open>A conflict: one process is about to write the structure and the other to read it.\<close>

definition shm_conflict :: "shm \<Rightarrow> bool" where
  "shm_conflict s \<longleftrightarrow> sh_server s \<in> {V_status, V_message} \<and> sh_client s \<in> {R_status, R_message}"

definition server_before_post :: "server_pc \<Rightarrow> bool" where
  "server_before_post p \<longleftrightarrow> p \<in> {V_shm_open, V_ftruncate, V_mmap, V_sem_open, V_status, V_message, V_print, V_post, V_exit 1}"

definition client_before_read :: "reader_pc \<Rightarrow> bool" where
  "client_before_read p \<longleftrightarrow> p \<in> {R_shm_open, R_mmap, R_sem_open, R_wait, R_exit 1}"

definition hello_data :: shared_data where
  "hello_data = \<lparr>sd_status = 1, sd_message = strncpy ''Hello from server!'' BUFFER_SIZE\<rparr>"

text \<open>What the client has printed at each of its positions.\<close>

definition client_text :: "reader_pc \<Rightarrow> string" where
  "client_text p = (case p of
     R_wait \<Rightarrow> ''Client waiting for data...\<newline>'' | R_status \<Rightarrow> ''Client waiting for data...\<newline>''
   | R_message \<Rightarrow> ''Client waiting for data...\<newline>Client read status: 1\<newline>''
   | R_munmap \<Rightarrow> ''Client waiting for data...\<newline>Client read status: 1\<newline>Client read data: Hello from server!\<newline>''
   | R_exit c \<Rightarrow> (if c = 0 then ''Client waiting for data...\<newline>Client read status: 1\<newline>Client read data: Hello from server!\<newline>'' else [])
   | _ \<Rightarrow> [])"

text \<open>A schedule in which the client gets its message.\<close>

definition shm_good_schedule :: "(bool \<times> bool) list" where
  "shm_good_schedule = replicate 4 (True, False) @ replicate 3 (False, False) @ replicate 4 (True, False) @ replicate 4 (False, False)"

text \<open>The invariant of a run on a system without the semaphore's name.\<close>

definition shm_inv :: "shm \<Rightarrow> bool" where
  "shm_inv s \<longleftrightarrow>
     (server_before_post (sh_server s) \<longrightarrow> client_before_read (sh_client s))
     \<and> (server_before_post (sh_server s) \<and> sm_named s \<longrightarrow> sm_value s = 0)
     \<and> (\<not> server_before_post (sh_server s) \<longrightarrow> sh_data s = hello_data \<and> sh_sized s)
     \<and> (sh_client s = R_wait \<and> server_before_post (sh_server s) \<longrightarrow> sm_named s)
     \<and> (sh_server s \<in> {V_shm_open, V_ftruncate, V_mmap, V_sem_open} \<longrightarrow> \<not> sm_named s)
     \<and> (sh_server s \<in> {V_mmap, V_sem_open, V_status, V_message, V_print, V_post} \<longrightarrow> sh_sized s)
     \<and> (sh_server s \<in> {V_status, V_message, V_print, V_post} \<longrightarrow> sm_named s)
     \<and> (sh_server s = V_message \<longrightarrow> sd_status (sh_data s) = 1)
     \<and> (sh_server s \<in> {V_print, V_post} \<longrightarrow> sh_data s = hello_data)
     \<and> (\<forall>c. sh_server s = V_exit c \<longrightarrow> c = 0 \<or> c = 1) \<and> (\<forall>c. sh_client s = R_exit c \<longrightarrow> c = 0 \<or> c = 1)
     \<and> (sh_client s \<noteq> R_exit 1 \<longrightarrow> sh_client_out s = client_text (sh_client s))"

section \<open>Lemmas\<close>

lemma c_string_hello: "c_string (strncpy ''Hello from server!'' BUFFER_SIZE) = ''Hello from server!''"
  by (simp add: c_string_def strncpy_def BUFFER_SIZE_def takeWhile_append)

lemma show_int_1: "show_int 1 = ''1''" and show_int_0: "show_int 0 = ''0''"
  by code_simp+

lemma shm_init_inv: "shm_inv (shm_init named sized data False value)"
  by (simp add: shm_inv_def shm_init_def server_before_post_def client_before_read_def client_text_def)

lemma server_step_inv:
  assumes "shm_inv s"
  shows "\<exists>s'. shm_server_step fails s = Some s' \<and> shm_inv s'"
  using assms by (cases "sh_server s")
    (auto simp: shm_inv_def shm_server_step_def server_before_post_def client_before_read_def hello_data_def)

lemma client_wait_inv:
  assumes "shm_inv s" "sh_client s = R_wait"
  shows "\<exists>s'. shm_client_step fails s = Some s' \<and> shm_inv s'"
proof (cases "sm_value s = 0")
  case True
  then show ?thesis using assms by (simp add: shm_client_step_def)
next
  case False
  then have "\<not> server_before_post (sh_server s)" using assms by (auto simp: shm_inv_def)
  then show ?thesis using assms False by (simp add: shm_inv_def shm_client_step_def client_text_def server_before_post_def)
qed

lemma client_sem_open_inv:
  assumes "shm_inv s" "sh_client s = R_sem_open"
  shows "\<exists>s'. shm_client_step fails s = Some s' \<and> shm_inv s'"
  using assms by (cases "fails \<or> \<not> sm_named s")
    (simp_all add: shm_inv_def shm_client_step_def client_text_def client_before_read_def)

lemma client_step_inv:
  assumes "shm_inv s"
  shows "\<exists>s'. shm_client_step fails s = Some s' \<and> shm_inv s'"
proof (cases "sh_client s = R_sem_open \<or> sh_client s = R_wait")
  case True
  then show ?thesis using client_wait_inv client_sem_open_inv assms by blast
next
  case False
  then show ?thesis using assms by (cases "sh_client s")
    (simp_all add: shm_inv_def shm_client_step_def server_before_post_def client_before_read_def hello_data_def
      client_text_def c_string_hello show_int_1)
qed

interpretation shm: safe_steps shm_step shm_inv
proof
  show "\<exists>s'. shm_step c s = Some s' \<and> shm_inv s'" if "shm_inv s" for s c
    using that server_step_inv client_step_inv by (cases c) simp
qed

lemma shm_inv_order: "shm_inv s \<Longrightarrow> server_before_post (sh_server s) \<Longrightarrow> client_before_read (sh_client s)"
  by (simp add: shm_inv_def)

lemma shm_inv_no_conflict: "shm_inv s \<Longrightarrow> \<not> shm_conflict s"
  using shm_inv_order[of s] by (auto simp: shm_conflict_def server_before_post_def client_before_read_def)

section \<open>Properties\<close>

text \<open>C31. If no semaphore of an earlier run is left (its shared memory may be), then in every interleaving of the
  two processes and for every failure of their calls: no access to the structure is a bus error,
  the client never reads the structure while the server writes it, and a client that exits with success has
  printed status 1 and the complete message.\<close>

theorem shm_handover:
  assumes "reach shm_step (shm_init named sized data False value) s"
  shows "shm_server_step fails s \<noteq> None \<and> shm_client_step fails s \<noteq> None \<and> \<not> shm_conflict s
    \<and> (sh_client s = R_exit 0 \<longrightarrow>
        sh_client_out s = ''Client waiting for data...\<newline>Client read status: 1\<newline>Client read data: Hello from server!\<newline>'')"
proof -
  have inv: "shm_inv s" using shm.reach_inv[OF assms shm_init_inv] .
  then have "sh_client s = R_exit 0 \<Longrightarrow> sh_client_out s = client_text (R_exit 0)" by (simp add: shm_inv_def)
  then show ?thesis
    using server_step_inv[OF inv, of fails] client_step_inv[OF inv, of fails] shm_inv_no_conflict[OF inv]
    by (auto simp: client_text_def)
qed

theorem shm_handover_witness:
  "\<exists>s. reach shm_step (shm_init False False zero_data False 0) s \<and> sh_client s = R_exit 0 \<and> \<not> shm_conflict s
     \<and> sh_client_out s = ''Client waiting for data...\<newline>Client read status: 1\<newline>Client read data: Hello from server!\<newline>''"
proof -
  let ?i = "shm_init False False zero_data False 0"
  have "\<exists>s. schedule shm_step shm_good_schedule ?i = Some s \<and> sh_client s = R_exit 0"
    by (simp add: shm_good_schedule_def numeral_eq_Suc shm_init_def shm_server_step_def shm_client_step_def)
  then obtain s where s: "schedule shm_step shm_good_schedule ?i = Some s" "sh_client s = R_exit 0" by blast
  have run: "reach shm_step ?i s" by (rule schedule_reach[OF s(1)])
  show ?thesis using shm_handover[OF run, of False] s run by auto
qed

text \<open>\<^verbatim>\<open>sem_open\<close> with \<^verbatim>\<open>O_CREAT\<close> does not reset a semaphore that exists. If an earlier server was killed
  after its post, the name is left with a positive value, and a client may pass its wait before the new server has written
  anything: it prints status 0 and an empty message and exits with success.\<close>

theorem shm_stale_semaphore:
  assumes "0 < value"
  shows "\<exists>s. reach shm_step (shm_init False False data True value) s \<and> sh_client s = R_exit 0
    \<and> sh_client_out s = ''Client waiting for data...\<newline>Client read status: 0\<newline>Client read data: \<newline>''"
proof -
  let ?i = "shm_init False False data True value"
  let ?sch = "replicate 2 (True, False) @ replicate 7 (False, False)"
  have "\<exists>s. schedule shm_step ?sch ?i = Some s \<and> sh_client s = R_exit 0
    \<and> sh_client_out s = ''Client waiting for data...\<newline>Client read status: 0\<newline>Client read data: \<newline>''"
    using assms by (simp add: numeral_eq_Suc shm_init_def shm_server_step_def shm_client_step_def zero_data_def c_string_def
        BUFFER_SIZE_def show_int_0)
  then obtain s where s: "schedule shm_step ?sch ?i = Some s" and "sh_client s = R_exit 0"
    "sh_client_out s = ''Client waiting for data...\<newline>Client read status: 0\<newline>Client read data: \<newline>''" by blast
  with schedule_reach[OF s] show ?thesis by blast
qed

theorem shm_stale_semaphore_witness:
  "\<exists>s. reach shm_step (shm_init False False zero_data True 1) s \<and> sh_client s = R_exit 0"
  using shm_stale_semaphore[of 1 zero_data] by auto

end
