(* ===== verification/Unid_Block.thy ===== *)
theory Unid_Block
  imports Prelude
begin

text \<open>
  The wire format of a block of unids: \<^verbatim>\<open>struct Unid_block\<close> of
  \<^verbatim>\<open>spike/benchmark/serializers/unidserial.cpp\<close> with its serializer, deserializer and
  benchmark loop. \<^verbatim>\<open>std::byteswap\<close>, \<^verbatim>\<open>std::bit_cast\<close> and \<^verbatim>\<open>memcpy\<close> are modelled for the
  little-endian host the source assumes.
\<close>

section \<open>Definitions\<close>

text \<open>\<^verbatim>\<open>std::byteswap\<close> of an \<open>n\<close>-byte integer.\<close>

definition byteswap :: "nat \<Rightarrow> 'a::len word \<Rightarrow> 'a word" where
  "byteswap n w = le_word (rev (le_bytes n w))"

text \<open>\<^verbatim>\<open>it = std::copy(arr.begin(), arr.end(), it)\<close> into a result array.\<close>

definition copy_into :: "u8 list \<Rightarrow> u8 list \<times> nat \<Rightarrow> u8 list \<times> nat" where
  "copy_into arr = (\<lambda>(result, it). (take it result @ arr @ drop (it + length arr) result, it + length arr))"

text \<open>\<^verbatim>\<open>memcpy(&member, buf.data() + offset, n)\<close>\<close>

definition memcpy_from :: "u8 list \<Rightarrow> nat \<Rightarrow> nat \<Rightarrow> 'a::len word" where
  "memcpy_from buf offset n = le_word (take n (drop offset buf))"

record unid_block =
  ub_ip :: u32
  ub_port :: u16
  ub_seq :: u32
  ub_node :: u32
  ub_first_unid :: u64
  ub_block_size :: u32

definition ip_offset :: nat where "ip_offset = 0"
definition port_offset :: nat where "port_offset = 4"
definition seq_offset :: nat where "seq_offset = port_offset + 2"
definition node_offset :: nat where "node_offset = seq_offset + 4"
definition first_unid_offset :: nat where "first_unid_offset = node_offset + 4"
definition block_size_offset :: nat where "block_size_offset = first_unid_offset + 8"
definition buf_size :: nat where "buf_size = block_size_offset + 4"

text \<open>\<open>result\<close> is what the local array holds before the copies; it is not initialised.\<close>

definition serialize :: "u8 list \<Rightarrow> unid_block \<Rightarrow> u8 list" where
  "serialize result b =
     (let ip_no = byteswap 4 (ub_ip b);
          port_no = byteswap 2 (ub_port b);
          seq_no = byteswap 4 (ub_seq b);
          node_no = byteswap 4 (ub_node b);
          first_unid_no = byteswap 8 (ub_first_unid b);
          block_size_no = byteswap 4 (ub_block_size b);
          ip_arr = le_bytes 4 ip_no;
          port_arr = le_bytes 2 port_no;
          seq_arr = le_bytes 4 seq_no;
          node_arr = le_bytes 4 node_no;
          first_unid_arr = le_bytes 8 first_unid_no;
          block_size_arr = le_bytes 4 block_size_no;
          s = copy_into ip_arr (result, 0);
          s = copy_into port_arr s;
          s = copy_into seq_arr s;
          s = copy_into node_arr s;
          s = copy_into first_unid_arr s;
          s = copy_into block_size_arr s
      in fst s)"

definition deserialize :: "unid_block \<Rightarrow> u8 list \<Rightarrow> exn + unid_block" where
  "deserialize b buf =
     (if length buf \<noteq> buf_size
      then Inl (Invalid_argument ''deserialize() buf_size incorrect for struct Unid_block'')
      else let b = b\<lparr>ub_ip := memcpy_from buf ip_offset 4\<rparr>;
               b = b\<lparr>ub_port := memcpy_from buf port_offset 2\<rparr>;
               b = b\<lparr>ub_seq := memcpy_from buf seq_offset 4\<rparr>;
               b = b\<lparr>ub_node := memcpy_from buf node_offset 4\<rparr>;
               b = b\<lparr>ub_first_unid := memcpy_from buf first_unid_offset 8\<rparr>;
               b = b\<lparr>ub_block_size := memcpy_from buf block_size_offset 4\<rparr>;
               b = b\<lparr>ub_ip := byteswap 4 (ub_ip b)\<rparr>;
               b = b\<lparr>ub_port := byteswap 2 (ub_port b)\<rparr>;
               b = b\<lparr>ub_seq := byteswap 4 (ub_seq b)\<rparr>;
               b = b\<lparr>ub_node := byteswap 4 (ub_node b)\<rparr>;
               b = b\<lparr>ub_first_unid := byteswap 8 (ub_first_unid b)\<rparr>;
               b = b\<lparr>ub_block_size := byteswap 4 (ub_block_size b)\<rparr>
           in Inr b)"

definition print_block :: "unid_block \<Rightarrow> string" where
  "print_block b =
     ''----------------------\<newline>'' @ ''struct Unid_block data\<newline>'' @ ''----------------------\<newline>''
     @ ''Ip: '' @ show_base 10 (unat (ub_ip b)) @ ''\<newline>'' @ ''Port: '' @ show_base 10 (unat (ub_port b)) @ ''\<newline>''
     @ ''Seq: '' @ show_base 10 (unat (ub_seq b)) @ ''\<newline>'' @ ''Node: '' @ show_base 10 (unat (ub_node b)) @ ''\<newline>''
     @ ''First unid: '' @ show_base 10 (unat (ub_first_unid b)) @ ''\<newline>''
     @ ''Block size: '' @ show_base 10 (unat (ub_block_size b)) @ ''\<newline>''"

text \<open>
  The body of the benchmark, run \<open>n\<close> times: the final \<^verbatim>\<open>buf\<close> and \<^verbatim>\<open>ub2\<close>, with \<open>garbage i\<close> the
  uninitialised array of iteration \<open>i\<close>.
\<close>

fun bm_unidserial :: "(nat \<Rightarrow> u8 list) \<Rightarrow> nat \<Rightarrow> unid_block \<Rightarrow> u8 list \<times> unid_block \<Rightarrow> exn + u8 list \<times> unid_block" where
  "bm_unidserial garbage 0 ub1 (buf, ub2) = Inr (buf, ub2)"
| "bm_unidserial garbage (Suc n) ub1 (buf, ub2) =
     (let buf = serialize (garbage n) ub1
      in case deserialize ub2 buf of Inl x \<Rightarrow> Inl x | Inr ub2 \<Rightarrow> bm_unidserial garbage n ub1 (buf, ub2))"

definition bench_ub1 :: unid_block where
  "bench_ub1 = \<lparr>ub_ip = 0xc0a80001, ub_port = 44444, ub_seq = 1234, ub_node = 4321, ub_first_unid = 9876,
     ub_block_size = 6789\<rparr>"

definition bench_ub2 :: unid_block where
  "bench_ub2 = \<lparr>ub_ip = 0, ub_port = 0, ub_seq = 0, ub_node = 0, ub_first_unid = 0, ub_block_size = 0\<rparr>"

text \<open>Reference: the bytes of an integer, most significant first.\<close>

definition be_bytes :: "nat \<Rightarrow> 'a::len word \<Rightarrow> u8 list" where
  "be_bytes n w = map (\<lambda>k. ucast (drop_bit (8 * (n - 1 - k)) w)) [0..<n]"

text \<open>Reference: the fields in wire order, without padding.\<close>

definition wire :: "unid_block \<Rightarrow> u8 list" where
  "wire b = be_bytes 4 (ub_ip b) @ be_bytes 2 (ub_port b) @ be_bytes 4 (ub_seq b) @ be_bytes 4 (ub_node b)
     @ be_bytes 8 (ub_first_unid b) @ be_bytes 4 (ub_block_size b)"

section \<open>Byte order\<close>

lemma le_bytes_byteswap:
  fixes w :: "'a::len word"
  assumes "8 * n \<le> LENGTH('a)"
  shows "le_bytes n (byteswap n w) = rev (le_bytes n w)"
  using assms by (simp add: byteswap_def le_bytes_le_word)

lemma byteswap_le_word:
  fixes w :: "'a::len word"
  assumes "length bs = n" "8 * n = LENGTH('a)"
  shows "byteswap n (le_word bs :: 'a word) = le_word (rev bs)"
  using assms by (simp add: byteswap_def le_bytes_le_word)

lemma byteswap_byteswap:
  fixes w :: "'a::len word"
  assumes "8 * n = LENGTH('a)"
  shows "byteswap n (byteswap n w) = w"
  using assms by (simp add: byteswap_def le_bytes_le_word)

lemma rev_le_bytes: "rev (le_bytes n w) = be_bytes n w"
  by (rule nth_equalityI) (auto simp: be_bytes_def rev_nth nth_le_bytes)

lemma length_be_bytes [simp]: "length (be_bytes n w) = n"
  by (simp add: be_bytes_def)

lemmas offset_defs = ip_offset_def port_offset_def seq_offset_def node_offset_def first_unid_offset_def
  block_size_offset_def buf_size_def

lemma serialize_wire: "length result = buf_size \<Longrightarrow> serialize result b = wire b"
  by (simp add: serialize_def Let_def copy_into_def le_bytes_byteswap rev_le_bytes wire_def offset_defs)

lemma length_wire [simp]: "length (wire b) = buf_size"
  by (simp add: wire_def offset_defs)

lemma byteswap_memcpy_be:
  fixes w :: "'a::len word"
  assumes "8 * n = LENGTH('a)" "take n (drop offset buf) = be_bytes n w"
  shows "byteswap n (memcpy_from buf offset n :: 'a word) = w"
  using assms(1) by (simp add: memcpy_from_def assms(2) byteswap_le_word flip: rev_le_bytes)

lemma deserialize_wire: "deserialize b0 (wire b) = Inr b"
proof -
  have "byteswap 4 (memcpy_from (wire b) ip_offset 4) = ub_ip b" "byteswap 2 (memcpy_from (wire b) port_offset 2) = ub_port b"
    "byteswap 4 (memcpy_from (wire b) seq_offset 4) = ub_seq b" "byteswap 4 (memcpy_from (wire b) node_offset 4) = ub_node b"
    "byteswap 8 (memcpy_from (wire b) first_unid_offset 8) = ub_first_unid b"
    "byteswap 4 (memcpy_from (wire b) block_size_offset 4) = ub_block_size b"
    by (rule byteswap_memcpy_be; simp add: wire_def offset_defs)+
  then show ?thesis by (simp add: deserialize_def Let_def)
qed

lemma be_bytes_byteswap_memcpy:
  assumes "8 * n = LENGTH('a::len)" "offset + n \<le> length buf"
  shows "be_bytes n (byteswap n (memcpy_from buf offset n :: 'a word)) = take n (drop offset buf)"
  using assms by (simp add: memcpy_from_def le_bytes_byteswap le_bytes_le_word flip: rev_le_bytes)

lemma wire_deserialize:
  assumes "length buf = buf_size"
  shows "\<exists>b. deserialize b0 buf = Inr b \<and> wire b = buf"
proof -
  let ?t = "\<lambda>n offset. take n (drop offset buf)"
  have "buf = ?t 4 0 @ ?t 2 4 @ ?t 4 6 @ ?t 4 10 @ ?t 8 14 @ ?t 4 22"
    using assms take_add[of 4 22 buf] take_add[of 2 20 "drop 4 buf"] take_add[of 4 16 "drop 6 buf"]
      take_add[of 4 12 "drop 10 buf"] take_add[of 8 4 "drop 14 buf"] by (simp add: offset_defs)
  then show ?thesis using assms
    by (simp add: deserialize_def Let_def wire_def be_bytes_byteswap_memcpy offset_defs)
qed

lemma bm_unidserial_ok:
  assumes "\<And>i. length (garbage i) = buf_size" "0 < n"
  shows "bm_unidserial garbage n ub1 (buf, ub2) = Inr (wire ub1, ub1)"
  using assms(2)
proof (induction n arbitrary: buf ub2)
  case (Suc n)
  then show ?case by (cases n) (simp_all add: serialize_wire assms(1) deserialize_wire)
qed simp

section \<open>Properties\<close>

text \<open>C35. Serializing a block and deserializing the bytes into any block restores all six fields,
  whatever the uninitialised result array held.\<close>

theorem unid_block_roundtrip:
  assumes "length result = buf_size"
  shows "deserialize b0 (serialize result b) = Inr b"
  using assms by (simp add: serialize_wire deserialize_wire)

theorem unid_block_roundtrip_witness:
  "deserialize bench_ub2 (serialize (replicate 26 0xff) bench_ub1) = Inr bench_ub1"
  using unid_block_roundtrip[of "replicate 26 0xff" bench_ub2 bench_ub1] by (simp add: offset_defs)

text \<open>Every buffer of the right size is the serialization of exactly one block: what
  deserialize reads from it serializes to the same bytes, and a buffer of any other size is rejected
  with \<^verbatim>\<open>std::invalid_argument\<close>.\<close>

theorem unid_block_bytes_roundtrip:
  assumes "length result = buf_size"
  shows "case deserialize b0 buf of
      Inl x \<Rightarrow> length buf \<noteq> buf_size \<and> x = Invalid_argument ''deserialize() buf_size incorrect for struct Unid_block''
    | Inr b \<Rightarrow> length buf = buf_size \<and> serialize result b = buf \<and> (\<forall>b'. serialize result b' = buf \<longrightarrow> b' = b)"
proof (cases "length buf = buf_size")
  case True
  then obtain b where b: "deserialize b0 buf = Inr b" "wire b = buf" using wire_deserialize by blast
  have "\<forall>b'. wire b' = buf \<longrightarrow> b' = b" using deserialize_wire[of b0] b(1) by (metis sum.inject(2))
  with True b show ?thesis unfolding serialize_wire[OF assms] b(1) sum.case by blast
next
  case False
  then show ?thesis by (simp add: deserialize_def)
qed

theorem unid_block_bytes_roundtrip_witness:
  "case deserialize bench_ub2 (replicate 26 7) of Inl x \<Rightarrow> False
    | Inr b \<Rightarrow> serialize (replicate 26 0) b = replicate 26 7"
  using unid_block_bytes_roundtrip[of "replicate 26 0" "replicate 26 7" bench_ub2]
  by (auto simp: offset_defs split: sum.splits)

text \<open>The serialized block is 26 bytes long and holds the fields at their offsets without padding,
  each with its most significant byte first (network order).\<close>

theorem serialize_layout:
  assumes "length result = buf_size"
  shows "length (serialize result b) = 26
    \<and> take 4 (drop ip_offset (serialize result b)) = be_bytes 4 (ub_ip b)
    \<and> take 2 (drop port_offset (serialize result b)) = be_bytes 2 (ub_port b)
    \<and> take 4 (drop seq_offset (serialize result b)) = be_bytes 4 (ub_seq b)
    \<and> take 4 (drop node_offset (serialize result b)) = be_bytes 4 (ub_node b)
    \<and> take 8 (drop first_unid_offset (serialize result b)) = be_bytes 8 (ub_first_unid b)
    \<and> take 4 (drop block_size_offset (serialize result b)) = be_bytes 4 (ub_block_size b)"
  using assms length_wire[of b] by (simp add: serialize_wire) (simp add: wire_def offset_defs)

theorem serialize_layout_witness:
  "take 4 (serialize (replicate 26 0) bench_ub1) = [0xc0, 0xa8, 0x00, 0x01]"
  using serialize_layout[of "replicate 26 0" bench_ub1]
  by (simp add: offset_defs be_bytes_def bench_ub1_def upt_rec)

text \<open>After at least one iteration the benchmark loop has copied \<^verbatim>\<open>ub1\<close> into \<^verbatim>\<open>ub2\<close> and no
  exception was thrown.\<close>

theorem bm_unidserial_copies:
  assumes "\<forall>i. length (garbage i) = buf_size" "0 < n"
  shows "bm_unidserial garbage n bench_ub1 (buf, bench_ub2) = Inr (serialize (garbage 0) bench_ub1, bench_ub1)"
  using bm_unidserial_ok[of garbage n] assms by (simp add: serialize_wire)

theorem bm_unidserial_copies_witness:
  "bm_unidserial (\<lambda>_. replicate 26 1) 3 bench_ub1 ([], bench_ub2) = Inr (serialize (replicate 26 1) bench_ub1, bench_ub1)"
  using bm_unidserial_copies[of "\<lambda>_. replicate 26 1" 3 "[]"] by (simp add: offset_defs)

end
