(* ===== verification/Flatbuffers_Block.thy ===== *)
theory Flatbuffers_Block
  imports Unid_Block
begin

text \<open>
  The FlatBuffers benchmark \<^verbatim>\<open>spike/benchmark/serializers/flatbuffers.cpp\<close>: its own copy of
  \<^verbatim>\<open>struct Unid_block\<close>, and the benchmark loop over the code that \<^verbatim>\<open>flatc\<close> emitted from
  \<^verbatim>\<open>unid_block.fbs\<close> (\<^verbatim>\<open>unid_block_generated.h\<close>). The FlatBuffers library itself is a parameter of the
  model: the record \<open>flat_lib\<close> holds the functions of it that are called, and \<open>flat_lib_ok\<close> what
  its documentation promises of them.
\<close>

section \<open>Definitions\<close>

subsection \<open>The copy of the structure\<close>

definition fb_ip_offset :: nat where "fb_ip_offset = 0"
definition fb_port_offset :: nat where "fb_port_offset = 4"
definition fb_seq_offset :: nat where "fb_seq_offset = fb_port_offset + 2"
definition fb_node_offset :: nat where "fb_node_offset = fb_seq_offset + 4"
definition fb_first_unid_offset :: nat where "fb_first_unid_offset = fb_node_offset + 4"
definition fb_block_size_offset :: nat where "fb_block_size_offset = fb_first_unid_offset + 8"
definition fb_buf_size :: nat where "fb_buf_size = fb_block_size_offset + 4"

definition fb_serialize :: "u8 list \<Rightarrow> unid_block \<Rightarrow> u8 list" where
  "fb_serialize result b =
     (let ip_no = byteswap 4 (ub_ip b);
          port_no = byteswap 2 (ub_port b);
          seq_no = byteswap 4 (ub_seq b);
          node_no = byteswap 4 (ub_node b);
          first_unid_no = byteswap 8 (ub_first_unid b);
          block_size_no = byteswap 4 (ub_block_size b);
          ip_arr = le_bytes 4 ip_no;
          port_arr = le_bytes 2 port_no;
          seq_arr = le_bytes 4 seq_no;
          node_arr = le_bytes 4 node_no;
          first_unid_arr = le_bytes 8 first_unid_no;
          block_size_arr = le_bytes 4 block_size_no;
          s = copy_into ip_arr (result, 0);
          s = copy_into port_arr s;
          s = copy_into seq_arr s;
          s = copy_into node_arr s;
          s = copy_into first_unid_arr s;
          s = copy_into block_size_arr s
      in fst s)"

definition fb_deserialize :: "unid_block \<Rightarrow> u8 list \<Rightarrow> exn + unid_block" where
  "fb_deserialize b buf =
     (if length buf \<noteq> fb_buf_size
      then Inl (Invalid_argument ''deserialize() buf_size incorrect for struct Unid_block'')
      else let b = b\<lparr>ub_ip := memcpy_from buf fb_ip_offset 4\<rparr>;
               b = b\<lparr>ub_port := memcpy_from buf fb_port_offset 2\<rparr>;
               b = b\<lparr>ub_seq := memcpy_from buf fb_seq_offset 4\<rparr>;
               b = b\<lparr>ub_node := memcpy_from buf fb_node_offset 4\<rparr>;
               b = b\<lparr>ub_first_unid := memcpy_from buf fb_first_unid_offset 8\<rparr>;
               b = b\<lparr>ub_block_size := memcpy_from buf fb_block_size_offset 4\<rparr>;
               b = b\<lparr>ub_ip := byteswap 4 (ub_ip b)\<rparr>;
               b = b\<lparr>ub_port := byteswap 2 (ub_port b)\<rparr>;
               b = b\<lparr>ub_seq := byteswap 4 (ub_seq b)\<rparr>;
               b = b\<lparr>ub_node := byteswap 4 (ub_node b)\<rparr>;
               b = b\<lparr>ub_first_unid := byteswap 8 (ub_first_unid b)\<rparr>;
               b = b\<lparr>ub_block_size := byteswap 4 (ub_block_size b)\<rparr>
           in Inr b)"

definition fb_print :: "unid_block \<Rightarrow> string" where
  "fb_print b =
     ''Ip: '' @ show_base 10 (unat (ub_ip b)) @ ''\<newline>'' @ ''Port: '' @ show_base 10 (unat (ub_port b)) @ ''\<newline>''
     @ ''Seq: '' @ show_base 10 (unat (ub_seq b)) @ ''\<newline>'' @ ''Node: '' @ show_base 10 (unat (ub_node b)) @ ''\<newline>''
     @ ''First unid: '' @ show_base 10 (unat (ub_first_unid b)) @ ''\<newline>''
     @ ''Block size: '' @ show_base 10 (unat (ub_block_size b)) @ ''\<newline>''"

subsection \<open>The generated code\<close>

text \<open>
  The library functions the generated code and the benchmark call. \<open>'b\<close> is the state of a
  \<^verbatim>\<open>FlatBufferBuilder\<close>, \<open>'m\<close> a finished buffer and \<open>'t\<close> a table in it. The templated \<^verbatim>\<open>AddElement<T>\<close>
  and \<^verbatim>\<open>GetField<T>\<close> take the size of \<^verbatim>\<open>T\<close> in bytes, the field's vtable offset and the default.
\<close>

record ('b, 'm, 't) flat_lib =
  fl_builder :: 'b
  fl_StartTable :: "'b \<Rightarrow> u32 \<times> 'b"
  fl_AddElement :: "nat \<Rightarrow> 'b \<Rightarrow> u16 \<Rightarrow> nat \<Rightarrow> nat \<Rightarrow> 'b"
  fl_EndTable :: "'b \<Rightarrow> u32 \<Rightarrow> u32 \<times> 'b"
  fl_Finish :: "'b \<Rightarrow> u32 \<Rightarrow> 'b"
  fl_GetBufferPointer :: "'b \<Rightarrow> 'm"
  fl_GetRoot :: "'m \<Rightarrow> 't"
  fl_GetField :: "nat \<Rightarrow> 't \<Rightarrow> u16 \<Rightarrow> nat \<Rightarrow> nat"
  fl_Release :: "'b \<Rightarrow> 'b"

definition VT_IP :: u16 where "VT_IP = 4"
definition VT_PORT :: u16 where "VT_PORT = 6"
definition VT_SEQ :: u16 where "VT_SEQ = 8"
definition VT_NODE :: u16 where "VT_NODE = 10"
definition VT_FIRST_UNID :: u16 where "VT_FIRST_UNID = 12"
definition VT_BLOCK_SIZE :: u16 where "VT_BLOCK_SIZE = 14"

definition fbt_ip :: "('b, 'm, 't) flat_lib \<Rightarrow> 't \<Rightarrow> u32" where
  "fbt_ip L t = of_nat (fl_GetField L 4 t VT_IP 0)"

definition fbt_port :: "('b, 'm, 't) flat_lib \<Rightarrow> 't \<Rightarrow> u16" where
  "fbt_port L t = of_nat (fl_GetField L 2 t VT_PORT 0)"

definition fbt_seq :: "('b, 'm, 't) flat_lib \<Rightarrow> 't \<Rightarrow> u32" where
  "fbt_seq L t = of_nat (fl_GetField L 4 t VT_SEQ 0)"

definition fbt_node :: "('b, 'm, 't) flat_lib \<Rightarrow> 't \<Rightarrow> u32" where
  "fbt_node L t = of_nat (fl_GetField L 4 t VT_NODE 0)"

definition fbt_first_unid :: "('b, 'm, 't) flat_lib \<Rightarrow> 't \<Rightarrow> u64" where
  "fbt_first_unid L t = of_nat (fl_GetField L 8 t VT_FIRST_UNID 0)"

definition fbt_block_size :: "('b, 'm, 't) flat_lib \<Rightarrow> 't \<Rightarrow> u32" where
  "fbt_block_size L t = of_nat (fl_GetField L 4 t VT_BLOCK_SIZE 0)"

text \<open>\<^verbatim>\<open>Unid_block_tBuilder\<close>: the wrapped builder and the start of its table.\<close>

record 'b table_builder =
  tb_fbb :: 'b
  tb_start :: u32

definition table_builder_new :: "('b, 'm, 't) flat_lib \<Rightarrow> 'b \<Rightarrow> 'b table_builder" where
  "table_builder_new L fbb = (let (start, fbb) = fl_StartTable L fbb in \<lparr>tb_fbb = fbb, tb_start = start\<rparr>)"

definition add_ip :: "('b, 'm, 't) flat_lib \<Rightarrow> u32 \<Rightarrow> 'b table_builder \<Rightarrow> 'b table_builder" where
  "add_ip L ip b = b\<lparr>tb_fbb := fl_AddElement L 4 (tb_fbb b) VT_IP (unat ip) 0\<rparr>"

definition add_port :: "('b, 'm, 't) flat_lib \<Rightarrow> u16 \<Rightarrow> 'b table_builder \<Rightarrow> 'b table_builder" where
  "add_port L port b = b\<lparr>tb_fbb := fl_AddElement L 2 (tb_fbb b) VT_PORT (unat port) 0\<rparr>"

definition add_seq :: "('b, 'm, 't) flat_lib \<Rightarrow> u32 \<Rightarrow> 'b table_builder \<Rightarrow> 'b table_builder" where
  "add_seq L seq b = b\<lparr>tb_fbb := fl_AddElement L 4 (tb_fbb b) VT_SEQ (unat seq) 0\<rparr>"

definition add_node :: "('b, 'm, 't) flat_lib \<Rightarrow> u32 \<Rightarrow> 'b table_builder \<Rightarrow> 'b table_builder" where
  "add_node L node b = b\<lparr>tb_fbb := fl_AddElement L 4 (tb_fbb b) VT_NODE (unat node) 0\<rparr>"

definition add_first_unid :: "('b, 'm, 't) flat_lib \<Rightarrow> u64 \<Rightarrow> 'b table_builder \<Rightarrow> 'b table_builder" where
  "add_first_unid L first_unid b = b\<lparr>tb_fbb := fl_AddElement L 8 (tb_fbb b) VT_FIRST_UNID (unat first_unid) 0\<rparr>"

definition add_block_size :: "('b, 'm, 't) flat_lib \<Rightarrow> u32 \<Rightarrow> 'b table_builder \<Rightarrow> 'b table_builder" where
  "add_block_size L block_size b = b\<lparr>tb_fbb := fl_AddElement L 4 (tb_fbb b) VT_BLOCK_SIZE (unat block_size) 0\<rparr>"

definition table_builder_Finish :: "('b, 'm, 't) flat_lib \<Rightarrow> 'b table_builder \<Rightarrow> u32 \<times> 'b" where
  "table_builder_Finish L b = fl_EndTable L (tb_fbb b) (tb_start b)"

definition CreateUnid_block_t ::
  "('b, 'm, 't) flat_lib \<Rightarrow> 'b \<Rightarrow> u32 \<Rightarrow> u16 \<Rightarrow> u32 \<Rightarrow> u32 \<Rightarrow> u64 \<Rightarrow> u32 \<Rightarrow> u32 \<times> 'b" where
  "CreateUnid_block_t L fbb ip port seq node first_unid block_size =
     (let builder = table_builder_new L fbb;
          builder = add_first_unid L first_unid builder;
          builder = add_block_size L block_size builder;
          builder = add_node L node builder;
          builder = add_seq L seq builder;
          builder = add_ip L ip builder;
          builder = add_port L port builder
      in table_builder_Finish L builder)"

definition GetUnid_block_t :: "('b, 'm, 't) flat_lib \<Rightarrow> 'm \<Rightarrow> 't" where
  "GetUnid_block_t L buf = fl_GetRoot L buf"

subsection \<open>The benchmark\<close>

text \<open>The loop body \<open>n\<close> times on the builder and \<^verbatim>\<open>ub2\<close>.\<close>

fun bm_flatbuffer :: "('b, 'm, 't) flat_lib \<Rightarrow> nat \<Rightarrow> unid_block \<Rightarrow> 'b \<times> unid_block \<Rightarrow> 'b \<times> unid_block" where
  "bm_flatbuffer L 0 ub1 (builder, ub2) = (builder, ub2)"
| "bm_flatbuffer L (Suc n) ub1 (builder, ub2) =
     (let (ub1_t, builder) = CreateUnid_block_t L builder (ub_ip ub1) (ub_port ub1) (ub_seq ub1) (ub_node ub1)
            (ub_first_unid ub1) (ub_block_size ub1);
          builder = fl_Finish L builder ub1_t;
          flatbuffer = fl_GetBufferPointer L builder;
          ub = GetUnid_block_t L flatbuffer;
          ub2 = ub2\<lparr>ub_ip := fbt_ip L ub\<rparr>;
          ub2 = ub2\<lparr>ub_port := fbt_port L ub\<rparr>;
          ub2 = ub2\<lparr>ub_seq := fbt_seq L ub\<rparr>;
          ub2 = ub2\<lparr>ub_node := fbt_node L ub\<rparr>;
          ub2 = ub2\<lparr>ub_first_unid := fbt_first_unid L ub\<rparr>;
          ub2 = ub2\<lparr>ub_block_size := fbt_block_size L ub\<rparr>
      in bm_flatbuffer L n ub1 (fl_Release L builder, ub2))"

definition fb_ub1 :: unid_block where
  "fb_ub1 = \<lparr>ub_ip = 0xc0a80001, ub_port = 44444, ub_seq = 1234, ub_node = 4321, ub_first_unid = 9876,
     ub_block_size = 6789\<rparr>"

definition fb_ub2 :: unid_block where
  "fb_ub2 = \<lparr>ub_ip = 0, ub_port = 0, ub_seq = 0, ub_node = 0, ub_first_unid = 0, ub_block_size = 0\<rparr>"

subsection \<open>What the library promises\<close>

text \<open>
  A list of elements (size, vtable offset, value) is well formed as the format documents it: sizes are those of scalars, an
  offset is that of a field (4, 6, 8, and so on, within a 16-bit vtable) and occurs once, every value fits its size, and the
  table, where an element takes at most 16 bytes with its alignment, is below 64 KiB. A new or released builder is ready for a table; the fields of a table built
  from a well-formed list, finished as the root of its buffer, read back as they were added, and
  \<^verbatim>\<open>Release\<close> makes the builder ready again.
\<close>

definition elements_ok :: "(nat \<times> u16 \<times> nat) list \<Rightarrow> bool" where
  "elements_ok es \<longleftrightarrow> distinct (map (fst \<circ> snd) es) \<and> 4 + 16 * length es < 2 ^ 16
     \<and> list_all (\<lambda>(n, vt, v). n \<in> {1, 2, 4, 8} \<and> 4 \<le> unat vt \<and> even (unat vt) \<and> unat vt + 2 < 2 ^ 16 \<and> v < 256 ^ n) es"

definition add_elements :: "('b, 'm, 't) flat_lib \<Rightarrow> (nat \<times> u16 \<times> nat) list \<Rightarrow> 'b \<Rightarrow> 'b" where
  "add_elements L es b = fold (\<lambda>(n, vt, v) b. fl_AddElement L n b vt v 0) es b"

definition build_table :: "('b, 'm, 't) flat_lib \<Rightarrow> (nat \<times> u16 \<times> nat) list \<Rightarrow> 'b \<Rightarrow> 'b" where
  "build_table L es b =
     (let (start, b) = fl_StartTable L b; (root, b) = fl_EndTable L (add_elements L es b) start in fl_Finish L b root)"

definition flat_lib_ok :: "('b, 'm, 't) flat_lib \<Rightarrow> ('b \<Rightarrow> bool) \<Rightarrow> bool" where
  "flat_lib_ok L ready \<longleftrightarrow> ready (fl_builder L)
     \<and> (\<forall>b es. ready b \<longrightarrow> elements_ok es \<longrightarrow> ready (fl_Release L (build_table L es b))
         \<and> (\<forall>(n, vt, v) \<in> set es. fl_GetField L n (fl_GetRoot L (fl_GetBufferPointer L (build_table L es b))) vt 0 = v))"

text \<open>The elements the generated code adds for a block.\<close>

definition block_elements :: "unid_block \<Rightarrow> (nat \<times> u16 \<times> nat) list" where
  "block_elements b = [(8, VT_FIRST_UNID, unat (ub_first_unid b)), (4, VT_BLOCK_SIZE, unat (ub_block_size b)),
     (4, VT_NODE, unat (ub_node b)), (4, VT_SEQ, unat (ub_seq b)), (4, VT_IP, unat (ub_ip b)), (2, VT_PORT, unat (ub_port b))]"

text \<open>
  An instance that behaves like the library: elements equal to their default are not stored, and a
  field that is not stored reads as the default. A builder holds the fields of the open table,
  and a finished buffer.
\<close>

definition demo_flat :: "((u16 \<times> nat) list \<times> (u16 \<times> nat) list, (u16 \<times> nat) list, u16 \<rightharpoonup> nat) flat_lib" where
  "demo_flat = \<lparr>fl_builder = ([], []), fl_StartTable = (\<lambda>(b, m). (0, ([], m))),
     fl_AddElement = (\<lambda>n (b, m) vt v d. if v = d then (b, m) else (b @ [(vt, v)], m)),
     fl_EndTable = (\<lambda>b start. (0, b)), fl_Finish = (\<lambda>(b, m) root. ([], b)), fl_GetBufferPointer = snd,
     fl_GetRoot = map_of, fl_GetField = (\<lambda>n t vt d. case t vt of None \<Rightarrow> d | Some v \<Rightarrow> v),
     fl_Release = (\<lambda>_. ([], []))\<rparr>"

section \<open>Lemmas\<close>

lemmas vt_defs = VT_IP_def VT_PORT_def VT_SEQ_def VT_NODE_def VT_FIRST_UNID_def VT_BLOCK_SIZE_def

lemmas add_defs = add_ip_def add_port_def add_seq_def add_node_def add_first_unid_def add_block_size_def

lemmas fbt_defs = fbt_ip_def fbt_port_def fbt_seq_def fbt_node_def fbt_first_unid_def fbt_block_size_def

lemmas fb_offset_defs = fb_ip_offset_def fb_port_offset_def fb_seq_offset_def fb_node_offset_def
  fb_first_unid_offset_def fb_block_size_offset_def fb_buf_size_def

lemma fb_offsets: "fb_ip_offset = ip_offset" "fb_port_offset = port_offset" "fb_seq_offset = seq_offset"
  "fb_node_offset = node_offset" "fb_first_unid_offset = first_unid_offset" "fb_block_size_offset = block_size_offset"
  "fb_buf_size = buf_size"
  by (simp_all add: fb_offset_defs offset_defs)

lemma fb_serialize_eq: "fb_serialize = serialize"
  by (intro ext, unfold fb_serialize_def serialize_def, rule refl)

lemma fb_deserialize_eq: "fb_deserialize = deserialize"
  by (intro ext, unfold fb_deserialize_def deserialize_def fb_offsets, rule refl)

lemma unat_fits: "unat (w :: u16) < 256 ^ 2" "unat (x :: u32) < 256 ^ 4" "unat (y :: u64) < 256 ^ 8"
  using unsigned_less[of w] unsigned_less[of x] unsigned_less[of y] by simp_all

lemma block_elements_ok: "elements_ok (block_elements b)"
  using unat_fits by (simp add: elements_ok_def block_elements_def vt_defs)

lemma create_build:
  "(let (ub1_t, builder) = CreateUnid_block_t L builder (ub_ip b) (ub_port b) (ub_seq b) (ub_node b) (ub_first_unid b)
     (ub_block_size b) in fl_Finish L builder ub1_t) = build_table L (block_elements b) builder"
  by (simp add: CreateUnid_block_t_def table_builder_new_def table_builder_Finish_def add_defs build_table_def
      add_elements_def block_elements_def Let_def split: prod.split)

lemma bm_flatbuffer_Suc:
  "bm_flatbuffer L (Suc n) ub1 (builder, ub2) =
     (let builder = build_table L (block_elements ub1) builder; ub = fl_GetRoot L (fl_GetBufferPointer L builder)
      in bm_flatbuffer L n ub1 (fl_Release L builder, ub2\<lparr>ub_ip := fbt_ip L ub, ub_port := fbt_port L ub,
        ub_seq := fbt_seq L ub, ub_node := fbt_node L ub, ub_first_unid := fbt_first_unid L ub, ub_block_size := fbt_block_size L ub\<rparr>))"
proof -
  obtain t b' where c: "CreateUnid_block_t L builder (ub_ip ub1) (ub_port ub1) (ub_seq ub1) (ub_node ub1) (ub_first_unid ub1)
      (ub_block_size ub1) = (t, b')" by (rule prod.exhaust)
  then have "build_table L (block_elements ub1) builder = fl_Finish L b' t" using create_build[of L builder ub1] by simp
  with c show ?thesis by (simp add: Let_def GetUnid_block_t_def)
qed

lemma flat_lib_okD:
  assumes "flat_lib_ok L ready" "ready b" "elements_ok es"
  shows "ready (fl_Release L (build_table L es b))"
    and "(n, vt, v) \<in> set es \<Longrightarrow> fl_GetField L n (fl_GetRoot L (fl_GetBufferPointer L (build_table L es b))) vt 0 = v"
  using assms by (fastforce simp: flat_lib_ok_def)+

lemma bm_flatbuffer_copies:
  assumes "flat_lib_ok L ready" "ready builder" "0 < n"
  shows "snd (bm_flatbuffer L n ub1 (builder, ub2)) = ub1 \<and> ready (fst (bm_flatbuffer L n ub1 (builder, ub2)))"
  using assms(2,3)
proof (induction n arbitrary: builder ub2)
  case (Suc n)
  define b where "b = build_table L (block_elements ub1) builder"
  note law = flat_lib_okD[OF assms(1) Suc.prems(1) block_elements_ok[of ub1], folded b_def]
  have "list_all (\<lambda>(n, vt, v). fl_GetField L n (fl_GetRoot L (fl_GetBufferPointer L b)) vt 0 = v) (block_elements ub1)"
    using law(2) by (auto simp: list_all_iff)
  then have "fbt_ip L (fl_GetRoot L (fl_GetBufferPointer L b)) = ub_ip ub1"
    "fbt_port L (fl_GetRoot L (fl_GetBufferPointer L b)) = ub_port ub1"
    "fbt_seq L (fl_GetRoot L (fl_GetBufferPointer L b)) = ub_seq ub1"
    "fbt_node L (fl_GetRoot L (fl_GetBufferPointer L b)) = ub_node ub1"
    "fbt_first_unid L (fl_GetRoot L (fl_GetBufferPointer L b)) = ub_first_unid ub1"
    "fbt_block_size L (fl_GetRoot L (fl_GetBufferPointer L b)) = ub_block_size ub1"
    by (simp_all add: block_elements_def fbt_defs)
  moreover have "ub2\<lparr>ub_ip := ub_ip ub1, ub_port := ub_port ub1, ub_seq := ub_seq ub1, ub_node := ub_node ub1,
      ub_first_unid := ub_first_unid ub1, ub_block_size := ub_block_size ub1\<rparr> = ub1" by simp
  ultimately have "bm_flatbuffer L (Suc n) ub1 (builder, ub2) = bm_flatbuffer L n ub1 (fl_Release L b, ub1)"
    unfolding bm_flatbuffer_Suc Let_def b_def[symmetric] by (simp only:)
  then show ?case using Suc.IH[OF law(1), of ub1] law(1) by (cases n) (simp_all del: bm_flatbuffer.simps(2))
qed simp

lemma demo_add: "add_elements demo_flat es (b, m) = (b @ map snd (filter (\<lambda>(n, vt, v). v \<noteq> 0) es), m)"
  by (induction es arbitrary: b) (auto simp: add_elements_def demo_flat_def)

lemma map_of_filter_elements:
  assumes "distinct (map (fst \<circ> snd) es)" "(n, vt, v) \<in> set es"
  shows "map_of (map snd (filter (\<lambda>(n, vt, v). v \<noteq> (0::nat)) es)) vt = (if v = 0 then None else Some v)"
  using assms
proof (induction es)
  case (Cons x es)
  have none: "map_of (map snd (filter (\<lambda>(n, vt, v). v \<noteq> 0) es)) k = None" if "k \<notin> set (map (fst \<circ> snd) es)" for k
    using that by (force simp: map_of_eq_None_iff)
  have "vt \<in> set (map (fst \<circ> snd) es)" if "(n, vt, v) \<in> set es" using that by force
  then show ?case using Cons none[of vt] by (cases x) auto
qed simp

lemma demo_flat_ok: "flat_lib_ok demo_flat (\<lambda>(b, m). b = [])"
proof -
  have "fl_GetRoot demo_flat (fl_GetBufferPointer demo_flat (build_table demo_flat es (b, m)))
    = map_of (map snd (filter (\<lambda>(n, vt, v). v \<noteq> 0) es))" for es b m
    using demo_add[of es "[]" m] by (simp add: build_table_def) (simp add: demo_flat_def)
  moreover have "fl_GetField demo_flat n t vt 0 = (case t vt of None \<Rightarrow> 0 | Some v \<Rightarrow> v)" for n t vt
    by (simp add: demo_flat_def)
  ultimately have "fl_GetField demo_flat n (fl_GetRoot demo_flat (fl_GetBufferPointer demo_flat (build_table demo_flat es b))) vt 0 = v"
    if "elements_ok es" "(n, vt, v) \<in> set es" for es b n vt v
    using that map_of_filter_elements[of es n vt v] by (cases b) (simp add: elements_ok_def)
  moreover have "fl_Release demo_flat b = ([], [])" "fl_builder demo_flat = ([], [])" for b by (simp_all add: demo_flat_def)
  ultimately show ?thesis unfolding flat_lib_ok_def by auto
qed

section \<open>Properties\<close>

text \<open>The two serializers of the spike agree on the wire: what either writes the other reads back,
  whatever the uninitialised array of the writer and the block of the reader held.\<close>

theorem serializers_interoperate:
  assumes "length result = buf_size"
  shows "fb_deserialize b0 (serialize result b) = Inr b \<and> deserialize b0 (fb_serialize result b) = Inr b
    \<and> fb_deserialize b0 (fb_serialize result b) = Inr b"
  using assms by (simp add: fb_serialize_eq fb_deserialize_eq serialize_wire deserialize_wire)

theorem serializers_interoperate_witness:
  "fb_deserialize fb_ub2 (serialize (replicate 26 0xff) bench_ub1) = Inr fb_ub1"
  using serializers_interoperate[of "replicate 26 0xff" fb_ub2 bench_ub1] by (simp add: offset_defs bench_ub1_def fb_ub1_def)

text \<open>C36. With a FlatBuffers library that keeps its promises, the benchmark loop, run at least once,
  has carried all six fields of \<^verbatim>\<open>ub1\<close> through a flat buffer into \<^verbatim>\<open>ub2\<close> and left the builder ready for the
  next table.\<close>

theorem flatbuffer_roundtrip:
  assumes "flat_lib_ok L ready" "0 < n"
  shows "snd (bm_flatbuffer L n ub1 (fl_builder L, ub2)) = ub1 \<and> ready (fst (bm_flatbuffer L n ub1 (fl_builder L, ub2)))"
  using bm_flatbuffer_copies[OF assms(1) _ assms(2)] assms(1) by (simp add: flat_lib_ok_def)

theorem flatbuffer_roundtrip_witness:
  "snd (bm_flatbuffer demo_flat 3 fb_ub1 (fl_builder demo_flat, fb_ub2)) = fb_ub1"
  using flatbuffer_roundtrip[OF demo_flat_ok, of 3 fb_ub1 fb_ub2] by simp

end
