(* ===== verification/Concat_Arrays.thy ===== *)
theory Concat_Arrays
  imports Unid_Block
begin

text \<open>
  The variadic concatenation of byte arrays of \<^verbatim>\<open>spike/concatenate_arrays.cpp\<close>; a parameter pack of
  arrays is a list of byte lists.
\<close>

section \<open>Definitions\<close>

fun sum_sizes :: "nat list \<Rightarrow> nat" where
  "sum_sizes [] = 0"
| "sum_sizes (n # ns) = n + sum_sizes ns"

text \<open>
  The fold over the comma operator: copy one array at \<^verbatim>\<open>offset\<close>, then advance \<^verbatim>\<open>offset\<close>. \<open>result\<close>
  is the uninitialised result array.
\<close>

fun concat_fold :: "u8 list list \<Rightarrow> u8 list \<times> nat \<Rightarrow> u8 list \<times> nat" where
  "concat_fold [] s = s"
| "concat_fold (arr # arrs) s = concat_fold arrs (copy_into arr s)"

definition concatenate_byte_arrays :: "u8 list \<Rightarrow> u8 list list \<Rightarrow> u8 list" where
  "concatenate_byte_arrays result arrs = fst (concat_fold arrs (result, 0))"

fun print_combined :: "u8 list \<Rightarrow> string" where
  "print_combined [] = ''''"
| "print_combined (b # bs) = ''0x'' @ show_base 16 (unat b) @ '' '' @ print_combined bs"

definition concat_main :: "u8 list \<Rightarrow> string" where
  "concat_main result =
     (let a1 = [1, 2, 3]; a2 = [4, 5]; a3 = [6, 7, 8, 9];
          combined = concatenate_byte_arrays result [a1, a2, a3]
      in ''Combined array size: '' @ show_base 10 (length combined) @ ''\<newline>Combined array data: ''
         @ print_combined combined @ ''\<newline>'')"

section \<open>Correctness\<close>

lemma concat_fold_eq:
  "it + length (concat arrs) \<le> length result \<Longrightarrow>
   concat_fold arrs (result, it) = (take it result @ concat arrs @ drop (it + length (concat arrs)) result, it + length (concat arrs))"
proof (induction arrs arbitrary: result it)
  case (Cons arr arrs)
  let ?r = "take it result @ arr @ drop (it + length arr) result"
  have "concat_fold arrs (?r, it + length arr) = (take (it + length arr) ?r @ concat arrs
      @ drop (it + length arr + length (concat arrs)) ?r, it + length arr + length (concat arrs))"
    using Cons.prems by (intro Cons.IH) simp
  then show ?case using Cons.prems by (simp add: copy_into_def add.commute add.left_commute)
qed simp

lemma sum_sizes_length: "sum_sizes (map length arrs) = length (concat arrs)"
  by (induction arrs) auto

section \<open>Properties\<close>

text \<open>The concatenation holds exactly the bytes of the arguments in order, whatever its
  uninitialised result array of the computed size held.\<close>

theorem concatenate_correct:
  assumes "length result = sum_sizes (map length arrs)"
  shows "concatenate_byte_arrays result arrs = concat arrs"
  using assms concat_fold_eq[of 0 arrs result]
  by (simp add: concatenate_byte_arrays_def sum_sizes_length del: length_concat)

theorem concatenate_correct_witness:
  "concatenate_byte_arrays [9, 9, 9, 9, 9] [[1, 2, 3], [4, 5]] = [1, 2, 3, 4, 5]"
  using concatenate_correct[of "[9, 9, 9, 9, 9]" "[[1, 2, 3], [4, 5]]"] by simp

end
