(* ===== verification/Crc32.thy ===== *)
theory Crc32
  imports Prelude
begin

text \<open>
  The CRC-32 checksum of \<^verbatim>\<open>spike/crc32.cpp\<close>: the table generator, the table-driven routine with its
  function-local static table, and the bitwise reference it is equivalent to.
\<close>

section \<open>Definitions\<close>

definition polynomial :: u32 where "polynomial = 0xEDB88320"

text \<open>The inner loop of the generator: \<open>n\<close> rounds from \<open>c\<close>.\<close>

fun crc_rounds :: "nat \<Rightarrow> u32 \<Rightarrow> u32" where
  "crc_rounds 0 c = c"
| "crc_rounds (Suc n) c = crc_rounds n (if c AND 1 \<noteq> 0 then polynomial XOR drop_bit 1 c else drop_bit 1 c)"

text \<open>The outer loop from \<open>i\<close>, with \<open>n\<close> entries left.\<close>

fun table_loop :: "nat \<Rightarrow> nat \<Rightarrow> u32 list \<Rightarrow> u32 list" where
  "table_loop i 0 table = table"
| "table_loop i (Suc n) table = table_loop (Suc i) n (table[i := crc_rounds 8 (of_nat i)])"

definition generate_crc32_table :: "u32 list \<Rightarrow> u32 list" where
  "generate_crc32_table table = table_loop 0 256 table"

text \<open>The function-local statics of \<^verbatim>\<open>compute_crc32\<close>, zero-initialised.\<close>

record crc_static =
  crc_table :: "u32 list"
  crc_table_generated :: bool

definition crc_static_init :: crc_static where
  "crc_static_init = \<lparr>crc_table = replicate 256 0, crc_table_generated = False\<rparr>"

fun crc_loop :: "u32 list \<Rightarrow> u32 \<Rightarrow> u8 list \<Rightarrow> u32" where
  "crc_loop table crc [] = crc"
| "crc_loop table crc (b # u) = crc_loop table (table ! unat ((crc XOR ucast b) AND 0xFF) XOR drop_bit 8 crc) u"

definition compute_crc32 :: "crc_static \<Rightarrow> u8 list \<Rightarrow> u32 \<Rightarrow> u32 \<times> crc_static" where
  "compute_crc32 s buf initial =
     (let s = (if \<not> crc_table_generated s
               then s\<lparr>crc_table := generate_crc32_table (crc_table s), crc_table_generated := True\<rparr> else s);
          crc = initial XOR 0xFFFFFFFF;
          crc = crc_loop (crc_table s) crc buf
      in (crc XOR 0xFFFFFFFF, s))"

definition fox :: "u8 list" where
  "fox = map of_char ''The quick brown fox jumps over the lazy dog''"

definition crc_main :: string where
  "crc_main = ''CRC-32: '' @ show_base 16 (unat (fst (compute_crc32 crc_static_init fox 0))) @ ''\<newline>''"

text \<open>
  Reference: the CRC-32 of IEEE 802.3 as a shift register fed with single message bits, lowest bit of a byte first. The register
  holds the coefficient of \<open>x ^ k\<close> in bit \<open>31 - k\<close>, and the generator polynomial is given by its exponents
  below 32.
\<close>

definition ieee_exponents :: "nat list" where
  "ieee_exponents = [26, 23, 22, 16, 12, 11, 10, 8, 7, 5, 4, 2, 1, 0]"

definition ieee_generator :: u32 where
  "ieee_generator = sum_list (map (\<lambda>k. 2 ^ (31 - k)) ieee_exponents)"

fun crc_bits :: "u32 \<Rightarrow> bool list \<Rightarrow> u32" where
  "crc_bits crc [] = crc"
| "crc_bits crc (b # bs) = crc_bits (drop_bit 1 crc XOR (if bit crc 0 \<noteq> b then ieee_generator else 0)) bs"

definition message_bits :: "u8 list \<Rightarrow> bool list" where
  "message_bits buf = concat (map (\<lambda>b. map (bit b) [0..<8]) buf)"

definition crc32 :: "u8 list \<Rightarrow> u32 \<Rightarrow> u32" where
  "crc32 buf initial = crc_bits (initial XOR 0xFFFFFFFF) (message_bits buf) XOR 0xFFFFFFFF"

text \<open>The same register byte by byte.\<close>

fun crc_bitwise :: "u32 \<Rightarrow> u8 list \<Rightarrow> u32" where
  "crc_bitwise crc [] = crc"
| "crc_bitwise crc (b # bs) = crc_bitwise (crc_rounds 8 (crc XOR ucast b)) bs"

text \<open>The statics between calls: not yet generated, or holding the table.\<close>

definition crc_static_ok :: "crc_static \<Rightarrow> bool" where
  "crc_static_ok s \<longleftrightarrow> length (crc_table s) = 256
     \<and> (crc_table_generated s \<longrightarrow> crc_table s = map (\<lambda>i. crc_rounds 8 (of_nat i)) [0..<256])"

section \<open>The shift register\<close>

lemma crc_rounds_add: "crc_rounds (m + n) c = crc_rounds n (crc_rounds m c)"
  by (induction m arbitrary: c) auto

lemma crc_rounds_Suc:
  "crc_rounds (Suc n) c = crc_rounds n (drop_bit 1 c XOR (if bit c 0 then polynomial else 0))"
proof -
  have "c AND 1 \<noteq> 0 \<longleftrightarrow> bit c 0" unfolding and_one_eq bit_0 even_iff_mod_2_eq_zero by simp
  then show ?thesis by (simp add: xor.commute)
qed

lemma crc_rounds_xor: "crc_rounds n (a XOR b) = crc_rounds n a XOR crc_rounds n b"
proof (induction n arbitrary: a b)
  case (Suc n)
  have "drop_bit 1 (a XOR b) XOR (if bit (a XOR b) 0 then polynomial else 0)
      = (drop_bit 1 a XOR (if bit a 0 then polynomial else 0)) XOR (drop_bit 1 b XOR (if bit b 0 then polynomial else 0))"
    by (rule bit_word_eqI) (auto simp: bit_xor_iff bit_drop_bit_eq)
  then show ?case unfolding crc_rounds_Suc by (simp add: Suc.IH)
qed simp

lemma crc_rounds_shift: "(\<And>k. k < n \<Longrightarrow> \<not> bit w k) \<Longrightarrow> crc_rounds n w = drop_bit n w"
proof (induction n arbitrary: w)
  case (Suc n)
  have "\<not> bit (drop_bit 1 w) k" if "k < n" for k using Suc.prems[of "Suc k"] that by (simp add: bit_drop_bit_eq)
  then have "crc_rounds n (drop_bit 1 w) = drop_bit (Suc n) w" using Suc.IH[of "drop_bit 1 w"] by simp
  moreover have "\<not> bit w 0" using Suc.prems by blast
  ultimately show ?case unfolding crc_rounds_Suc by simp
qed simp

lemma crc_rounds_inj: "crc_rounds n a = crc_rounds n b \<Longrightarrow> a = b"
proof (induction n arbitrary: a b)
  case (Suc n)
  from Suc.prems have eq: "drop_bit 1 a XOR (if bit a 0 then polynomial else 0) = drop_bit 1 b XOR (if bit b 0 then polynomial else 0)"
    unfolding crc_rounds_Suc by (rule Suc.IH)
  have top: "bit (drop_bit 1 c XOR (if bit c 0 then polynomial else 0)) 31 = bit c 0" for c :: u32
  proof -
    have "bit polynomial 31" by (simp add: polynomial_def)
    moreover have "\<not> bit (drop_bit 1 c) 31" by (auto simp: bit_drop_bit_eq dest: bit_imp_le_length)
    ultimately show ?thesis by (simp add: bit_xor_iff)
  qed
  have low: "bit a 0 = bit b 0" using arg_cong[OF eq, of "\<lambda>w. bit w 31"] unfolding top .
  let ?p = "if bit b 0 then polynomial else 0"
  from eq low have "(drop_bit 1 a XOR ?p) XOR ?p = (drop_bit 1 b XOR ?p) XOR ?p" by (simp only:)
  then have "drop_bit 1 a = drop_bit 1 b" by (simp only: xor.assoc xor_self_eq xor.right_neutral)
  show ?case
  proof (rule bit_word_eqI)
    fix k assume "k < LENGTH(32)"
    show "bit a k = bit b k"
    proof (cases k)
      case (Suc j)
      then show ?thesis using arg_cong[OF \<open>drop_bit 1 a = drop_bit 1 b\<close>, of "\<lambda>w. bit w j"]
        by (simp only: bit_drop_bit_eq comp_apply plus_1_eq_Suc)
    qed (use low in \<open>simp only:\<close>)
  qed
qed simp

text \<open>The code's constant is the standard's polynomial, and eight of its rounds shift in one byte.\<close>

lemma generator_polynomial: "ieee_generator = polynomial"
  by (simp add: ieee_generator_def ieee_exponents_def polynomial_def)

lemma crc_bits_append: "crc_bits crc (xs @ ys) = crc_bits (crc_bits crc xs) ys"
  by (induction xs arbitrary: crc) simp_all

lemma crc_bits_rounds:
  "length bs \<le> 32 \<Longrightarrow> crc_bits crc bs = crc_rounds (length bs) (crc XOR horner_sum of_bool 2 bs)"
proof (induction bs arbitrary: crc)
  case (Cons b bs)
  let ?w = "horner_sum of_bool 2 (b # bs) :: u32" and ?v = "horner_sum of_bool 2 bs :: u32"
  have low: "bit ?w 0 = b" unfolding bit_horner_sum_bit_word_iff by simp
  have "drop_bit 1 ?w = ?v"
    using Cons.prems by (intro bit_word_eqI) (auto simp: bit_drop_bit_eq bit_horner_sum_bit_word_iff simp del: horner_sum_simps)
  then have "drop_bit 1 (crc XOR ?w) XOR (if bit (crc XOR ?w) 0 then polynomial else 0)
      = (drop_bit 1 crc XOR (if bit crc 0 \<noteq> b then polynomial else 0)) XOR ?v"
    unfolding drop_bit_xor bit_xor_iff low by (simp add: ac_simps)
  then show ?case using Cons unfolding list.size(4) add_Suc_right add_0_right crc_rounds_Suc
    by (simp add: generator_polynomial del: crc_rounds.simps horner_sum_simps)
qed simp

lemma crc32_bitwise: "crc32 buf initial = crc_bitwise (initial XOR 0xFFFFFFFF) buf XOR 0xFFFFFFFF"
proof -
  have "crc_bits crc (map (bit b) [0..<8]) = crc_rounds 8 (crc XOR ucast b)" for crc :: u32 and b :: u8
  proof -
    have "horner_sum of_bool 2 (map (bit b) [0..<8]) = (ucast b :: u32)"
    proof (rule bit_word_eqI)
      fix n assume "n < LENGTH(32)"
      then show "bit (horner_sum of_bool 2 (map (bit b) [0..<8]) :: u32) n = bit (ucast b :: u32) n"
        by (cases "n < 8") (auto simp: bit_horner_sum_bit_word_iff bit_ucast_iff simp del: upt_Suc dest: bit_imp_le_length)
    qed
    then show ?thesis by (simp add: crc_bits_rounds del: crc_rounds.simps)
  qed
  then have "crc_bits crc (message_bits bs) = crc_bitwise crc bs" for crc bs
    by (induction bs arbitrary: crc) (simp_all add: message_bits_def crc_bits_append del: crc_rounds.simps upt_Suc crc_bits.simps(2))
  then show ?thesis by (simp add: crc32_def)
qed

section \<open>The table\<close>

lemma table_loop_eq:
  "i + n \<le> length t \<Longrightarrow> table_loop i n t = take i t @ map (\<lambda>k. crc_rounds 8 (of_nat k)) [i..<i + n] @ drop (i + n) t"
proof (induction n arbitrary: i t)
  case (Suc n)
  have "take (Suc i) (t[i := v]) = take i t @ [v]" for v using Suc.prems by (simp add: take_Suc_conv_app_nth)
  moreover have "[i..<i + Suc n] = i # [Suc i..<Suc i + n]" using upt_conv_Cons[of i "i + Suc n"] by (simp del: upt_Suc)
  ultimately show ?case using Suc by (simp del: upt_Suc crc_rounds.simps)
qed simp

lemma generate_table:
  "length t = 256 \<Longrightarrow> generate_crc32_table t = map (\<lambda>k. crc_rounds 8 (of_nat k)) [0..<256]"
  using table_loop_eq[of 0 256 t] by (simp add: generate_crc32_table_def del: crc_rounds.simps upt_Suc)

lemma table_round:
  fixes crc :: u32 and b :: u8
  shows "map (\<lambda>k. crc_rounds 8 (of_nat k)) [0..<256] ! unat ((crc XOR ucast b) AND 0xFF) XOR drop_bit 8 crc
    = crc_rounds 8 (crc XOR ucast b)"
proof -
  let ?x = "crc XOR ucast b" and ?m = "mask 8 :: u32"
  have m: "0xFF = ?m" by (simp add: mask_eq_exp_minus_1)
  have lt: "unat (?x AND ?m) < 256"
    using word_and_le1[of ?x ?m] by (simp add: word_le_nat_alt mask_eq_exp_minus_1)
  have split: "?x = (?x AND ?m) XOR (?x AND NOT ?m)" by (rule bit_word_eqI) (auto simp: bit_simps)
  have "crc_rounds 8 (?x AND NOT ?m) = drop_bit 8 (?x AND NOT ?m)"
    by (rule crc_rounds_shift) (simp add: bit_and_iff bit_not_iff bit_mask_iff)
  also have "\<dots> = drop_bit 8 crc"
    by (rule bit_word_eqI) (auto simp: bit_simps dest: bit_imp_le_length)
  finally have "crc_rounds 8 ?x = crc_rounds 8 (?x AND ?m) XOR drop_bit 8 crc"
    using crc_rounds_xor[of 8 "?x AND ?m" "?x AND NOT ?m"] split by (simp del: crc_rounds.simps)
  with lt show ?thesis unfolding m by (simp del: crc_rounds.simps)
qed

lemma crc_loop_bitwise: "crc_loop (map (\<lambda>k. crc_rounds 8 (of_nat k)) [0..<256]) crc u = crc_bitwise crc u"
  by (induction u arbitrary: crc) (simp_all add: table_round del: crc_rounds.simps upt_Suc)

lemma compute_crc32_ok:
  assumes "crc_static_ok s"
  shows "fst (compute_crc32 s buf initial) = crc32 buf initial" "crc_static_ok (snd (compute_crc32 s buf initial))"
    "crc_table_generated (snd (compute_crc32 s buf initial))"
  using assms
  by (auto simp: compute_crc32_def crc_static_ok_def crc32_bitwise generate_table crc_loop_bitwise Let_def
    simp del: crc_rounds.simps upt_Suc)

text \<open>Evaluation on literals.\<close>

lemma crc_rounds_eval:
  "crc_rounds (numeral k) c = crc_rounds (pred_numeral k) (if c AND 1 \<noteq> 0 then 0xEDB88320 XOR drop_bit 1 c else drop_bit 1 c)"
  "crc_rounds (Suc 0) c = (if c AND 1 \<noteq> 0 then 0xEDB88320 XOR drop_bit 1 c else drop_bit 1 c)"
  by (simp_all add: numeral_eq_Suc polynomial_def)

section \<open>Error detection\<close>

lemma crc_bitwise_append: "crc_bitwise crc (xs @ ys) = crc_bitwise (crc_bitwise crc xs) ys"
  by (induction xs arbitrary: crc) (simp_all del: crc_rounds.simps)

lemma crc_bitwise_word:
  "length bs \<le> 4 \<Longrightarrow> crc_bitwise crc bs = crc_rounds (8 * length bs) (crc XOR le_word bs)"
proof (induction bs arbitrary: crc)
  case (Cons b bs)
  let ?w = "le_word bs :: u32"
  have "crc_rounds 8 (push_bit 8 ?w) = drop_bit 8 (push_bit 8 ?w)"
    by (rule crc_rounds_shift) (simp add: bit_push_bit_iff)
  also have "\<dots> = ?w"
  proof (rule bit_word_eqI)
    fix k assume "k < LENGTH(32)"
    then show "bit (drop_bit 8 (push_bit 8 ?w)) k = bit ?w k"
      using Cons.prems by (auto simp: bit_drop_bit_eq bit_push_bit_iff bit_le_word)
  qed
  finally have "crc_rounds 8 (crc XOR ucast b) XOR ?w = crc_rounds 8 ((crc XOR ucast b) XOR push_bit 8 ?w)"
    unfolding crc_rounds_xor by simp
  moreover have "(crc XOR ucast b) XOR push_bit 8 ?w = crc XOR le_word (b # bs)"
    by (rule bit_word_eqI) (auto simp: bit_simps dest: bit_imp_le_length)
  ultimately show ?case using Cons by (simp add: crc_rounds_add del: crc_rounds.simps)
qed simp

lemma xor_cancel: "a XOR c = b XOR c \<Longrightarrow> a = b" for a b c :: "'a::len word"
  by (metis xor.assoc xor.right_neutral xor_self_eq)

lemma crc_bitwise_inj: "crc_bitwise a bs = crc_bitwise b bs \<Longrightarrow> a = b"
proof (induction bs arbitrary: a b)
  case (Cons x bs)
  then have "crc_rounds 8 (a XOR ucast x) = crc_rounds 8 (b XOR ucast x)" by (simp del: crc_rounds.simps)
  then show ?case by (rule xor_cancel[OF crc_rounds_inj])
qed simp

lemma burst_detected:
  assumes "length bs = length bs'" "length bs \<le> 4" "bs \<noteq> bs'"
  shows "crc32 (pre @ bs @ post) initial \<noteq> crc32 (pre @ bs' @ post) initial"
proof
  assume "crc32 (pre @ bs @ post) initial = crc32 (pre @ bs' @ post) initial"
  then have "crc_bitwise (crc_bitwise (initial XOR 0xFFFFFFFF) (pre @ bs)) post
      = crc_bitwise (crc_bitwise (initial XOR 0xFFFFFFFF) (pre @ bs')) post"
    unfolding crc32_bitwise crc_bitwise_append[symmetric] append_assoc by (rule xor_cancel)
  then have "crc_bitwise (crc_bitwise (initial XOR 0xFFFFFFFF) pre) bs
      = crc_bitwise (crc_bitwise (initial XOR 0xFFFFFFFF) pre) bs'"
    unfolding crc_bitwise_append by (rule crc_bitwise_inj)
  then have "le_word bs = (le_word bs' :: u32)"
    using assms(1,2) crc_rounds_inj xor_cancel by (metis crc_bitwise_word xor.commute)
  then have "le_bytes (length bs) (le_word bs :: u32) = le_bytes (length bs) (le_word bs' :: u32)" by simp
  then show False using assms le_bytes_le_word[of bs "length bs", where 'a = 32]
      le_bytes_le_word[of bs' "length bs", where 'a = 32] by simp
qed

section \<open>Properties\<close>

text \<open>C37. On every call, the first that builds the table or a later one, the table-driven routine
  computes the CRC-32 of IEEE 802.3, defined one message bit at a time by its generator polynomial, and leaves the static table ready and correct for the next call.\<close>

theorem compute_crc32_equiv:
  assumes "crc_static_ok s"
  shows "fst (compute_crc32 s buf initial) = crc32 buf initial \<and> crc_static_ok (snd (compute_crc32 s buf initial))
    \<and> crc_table_generated (snd (compute_crc32 s buf initial))"
  using compute_crc32_ok[OF assms] by blast

theorem compute_crc32_equiv_witness:
  "fst (compute_crc32 crc_static_init [0x61] 0) = crc32 [0x61] 0"
  using compute_crc32_equiv[of crc_static_init "[0x61]" 0] by (simp add: crc_static_ok_def crc_static_init_def)

text \<open>The parameter \<^verbatim>\<open>initial\<close> chains calls: the checksum of a concatenation is the checksum of the
  second part started from the checksum of the first.\<close>

theorem crc32_incremental:
  "fst (compute_crc32 crc_static_init (xs @ ys) initial)
     = (let (c, s) = compute_crc32 crc_static_init xs initial in fst (compute_crc32 s ys c))"
proof -
  have ok: "crc_static_ok crc_static_init" by (simp add: crc_static_ok_def crc_static_init_def)
  have "crc32 (xs @ ys) initial = crc32 ys (crc32 xs initial)"
    by (simp add: crc32_bitwise crc_bitwise_append xor.assoc)
  then show ?thesis using compute_crc32_ok[OF ok] compute_crc32_ok(1)[OF compute_crc32_ok(2)[OF ok]]
    by (simp add: case_prod_beta)
qed

text \<open>C38. The checksum detects every error confined to four consecutive bytes: two messages of the
  same length that agree outside such a window and differ inside it have different checksums.\<close>

theorem crc32_detects_burst:
  assumes "length bs = length bs'" "length bs \<le> 4" "bs \<noteq> bs'"
  shows "fst (compute_crc32 crc_static_init (pre @ bs @ post) initial)
    \<noteq> fst (compute_crc32 crc_static_init (pre @ bs' @ post) initial)"
proof -
  have "crc_static_ok crc_static_init" by (simp add: crc_static_ok_def crc_static_init_def)
  from compute_crc32_ok(1)[OF this] show ?thesis using burst_detected[OF assms] by simp
qed

theorem crc32_detects_burst_witness:
  "fst (compute_crc32 crc_static_init ([1, 2] @ [3, 4] @ [5]) 0) \<noteq> fst (compute_crc32 crc_static_init ([1, 2] @ [3, 7] @ [5]) 0)"
  by (rule crc32_detects_burst) simp_all

text \<open>The program prints the checksum its comment expects, \<^verbatim>\<open>414fa339\<close>.\<close>

theorem crc_main_output: "crc_main = ''CRC-32: 414fa339\<newline>''"
proof -
  have ok: "crc_static_ok crc_static_init" by (simp add: crc_static_ok_def crc_static_init_def)
  have "crc32 fox 0 = 0x414FA339" unfolding crc32_bitwise fox_def
    by (simp add: crc_rounds_eval del: crc_rounds.simps(2))
  with compute_crc32_ok(1)[OF ok] show ?thesis
    by (simp add: crc_main_def show_base.simps hex_digit_def)
qed

end
