(* ===== verification/Event_Emitter.thy ===== *)
theory Event_Emitter
  imports Prelude
begin

text \<open>
  The class \<^verbatim>\<open>EventEmitter\<close> of \<^verbatim>\<open>client/network/event_emitter.hpp\<close> (\<^verbatim>\<open>server/network\<close> holds an
  identical copy). The stored functions are of any type \<open>'f\<close>, and \<open>call\<close> says what calling one does: it acts on an
  application state, may throw, and may use the emitter that calls it. An empty \<^verbatim>\<open>std::function\<close> is \<open>None\<close>. Undefined
  (\<open>None\<close> as a result) are the overflow of the identifier counter and a loop over listeners that were changed under it.
\<close>

section \<open>Definitions\<close>

record 'f callback_entry =
  cb_id :: int
  cb_func :: 'f

record 'f event_emitter =
  em_listeners :: "'f callback_entry list"
  em_next_id :: int

type_synonym ('f, 's) calls = "'f \<Rightarrow> int \<Rightarrow> 's \<times> 'f event_emitter \<Rightarrow> (exn + unit) \<times> 's \<times> 'f event_emitter"

definition emitter_new :: "'f event_emitter" where
  "emitter_new = \<lparr>em_listeners = [], em_next_id = 0\<rparr>"

definition registerCallback :: "'f event_emitter \<Rightarrow> 'f option \<Rightarrow> (int \<times> 'f event_emitter) option" where
  "registerCallback e cb = (case cb of
     None \<Rightarrow> Some (-1, e)
   | Some f \<Rightarrow>
       let cid = em_next_id e in
       if cid < 2 ^ 31 - 1
       then Some (cid, e\<lparr>em_next_id := cid + 1, em_listeners := em_listeners e @ [\<lparr>cb_id = cid, cb_func = f\<rparr>]\<rparr>)
       else None)"

definition unregisterCallback :: "'f event_emitter \<Rightarrow> int \<Rightarrow> 'f event_emitter" where
  "unregisterCallback e cid = e\<lparr>em_listeners := filter (\<lambda>c. \<not> cb_id c = cid) (em_listeners e)\<rparr>"

text \<open>
  The loop of \<^verbatim>\<open>emit\<close>; an exception ends it. Adding or erasing an element of a vector invalidates the iterators of a loop
  over it, so going on after a callback that did so is undefined. A registration also shows in \<^verbatim>\<open>next_id\<close>.
\<close>

fun emit_loop :: "('f, 's) calls \<Rightarrow> 'f callback_entry list \<Rightarrow> int \<Rightarrow> 's \<times> 'f event_emitter
    \<Rightarrow> ((exn + unit) \<times> 's \<times> 'f event_emitter) option" where
  "emit_loop call [] v (st, e) = Some (Inr (), st, e)"
| "emit_loop call (c # cs) v (st, e) = (case call (cb_func c) v (st, e) of
     (Inl x, st', e') \<Rightarrow> Some (Inl x, st', e')
   | (Inr _, st', e') \<Rightarrow> if e' = e then emit_loop call cs v (st', e') else None)"

definition emit :: "('f, 's) calls \<Rightarrow> 'f event_emitter \<Rightarrow> int \<Rightarrow> 's \<Rightarrow> ((exn + unit) \<times> 's \<times> 'f event_emitter) option" where
  "emit call e v st = (if em_listeners e = [] then Some (Inr (), st, e) else emit_loop call (em_listeners e) v (st, e))"

text \<open>A history of calls: the identifiers returned and the emitter that results.\<close>

datatype 'f emitter_call = Register "'f option" | Unregister int

fun emitter_run :: "'f event_emitter \<Rightarrow> 'f emitter_call list \<Rightarrow> (int list \<times> 'f event_emitter) option" where
  "emitter_run e [] = Some ([], e)"
| "emitter_run e (Register cb # cs) = do {
     (cid, e) \<leftarrow> registerCallback e cb;
     (ids, e) \<leftarrow> emitter_run e cs;
     Some (cid # ids, e)
   }"
| "emitter_run e (Unregister cid # cs) = emitter_run (unregisterCallback e cid) cs"

text \<open>
  Reference: each registration with the identifier its caller was given, \<open>-1\<close> for an empty function, and those of them that
  were not unregistered afterwards.
\<close>

fun registered :: "'f emitter_call list \<Rightarrow> 'f option list" where
  "registered [] = []"
| "registered (Register cb # cs) = cb # registered cs"
| "registered (Unregister cid # cs) = registered cs"

fun live_callbacks :: "int list \<Rightarrow> 'f emitter_call list \<Rightarrow> (int \<times> 'f) list" where
  "live_callbacks ids [] = []"
| "live_callbacks (i # ids) (Register (Some f) # cs) = (if Unregister i \<in> set cs then [] else [(i, f)]) @ live_callbacks ids cs"
| "live_callbacks (i # ids) (Register None # cs) = live_callbacks ids cs"
| "live_callbacks [] (Register cb # cs) = []"
| "live_callbacks ids (Unregister cid # cs) = live_callbacks ids cs"

definition registrations :: "'f emitter_call list \<Rightarrow> nat" where
  "registrations cs = length (filter (\<lambda>cb. cb \<noteq> None) (registered cs))"

definition entries :: "'f event_emitter \<Rightarrow> (int \<times> 'f) list" where
  "entries e = map (\<lambda>c. (cb_id c, cb_func c)) (em_listeners e)"

text \<open>Calling a list of functions in order until one throws.\<close>

fun call_all :: "('f, 's) calls \<Rightarrow> 'f list \<Rightarrow> int \<Rightarrow> 's \<times> 'f event_emitter \<Rightarrow> (exn + unit) \<times> 's \<times> 'f event_emitter" where
  "call_all call [] v (st, e) = (Inr (), st, e)"
| "call_all call (f # fs) v (st, e) = (case call f v (st, e) of
     (Inl x, st', e') \<Rightarrow> (Inl x, st', e') | (Inr _, st', e') \<Rightarrow> call_all call fs v (st', e'))"

text \<open>A function that leaves the emitter as it is.\<close>

definition keeps_emitter :: "('f, 's) calls \<Rightarrow> 'f \<Rightarrow> bool" where
  "keeps_emitter call f \<longleftrightarrow> (\<forall>v st e. snd (snd (call f v (st, e))) = e)"

text \<open>The identifiers given out from \<open>n\<close> on.\<close>

fun ids_from :: "int \<Rightarrow> 'f option list \<Rightarrow> int list" where
  "ids_from n [] = []"
| "ids_from n (None # cbs) = -1 # ids_from n cbs"
| "ids_from n (Some f # cbs) = n # ids_from (n + 1) cbs"

text \<open>Functions that record the value, and one that records its double.\<close>

definition demo_calls :: "(int, int list) calls" where
  "demo_calls f v = (\<lambda>(st, e). (Inr (), f * v # st, e))"

section \<open>Histories\<close>

lemma entries_unregister: "entries (unregisterCallback e cid) = filter (\<lambda>(i, f). i \<noteq> cid) (entries e)"
  by (simp add: entries_def unregisterCallback_def filter_map comp_def)

lemma entries_register:
  assumes "em_next_id e < 2 ^ 31 - 1"
  shows "\<exists>e'. registerCallback e (Some f) = Some (em_next_id e, e') \<and> entries e' = entries e @ [(em_next_id e, f)]
    \<and> em_next_id e' = em_next_id e + 1"
  using assms by (simp add: registerCallback_def entries_def Let_def)

lemma registrations_simps [simp]:
  "registrations [] = 0" "registrations (Register (Some f) # cs) = Suc (registrations cs)"
  "registrations (Register None # cs) = registrations cs" "registrations (Unregister i # cs) = registrations cs"
  by (simp_all add: registrations_def)

lemma ids_from_range: "i \<in> set (ids_from n cbs) \<Longrightarrow> i = -1 \<or> n \<le> i"
  by (induction n cbs rule: ids_from.induct) auto

lemma ids_from_distinct: "0 \<le> n \<Longrightarrow> distinct (filter (\<lambda>i. i \<noteq> -1) (ids_from n cbs))"
  by (induction n cbs rule: ids_from.induct) (auto dest: ids_from_range)

lemma ids_from_None: "0 \<le> n \<Longrightarrow> k < length cbs \<Longrightarrow> (ids_from n cbs ! k = -1) = (cbs ! k = None)"
  by (induction n cbs arbitrary: k rule: ids_from.induct) (auto simp: nth_Cons split: nat.split)

lemma length_ids_from [simp]: "length (ids_from n cbs) = length cbs"
  by (induction n cbs rule: ids_from.induct) auto

lemma live_callbacks_ids:
  "ids = ids_from n (registered cs) \<Longrightarrow> (i, f) \<in> set (live_callbacks ids cs) \<Longrightarrow> n \<le> i"
  by (induction ids cs arbitrary: n rule: live_callbacks.induct) (force split: if_splits)+

lemma live_distinct: "ids = ids_from n (registered cs) \<Longrightarrow> distinct (map fst (live_callbacks ids cs))"
proof (induction ids cs arbitrary: n rule: live_callbacks.induct)
  case (2 i ids f cs)
  then have "i = n" "ids = ids_from (n + 1) (registered cs)" by simp_all
  with 2(1)[of "n + 1"] live_callbacks_ids[of ids "n + 1" cs] show ?case by fastforce
qed auto

text \<open>An entry survives a history exactly if the history does not unregister it; identifiers are never reused.\<close>

lemma emitter_run_entries:
  assumes "em_next_id e + int (registrations cs) < 2 ^ 31" "\<And>i f. (i, f) \<in> set (entries e) \<Longrightarrow> i < em_next_id e"
  defines "ids \<equiv> ids_from (em_next_id e) (registered cs)"
  shows "\<exists>e'. emitter_run e cs = Some (ids, e')
    \<and> entries e' = filter (\<lambda>(i, f). Unregister i \<notin> set cs) (entries e) @ live_callbacks ids cs"
  using assms(1,2) unfolding ids_def
proof (induction e cs rule: emitter_run.induct)
  case (1 e)
  then show ?case by simp
next
  case (2 e cb cs)
  show ?case
  proof (cases cb)
    case None
    then have run: "registerCallback e cb = Some (-1, e)" by (simp add: registerCallback_def)
    have "\<exists>e'. emitter_run e cs = Some (ids_from (em_next_id e) (registered cs), e')
        \<and> entries e' = filter (\<lambda>(i, f). Unregister i \<notin> set cs) (entries e) @ live_callbacks (ids_from (em_next_id e) (registered cs)) cs"
      by (rule 2(1)[OF run refl]) (use 2(2,3) None in simp_all)
    with run show ?thesis unfolding None by (elim exE conjE) (intro exI, simp)
  next
    case (Some f)
    with 2(2) have "em_next_id e < 2 ^ 31 - 1" by simp
    then obtain e' where e': "registerCallback e cb = Some (em_next_id e, e')"
      "entries e' = entries e @ [(em_next_id e, f)]" "em_next_id e' = em_next_id e + 1"
      using entries_register[of e f] Some by auto
    have "\<exists>e''. emitter_run e' cs = Some (ids_from (em_next_id e') (registered cs), e'')
        \<and> entries e'' = filter (\<lambda>(i, f). Unregister i \<notin> set cs) (entries e') @ live_callbacks (ids_from (em_next_id e') (registered cs)) cs"
    proof (rule 2(1)[OF e'(1) refl])
      show "em_next_id e' + int (registrations cs) < 2 ^ 31" using 2(2) Some e'(3) by simp
      show "i < em_next_id e'" if "(i, g) \<in> set (entries e')" for i g using that 2(3)[of i g] e'(2,3) by auto
    qed
    then obtain e'' where e'': "emitter_run e' cs = Some (ids_from (em_next_id e + 1) (registered cs), e'')"
      "entries e'' = filter (\<lambda>(i, f). Unregister i \<notin> set cs) (entries e @ [(em_next_id e, f)])
         @ live_callbacks (ids_from (em_next_id e + 1) (registered cs)) cs" unfolding e'(2,3) by blast
    show ?thesis unfolding Some registered.simps ids_from.simps emitter_run.simps e'(1)[unfolded Some]
      by (rule exI[of _ e'']) (simp add: e'')
  qed
next
  case (3 e cid cs)
  have nx: "em_next_id (unregisterCallback e cid) = em_next_id e" by (simp add: unregisterCallback_def)
  have "i < em_next_id e" if "(i, f) \<in> set (entries (unregisterCallback e cid))" for i f
    using that 3(3) by (auto simp: entries_unregister)
  then have "\<exists>e'. emitter_run (unregisterCallback e cid) cs = Some (ids_from (em_next_id e) (registered cs), e')
    \<and> entries e' = filter (\<lambda>(i, f). Unregister i \<notin> set cs) (entries (unregisterCallback e cid))
        @ live_callbacks (ids_from (em_next_id e) (registered cs)) cs"
    using 3(1)[unfolded nx] 3(2) by simp
  then show ?case by (auto simp: entries_unregister intro!: filter_cong)
qed

lemma emit_call_all:
  assumes "\<forall>f \<in> snd ` set (entries e). keeps_emitter call f"
  shows "emit call e v st = Some (call_all call (map snd (entries e)) v (st, e))"
proof -
  have "emit_loop call cs v (st, e) = Some (call_all call (map cb_func cs) v (st, e))"
    if "\<forall>c \<in> set cs. keeps_emitter call (cb_func c)" for cs
    using that
  proof (induction cs arbitrary: st)
    case (Cons c cs)
    have "snd (snd (call (cb_func c) v (st, e))) = e" using Cons.prems by (simp add: keeps_emitter_def)
    with Cons show ?case by (auto split: prod.split sum.split)
  qed simp
  from this[of "em_listeners e"] assms show ?thesis by (simp add: emit_def entries_def comp_def)
qed

lemma unregister_other:
  assumes "cid \<notin> fst ` set (entries e)"
  shows "unregisterCallback e cid = e"
proof -
  have "filter (\<lambda>c. \<not> cb_id c = cid) (em_listeners e) = em_listeners e"
    using assms by (intro filter_True) (force simp: entries_def)
  then show ?thesis by (simp add: unregisterCallback_def)
qed

section \<open>Properties\<close>

text \<open>C39. After any history of registrations and unregistrations (with fewer than \<open>2 ^ 31\<close>
  registrations): each registration was given an identifier, \<open>-1\<close> for an empty function and otherwise one that no other
  registration was given; the listeners are the functions registered and not unregistered by the identifier given for them since, in
  the order of registration; unregistering by such an identifier removes that function and no other, and unregistering any other
  value changes nothing. An emitted value is passed to the listeners in order until one throws, provided that they leave the
  emitter alone.\<close>

theorem emitter_calls_live:
  assumes "registrations cs < 2 ^ 31"
  shows "\<exists>ids e. emitter_run emitter_new cs = Some (ids, e) \<and> length ids = length (registered cs)
    \<and> (\<forall>k < length ids. ids ! k = -1 \<longleftrightarrow> registered cs ! k = None) \<and> distinct (filter (\<lambda>i. i \<noteq> -1) ids)
    \<and> entries e = live_callbacks ids cs \<and> distinct (map fst (entries e))
    \<and> (\<forall>i. entries (unregisterCallback e i) = filter (\<lambda>(j, f). j \<noteq> i) (live_callbacks ids cs))
    \<and> (\<forall>i. i \<notin> fst ` set (live_callbacks ids cs) \<longrightarrow> unregisterCallback e i = e)
    \<and> ((\<forall>f \<in> snd ` set (live_callbacks ids cs). keeps_emitter call f) \<longrightarrow>
         emit call e v st = Some (call_all call (map snd (live_callbacks ids cs)) v (st, e)))"
proof -
  define ids where "ids = ids_from 0 (registered cs)"
  obtain e where e: "emitter_run emitter_new cs = Some (ids, e)" "entries e = live_callbacks ids cs"
    using emitter_run_entries[of emitter_new cs] assms by (auto simp: emitter_new_def entries_def ids_def)
  have "distinct (map fst (entries e))" unfolding e(2) by (rule live_distinct[OF ids_def])
  then show ?thesis
    using e ids_from_distinct[of 0 "registered cs"] ids_from_None[of 0 _ "registered cs"] unregister_other[of _ e] emit_call_all[of e call v st]
    by (intro exI[of _ ids] exI[of _ e] conjI) (simp_all add: ids_def entries_unregister)
qed

theorem emitter_calls_live_witness:
  "\<exists>e. emitter_run emitter_new [Register (Some 1), Register None, Register (Some 2), Unregister 0] = Some ([0, -1, 1], e)
    \<and> emit demo_calls e 5 [] = Some (Inr (), [10], e)"
proof -
  let ?cs = "[Register (Some 1), Register None, Register (Some 2), Unregister 0] :: int emitter_call list"
  obtain e where run: "emitter_run emitter_new ?cs = Some ([0, -1, 1], e)"
    by (simp add: emitter_new_def registerCallback_def unregisterCallback_def)
  have "keeps_emitter demo_calls f" for f by (simp add: keeps_emitter_def demo_calls_def)
  then have "emit demo_calls e 5 [] = Some (call_all demo_calls [2] 5 ([], e))"
    using emitter_calls_live[of ?cs demo_calls 5 "[]"] unfolding run by (auto simp del: emitter_run.simps)
  with run show ?thesis by (simp add: demo_calls_def)
qed

text \<open>\<^verbatim>\<open>emit\<close> is not safe against listeners that use the emitter: if the first listener returns after it has changed the
  listeners, for instance by unregistering itself, the loop goes on with invalid iterators.\<close>

theorem emit_reentrant_undefined:
  assumes "em_listeners e = c # cs" "call (cb_func c) v (st, e) = (Inr (), st', unregisterCallback e (cb_id c))"
  shows "emit call e v st = None"
proof -
  have "c \<notin> set (em_listeners (unregisterCallback e (cb_id c)))" by (simp add: unregisterCallback_def)
  then have "unregisterCallback e (cb_id c) \<noteq> e" using assms(1) by auto
  with assms show ?thesis by (simp add: emit_def)
qed

theorem emit_reentrant_undefined_witness:
  "emit (\<lambda>i v (st, e). (Inr (), v # st, unregisterCallback e i)) \<lparr>em_listeners = [\<lparr>cb_id = 0, cb_func = 0\<rparr>], em_next_id = 1\<rparr> 5 [] = None"
  by (rule emit_reentrant_undefined[of _ "\<lparr>cb_id = 0, cb_func = 0\<rparr>" "[]"]) simp_all

end
