(* ===== verification/Callbacks.thy ===== *)
theory Callbacks
  imports Prelude
begin

text \<open>
  The callback spikes: \<^verbatim>\<open>simple_callback_class.cpp\<close> (a caller with an optional callback),
  \<^verbatim>\<open>templated_callback_class.cpp\<close> (a notifier with a flag beside the callback),
  \<^verbatim>\<open>performant_callback_class.cpp\<close> (a callback applied to every element of a vector),
  \<^verbatim>\<open>udp_callback_class.cpp\<close> (a callback on a buffer) and \<^verbatim>\<open>callback.cpp\<close> (a timer). A
  \<^verbatim>\<open>std::function\<close> that may be empty is an option; what the programs print is a string; \<open>None\<close> is
  undefined behaviour.
\<close>

section \<open>Definitions\<close>

subsection \<open>Caller and client\<close>

text \<open>A callback takes a message and returns what it prints.\<close>

record caller =
  cl_callback :: "(string \<Rightarrow> string) option"

definition caller_new :: caller where "caller_new = \<lparr>cl_callback = None\<rparr>"

definition caller_setCallback :: "(string \<Rightarrow> string) option \<Rightarrow> caller \<Rightarrow> caller" where
  "caller_setCallback cb c = c\<lparr>cl_callback := cb\<rparr>"

definition performTask :: "caller \<Rightarrow> string" where
  "performTask c = ''Caller: Performing a task...\<newline>'' @
     (case cl_callback c of None \<Rightarrow> [] | Some callback \<Rightarrow> callback ''Task completed successfully!'')"

definition handleNotification :: "string \<Rightarrow> string" where
  "handleNotification message = ''Client: Received notification - '' @ message @ ''\<newline>''"

definition simple_main :: string where
  "simple_main =
     (let caller = caller_new;
          lambda_callback = (\<lambda>msg. handleNotification msg);
          caller = caller_setCallback (Some lambda_callback) caller
      in performTask caller)"

subsection \<open>The templated notifier\<close>

record 'a notifier =
  nt_callback :: "('a \<Rightarrow> string) option"
  nt_is_callback_set :: bool

definition notifier_new :: "'a notifier" where
  "notifier_new = \<lparr>nt_callback = None, nt_is_callback_set = False\<rparr>"

definition setCallback :: "('a \<Rightarrow> string) option \<Rightarrow> 'a notifier \<Rightarrow> 'a notifier" where
  "setCallback callback_func n = (let n = n\<lparr>nt_callback := callback_func\<rparr> in n\<lparr>nt_is_callback_set := True\<rparr>)"

text \<open>The output, and the exception of calling an empty function.\<close>

definition triggerCallback :: "'a \<Rightarrow> 'a notifier \<Rightarrow> (exn + unit) \<times> string" where
  "triggerCallback args n =
     (if nt_is_callback_set n
      then case nt_callback n of
          None \<Rightarrow> (Inl Bad_function_call, ''Triggering callback: '')
        | Some callback \<Rightarrow> (Inr (), ''Triggering callback: '' @ callback args)
      else (Inr (), ''Callback not set.\<newline>''))"

definition freeFunctionCallback :: "string \<Rightarrow> string" where
  "freeFunctionCallback message = ''Message from free function: '' @ message @ ''\<newline>''"

definition memberFunctionCallback :: "string \<Rightarrow> string" where
  "memberFunctionCallback message = ''Message from member function: '' @ message @ ''\<newline>''"

definition templated_main :: string where
  "templated_main =
     (let n = notifier_new;
          n = setCallback (Some freeFunctionCallback) n;
          out = snd (triggerCallback ''Hello World!'' n);
          lambda_callback = (\<lambda>msg. memberFunctionCallback msg);
          n = setCallback (Some lambda_callback) n;
          out = out @ snd (triggerCallback ''Hello again, via lambda!'' n);
          n = setCallback (Some (\<lambda>msg. ''Message from inline lambda: '' @ msg @ ''\<newline>'')) n
      in out @ snd (triggerCallback ''One last time, inline!'' n))"

subsection \<open>A callback on every element\<close>

fun process_ints :: "(int \<Rightarrow> int option) \<Rightarrow> int list \<Rightarrow> int list option" where
  "process_ints callback [] = Some []"
| "process_ints callback (value # data) = do {
     value \<leftarrow> callback value;
     data \<leftarrow> process_ints callback data;
     Some (value # data)
   }"

definition multiply_by_two :: "int \<Rightarrow> int option" where
  "multiply_by_two x = int32 (x * 2)"

record transformer =
  tf_multiplier :: int

definition transformer_new :: transformer where "transformer_new = \<lparr>tf_multiplier = 3\<rparr>"

definition multiply_by_three :: "transformer \<Rightarrow> int \<Rightarrow> int option" where
  "multiply_by_three t x = int32 (x * tf_multiplier t)"

fun print_ints :: "int list \<Rightarrow> string" where
  "print_ints [] = []"
| "print_ints (x # xs) = show_int x @ '' '' @ print_ints xs"

definition performant_main :: "string option" where
  "performant_main = do {
     let numbers = [1, 2, 3, 4, 5];
     numbers \<leftarrow> process_ints multiply_by_two numbers;
     let out = ''After multiplying by two: '' @ print_ints numbers @ ''\<newline>'';
     let transformer = transformer_new;
     numbers \<leftarrow> process_ints (\<lambda>x. multiply_by_three transformer x) numbers;
     let out = out @ ''After multiplying by three: '' @ print_ints numbers @ ''\<newline>'';
     numbers \<leftarrow> process_ints (\<lambda>x. int32 (x + 1)) numbers;
     Some (out @ ''After adding one: '' @ print_ints numbers @ ''\<newline>'')
   }"

subsection \<open>A callback on a buffer\<close>

definition process_buffer :: "string \<Rightarrow> u32 \<Rightarrow> (string \<Rightarrow> u32 \<Rightarrow> string option) \<Rightarrow> string option" where
  "process_buffer data len callback = callback data len"

text \<open>The loop of \<^verbatim>\<open>display_buffer\<close> from \<open>i\<close>, with \<open>n\<close> characters left; \<^verbatim>\<open>data[i]\<close> is checked.\<close>

fun display_loop :: "string \<Rightarrow> nat \<Rightarrow> nat \<Rightarrow> string option" where
  "display_loop data i 0 = Some []"
| "display_loop data i (Suc n) =
     (if i < length data then do {
        rest \<leftarrow> display_loop data (Suc i) n;
        Some (data ! i # rest)
      } else None)"

definition display_buffer :: "string \<Rightarrow> u32 \<Rightarrow> string option" where
  "display_buffer data len = do {
     out \<leftarrow> display_loop data 0 (unat len);
     Some (out @ ''\<newline>'')
   }"

definition udp_callback_main :: "string option" where
  "udp_callback_main =
     (let buffer = ''Hello World!'' @ replicate 3988 (CHR 0x00); buffer_len = 12
      in process_buffer buffer buffer_len display_buffer)"

subsection \<open>A timer callback\<close>

text \<open>
  \<^verbatim>\<open>async_wait\<close> stores the handler it is given in the timer; \<^verbatim>\<open>run\<close> waits for the timer and calls each
  stored handler once with the outcome of its wait (\<open>None\<close> is no error, otherwise the message).
\<close>

definition perform_async_operation :: "(string option \<Rightarrow> string) list \<Rightarrow> (string option \<Rightarrow> string) \<Rightarrow> (string option \<Rightarrow> string) list" where
  "perform_async_operation timer handler = timer @ [\<lambda>ec. handler ec]"

definition client_callback :: "string option \<Rightarrow> string" where
  "client_callback ec = (case ec of None \<Rightarrow> ''Timer expired!\<newline>'' | Some message \<Rightarrow> ''Error: '' @ message @ ''\<newline>'')"

definition timer_main :: "string option \<Rightarrow> string" where
  "timer_main ec = concat (map (\<lambda>handler. handler ec) (perform_async_operation [] client_callback))"

section \<open>Lemmas\<close>

lemma process_ints_map:
  "process_ints callback data = (if list_all (\<lambda>x. callback x \<noteq> None) data then Some (map (the \<circ> callback) data) else None)"
  by (induction data) auto

lemma display_loop_eq:
  "display_loop data i n = (if n = 0 \<or> i + n \<le> length data then Some (take n (drop i data)) else None)"
proof (induction n arbitrary: i)
  case (Suc n)
  have "i < length data \<Longrightarrow> take (Suc n) (drop i data) = data ! i # take n (drop (Suc i) data)"
    by (simp add: Cons_nth_drop_Suc flip: take_Suc_Cons)
  then show ?case using Suc by auto
qed simp

section \<open>Properties\<close>

text \<open>The caller invokes its callback exactly once per task if one is set, and an empty function is the same as
  none; the notifier instead trusts its flag: after \<^verbatim>\<open>setCallback\<close> with an empty function,
  \<^verbatim>\<open>triggerCallback\<close> throws, although it has no callback, and without any it reports so.\<close>

theorem callback_dispatch:
  "performTask (caller_setCallback (Some f) c) = ''Caller: Performing a task...\<newline>'' @ f ''Task completed successfully!''
   \<and> performTask (caller_setCallback None c) = performTask caller_new
   \<and> triggerCallback a (setCallback (Some g) n) = (Inr (), ''Triggering callback: '' @ g a)
   \<and> triggerCallback a notifier_new = (Inr (), ''Callback not set.\<newline>'')
   \<and> fst (triggerCallback a (setCallback None n)) = Inl Bad_function_call"
  by (simp add: performTask_def caller_setCallback_def caller_new_def triggerCallback_def setCallback_def notifier_new_def)

text \<open>\<^verbatim>\<open>process_data\<close> replaces every element by the callback's result and is undefined exactly when
  one of the calls is.\<close>

theorem process_ints_correct:
  "process_ints callback data = (if \<exists>x \<in> set data. callback x = None then None else Some (map (the \<circ> callback) data))"
  by (auto simp: process_ints_map list_all_iff)

text \<open>The buffer callback prints exactly the first \<^verbatim>\<open>length\<close> characters and is undefined exactly when
  the buffer is shorter.\<close>

theorem display_buffer_correct:
  "display_buffer data len = (if unat len \<le> length data then Some (take (unat len) data @ ''\<newline>'') else None)"
  by (auto simp: display_buffer_def display_loop_eq)

text \<open>The outputs of the example programs are the ones their comments give.\<close>

theorem callback_mains:
  "simple_main = ''Caller: Performing a task...\<newline>Client: Received notification - Task completed successfully!\<newline>''
   \<and> templated_main = ''Triggering callback: Message from free function: Hello World!\<newline>Triggering callback: ''
       @ ''Message from member function: Hello again, via lambda!\<newline>Triggering callback: ''
       @ ''Message from inline lambda: One last time, inline!\<newline>''
   \<and> performant_main = Some (''After multiplying by two: 2 4 6 8 10 \<newline>After multiplying by three: 6 12 18 24 30 \<newline>''
       @ ''After adding one: 7 13 19 25 31 \<newline>'')
   \<and> udp_callback_main = Some ''Hello World!\<newline>''
   \<and> timer_main None = ''Timer expired!\<newline>''"
proof (intro conjI)
  show "performant_main = Some (''After multiplying by two: 2 4 6 8 10 \<newline>After multiplying by three: 6 12 18 24 30 \<newline>''
       @ ''After adding one: 7 13 19 25 31 \<newline>'')"
    by (simp add: performant_main_def Let_def multiply_by_two_def multiply_by_three_def transformer_new_def int32_def)
       code_simp
  show "udp_callback_main = Some ''Hello World!\<newline>''"
    by (simp add: udp_callback_main_def process_buffer_def display_buffer_def display_loop_eq Let_def)
qed (simp_all add: simple_main_def templated_main_def timer_main_def perform_async_operation_def client_callback_def performTask_def
    caller_setCallback_def caller_new_def handleNotification_def triggerCallback_def setCallback_def notifier_new_def
    freeFunctionCallback_def memberFunctionCallback_def Let_def)

end
