(* ===== verification/Async_Udp.thy ===== *)
theory Async_Udp
  imports Prelude
begin

text \<open>
  The asynchronous UDP client and server of \<^verbatim>\<open>spike/asio_async_udp/\<close>; their programs, and
  the earlier copies of the classes, are in \<open>Async_Programs\<close>. Both keep outgoing messages in a queue that only handlers of the
  \<^verbatim>\<open>io_context\<close> touch. The \<^verbatim>\<open>io_context\<close> and the socket appear as the posted handlers, the
  outstanding operations and the events that complete them. \<^verbatim>\<open>front()\<close> of an empty queue is \<open>None\<close>.
\<close>

section \<open>Definitions\<close>

text \<open>
  The outgoing side: the queue, the handlers posted by \<^verbatim>\<open>send\<close> that have not run, the outstanding
  \<^verbatim>\<open>async_send_to\<close> operations, what was sent, and the error stream.
\<close>

record 'i writer =
  w_queue :: "'i list"
  w_posted :: "'i list"
  w_sending :: "'i list"
  w_sent :: "'i list"
  w_cerr :: string

definition writer_new :: "'i writer" where
  "writer_new = \<lparr>w_queue = [], w_posted = [], w_sending = [], w_sent = [], w_cerr = []\<rparr>"

text \<open>\<^verbatim>\<open>UdpClient::send\<close> posts a handler; the handler is \<open>send_handler\<close>.\<close>

definition send :: "'i writer \<Rightarrow> 'i \<Rightarrow> 'i writer" where
  "send w message = w\<lparr>w_posted := w_posted w @ [message]\<rparr>"

definition start_write :: "'i writer \<Rightarrow> 'i writer option" where
  "start_write w = (case w_queue w of
     [] \<Rightarrow> None
   | message # _ \<Rightarrow> Some (w\<lparr>w_sending := w_sending w @ [message]\<rparr>))"

definition send_handler :: "'i writer \<Rightarrow> 'i \<Rightarrow> 'i writer option" where
  "send_handler w message =
     (let write_in_progress = (w_queue w \<noteq> []);
          w = w\<lparr>w_queue := w_queue w @ [message]\<rparr>
      in if \<not> write_in_progress then start_write w else Some w)"

text \<open>The completion handler of \<^verbatim>\<open>async_send_to\<close>; \<open>ec\<close> is the message of an error. \<^verbatim>\<open>pop()\<close> drops the front.\<close>

definition write_handler :: "string \<Rightarrow> 'i writer \<Rightarrow> string option \<Rightarrow> 'i writer option" where
  "write_handler prefix w ec = (case ec of
     None \<Rightarrow>
       (case w_queue w of
         [] \<Rightarrow> None
       | _ # queue \<Rightarrow>
           let w = w\<lparr>w_queue := queue\<rparr>
           in if queue \<noteq> [] then start_write w else Some w)
   | Some m \<Rightarrow> Some (w\<lparr>w_cerr := w_cerr w @ prefix @ m @ ''\<newline>''\<rparr>))"

text \<open>
  The events: a call of \<^verbatim>\<open>send\<close>, the \<^verbatim>\<open>io_context\<close> running the next posted handler (one thread runs it, and handlers are
  taken to run in the order in which they were posted, which asio documents for strands only), and the completion
  of the oldest outstanding send. An event that is not possible changes nothing.
\<close>

datatype 'i wevent = Submit 'i | Run_posted | Write_done | Write_failed string

fun writer_step :: "string \<Rightarrow> 'i writer \<Rightarrow> 'i wevent \<Rightarrow> 'i writer option" where
  "writer_step prefix w (Submit i) = Some (send w i)"
| "writer_step prefix w Run_posted = (case w_posted w of
     [] \<Rightarrow> Some w | i # rest \<Rightarrow> send_handler (w\<lparr>w_posted := rest\<rparr>) i)"
| "writer_step prefix w Write_done = (case w_sending w of
     [] \<Rightarrow> Some w | i # rest \<Rightarrow> write_handler prefix (w\<lparr>w_sending := rest, w_sent := w_sent w @ [i]\<rparr>) None)"
| "writer_step prefix w (Write_failed m) = (case w_sending w of
     [] \<Rightarrow> Some w | i # rest \<Rightarrow> write_handler prefix (w\<lparr>w_sending := rest\<rparr>) (Some m))"

fun writer_run :: "string \<Rightarrow> 'i writer \<Rightarrow> 'i wevent list \<Rightarrow> 'i writer option" where
  "writer_run prefix w [] = Some w"
| "writer_run prefix w (e # es) = do { w \<leftarrow> writer_step prefix w e; writer_run prefix w es }"

text \<open>The client: its receiving side prints each datagram and receives again.\<close>

type_synonym endpoint_text = string

record async_client =
  ac_writer :: "string writer"
  ac_receiving :: nat
  ac_cout :: string
  ac_cerr :: string

definition client_start_receive :: "async_client \<Rightarrow> async_client" where
  "client_start_receive c = c\<lparr>ac_receiving := ac_receiving c + 1\<rparr>"

definition async_client_new :: async_client where
  "async_client_new = client_start_receive \<lparr>ac_writer = writer_new, ac_receiving = 0, ac_cout = [], ac_cerr = []\<rparr>"

text \<open>
  How a receive ends: with the bytes of a datagram cut to the 1024 bytes of the buffer, with
  \<^verbatim>\<open>operation_aborted\<close>, or with another error.
\<close>

datatype received = Datagram string endpoint_text | Aborted | Receive_error string

definition async_client_receive_handler :: "async_client \<Rightarrow> received \<Rightarrow> async_client" where
  "async_client_receive_handler c r = (case r of
     Datagram data sender \<Rightarrow>
       let message = take 1024 data
       in client_start_receive (c\<lparr>ac_cout := ac_cout c @ ''\<newline>[Client Received from '' @ sender @ '']: '' @ message @ ''\<newline>''\<rparr>)
   | Aborted \<Rightarrow> c
   | Receive_error m \<Rightarrow> c\<lparr>ac_cerr := ac_cerr c @ ''Receive error: '' @ m @ ''\<newline>''\<rparr>)"

text \<open>The echo server: a reply item is the text and the client it goes to.\<close>

record async_server =
  as_writer :: "(string \<times> endpoint_text) writer"
  as_receiving :: nat
  as_cout :: string
  as_cerr :: string

definition server_start_receive :: "async_server \<Rightarrow> async_server" where
  "server_start_receive s = s\<lparr>as_receiving := as_receiving s + 1\<rparr>"

definition async_server_new :: "string \<Rightarrow> async_server" where
  "async_server_new port = server_start_receive
     \<lparr>as_writer = writer_new, as_receiving = 0, as_cout = ''Server listening on port '' @ port @ ''...\<newline>'', as_cerr = []\<rparr>"

definition send_reply :: "async_server \<Rightarrow> string \<Rightarrow> endpoint_text \<Rightarrow> async_server" where
  "send_reply s message target_client = s\<lparr>as_writer := send (as_writer s) (message, target_client)\<rparr>"

definition async_server_receive_handler :: "async_server \<Rightarrow> received \<Rightarrow> async_server" where
  "async_server_receive_handler s r = (case r of
     Datagram data remote \<Rightarrow>
       let message = take 1024 data;
           s = s\<lparr>as_cout := as_cout s @ ''[Server Received from '' @ remote @ '']: '' @ message @ ''\<newline>''\<rparr>;
           reply = ''Echo: '' @ message;
           s = send_reply s reply remote
       in server_start_receive s
   | Aborted \<Rightarrow> s
   | Receive_error m \<Rightarrow> s\<lparr>as_cerr := as_cerr s @ ''Server receive error: '' @ m @ ''\<newline>''\<rparr>)"

datatype sevent = Received received | Writer_event "(string \<times> endpoint_text) wevent"

text \<open>The server moves on a completed receive, if one is outstanding, and on the events of its writer.\<close>

fun server_step :: "async_server \<Rightarrow> sevent \<Rightarrow> async_server option" where
  "server_step s (Received r) =
     Some (if as_receiving s = 0 then s else async_server_receive_handler (s\<lparr>as_receiving := as_receiving s - 1\<rparr>) r)"
| "server_step s (Writer_event (Submit i)) = Some s"
| "server_step s (Writer_event e) = map_option (\<lambda>w. s\<lparr>as_writer := w\<rparr>) (writer_step ''Server send error: '' (as_writer s) e)"

fun server_run :: "async_server \<Rightarrow> sevent list \<Rightarrow> async_server option" where
  "server_run s [] = Some s"
| "server_run s (e # es) = do { s \<leftarrow> server_step s e; server_run s es }"

text \<open>Reference: the messages submitted, and the echoes owed for the datagrams before the first receive error.\<close>

fun submitted :: "'i wevent list \<Rightarrow> 'i list" where
  "submitted [] = []"
| "submitted (Submit i # es) = i # submitted es"
| "submitted (e # es) = submitted es"

fun echoes :: "sevent list \<Rightarrow> (string \<times> endpoint_text) list" where
  "echoes [] = []"
| "echoes (Received (Datagram data remote) # es) = (''Echo: '' @ take 1024 data, remote) # echoes es"
| "echoes (Received r # es) = []"
| "echoes (Writer_event e # es) = echoes es"

text \<open>One receive is outstanding until the first one that does not deliver a datagram.\<close>

fun receiving :: "sevent list \<Rightarrow> bool" where
  "receiving [] \<longleftrightarrow> True"
| "receiving (Received (Datagram data remote) # es) \<longleftrightarrow> receiving es"
| "receiving (Received r # es) \<longleftrightarrow> False"
| "receiving (Writer_event e # es) \<longleftrightarrow> receiving es"

text \<open>The writer's invariant: one send outstanding while the queue is not empty, none after a failure.\<close>

definition writer_inv :: "bool \<Rightarrow> 'i writer \<Rightarrow> bool" where
  "writer_inv failed w \<longleftrightarrow> w_sending w = (if failed \<or> w_queue w = [] then [] else [hd (w_queue w)])
     \<and> (failed \<longrightarrow> w_queue w \<noteq> [])"

definition all_items :: "'i writer \<Rightarrow> 'i list" where
  "all_items w = w_sent w @ w_queue w @ w_posted w"

section \<open>The outgoing queue\<close>

lemma writer_step_inv:
  assumes "writer_inv failed w"
  shows "\<exists>w' failed'. writer_step prefix w e = Some w' \<and> writer_inv failed' w'
    \<and> all_items w' = all_items w @ submitted [e] \<and> (failed \<longrightarrow> failed' \<and> w_sent w' = w_sent w)
    \<and> (failed' \<longrightarrow> failed \<or> (\<exists>m. e = Write_failed m))"
proof (cases e)
  case (Submit i)
  with assms show ?thesis by (intro exI[of _ "send w i"] exI[of _ failed]) (simp add: send_def writer_inv_def all_items_def)
next
  case Run_posted
  show ?thesis
  proof (cases "w_posted w")
    case Nil
    with assms Run_posted show ?thesis by (auto simp: all_items_def)
  next
    case (Cons i rest)
    with assms Run_posted show ?thesis
      by (cases "w_queue w") (auto simp: writer_inv_def all_items_def send_handler_def start_write_def Let_def intro!: exI[of _ failed])
  qed
next
  case Write_done
  show ?thesis
  proof (cases "w_sending w")
    case Nil
    with assms Write_done show ?thesis by (auto simp: all_items_def)
  next
    case (Cons i rest)
    with assms have "\<not> failed" "rest = []" "\<exists>qs. w_queue w = i # qs" by (auto simp: writer_inv_def neq_Nil_conv split: if_splits)
    then obtain qs where "\<not> failed" "rest = []" "w_queue w = i # qs" by blast
    with Cons Write_done show ?thesis
      by (cases qs) (auto simp: writer_inv_def all_items_def write_handler_def start_write_def Let_def intro!: exI[of _ False])
  qed
next
  case (Write_failed m)
  show ?thesis
  proof (cases "w_sending w")
    case Nil
    with assms Write_failed show ?thesis by (auto simp: all_items_def)
  next
    case (Cons i rest)
    with assms Write_failed show ?thesis
      by (intro exI[of _ "w\<lparr>w_sending := [], w_cerr := w_cerr w @ prefix @ m @ ''\<newline>''\<rparr>"] exI[of _ True])
        (auto simp: writer_inv_def all_items_def write_handler_def split: if_splits)
  qed
qed

lemma writer_run_inv:
  "writer_inv failed w \<Longrightarrow> \<exists>w' failed'. writer_run prefix w es = Some w' \<and> writer_inv failed' w'
    \<and> all_items w' = all_items w @ submitted es \<and> (failed \<longrightarrow> failed' \<and> w_sent w' = w_sent w)
    \<and> (failed' \<longrightarrow> failed \<or> (\<exists>m. Write_failed m \<in> set es))"
proof (induction es arbitrary: w failed)
  case (Cons e es)
  obtain w1 f1 where 1: "writer_step prefix w e = Some w1" "writer_inv f1 w1" "all_items w1 = all_items w @ submitted [e]"
    "failed \<longrightarrow> f1 \<and> w_sent w1 = w_sent w" "f1 \<longrightarrow> failed \<or> (\<exists>m. e = Write_failed m)"
    using writer_step_inv[OF Cons.prems] by blast
  obtain w2 f2 where 2: "writer_run prefix w1 es = Some w2" "writer_inv f2 w2" "all_items w2 = all_items w1 @ submitted es"
    "f1 \<longrightarrow> f2 \<and> w_sent w2 = w_sent w1" "f2 \<longrightarrow> f1 \<or> (\<exists>m. Write_failed m \<in> set es)"
    using Cons.IH[OF 1(2)] by blast
  have sub: "submitted (e # es) = submitted [e] @ submitted es" by (cases e) auto
  have run: "writer_run prefix w (e # es) = Some w2" using 1(1) 2(1) by simp
  have "(f2 \<longrightarrow> failed \<or> (\<exists>m. Write_failed m \<in> set (e # es)))" using 1(5) 2(5) by auto
  moreover have "failed \<longrightarrow> f2 \<and> w_sent w2 = w_sent w" using 1(4) 2(4) by auto
  moreover have "all_items w2 = all_items w @ submitted (e # es)" unfolding sub 2(3) 1(3) by simp
  ultimately show ?case using run 2(2) by blast
qed auto

lemma writer_new_inv: "writer_inv False writer_new" "all_items writer_new = []"
  by (simp_all add: writer_inv_def writer_new_def all_items_def)

lemma server_run_inv:
  assumes "writer_inv failed (as_writer s)" "as_receiving s \<le> 1"
  shows "\<exists>s' failed'. server_run s es = Some s' \<and> writer_inv failed' (as_writer s')
    \<and> all_items (as_writer s') = all_items (as_writer s) @ (if as_receiving s = 1 then echoes es else [])
    \<and> as_receiving s' = (if as_receiving s = 1 \<and> receiving es then 1 else 0)"
  using assms
proof (induction es arbitrary: s failed)
  case (Cons e es)
  show ?case
  proof (cases e)
    case (Received r)
    show ?thesis
    proof (cases "as_receiving s = 1")
      case True
      have "writer_inv failed (send (as_writer s) i)" "all_items (send (as_writer s) i) = all_items (as_writer s) @ [i]" for i
        using Cons.prems(1) by (simp_all add: send_def writer_inv_def all_items_def)
      with True Received Cons.prems show ?thesis
        using Cons.IH[of failed "async_server_receive_handler (s\<lparr>as_receiving := 0\<rparr>) r"]
        by (cases r) (simp_all add: async_server_receive_handler_def server_start_receive_def send_reply_def Let_def)
    next
      case False
      with Cons.prems have "as_receiving s = 0" by simp
      with Received Cons.IH[OF Cons.prems] show ?thesis by simp
    qed
  next
    case (Writer_event we)
    show ?thesis
    proof (cases "\<exists>i. we = Submit i")
      case True
      with Writer_event Cons.IH[OF Cons.prems] show ?thesis by auto
    next
      case False
      then have "submitted [we] = []" by (cases we) auto
      then obtain w f where w: "writer_step ''Server send error: '' (as_writer s) we = Some w" "writer_inv f w"
        "all_items w = all_items (as_writer s)"
        using writer_step_inv[OF Cons.prems(1), of "''Server send error: ''" we] by auto
      have "server_step s e = Some (s\<lparr>as_writer := w\<rparr>)" using False w(1) Writer_event by (cases we) auto
      with Cons.IH[of f "s\<lparr>as_writer := w\<rparr>"] w Cons.prems(2) Writer_event show ?thesis by (simp split del: if_split cong: if_cong)
    qed
  qed
qed auto

section \<open>Properties\<close>

text \<open>C32. In every history of sends, posted handlers and completed or failed transmissions, the code
  never takes the front of an empty queue, never has two transmissions outstanding, and loses, duplicates
  or reorders nothing: what was transmitted, what is queued and what is still posted are together
  the submitted messages in order.\<close>

theorem async_writer_fifo:
  "\<exists>w. writer_run prefix writer_new es = Some w \<and> w_sent w @ w_queue w @ w_posted w = submitted es
    \<and> length (w_sending w) \<le> 1"
  using writer_run_inv[OF writer_new_inv(1), of prefix es] writer_new_inv(2)
  by (auto simp: all_items_def writer_inv_def)

text \<open>Without a failed transmission, once no posted handler and no transmission is left, every
  submitted message has been transmitted.\<close>

theorem async_writer_delivers:
  assumes "writer_run prefix writer_new es = Some w" "\<forall>m. Write_failed m \<notin> set es" "w_posted w = []" "w_sending w = []"
  shows "w_sent w = submitted es"
  using writer_run_inv[OF writer_new_inv(1), of prefix es] assms writer_new_inv(2)
  by (auto simp: all_items_def writer_inv_def split: if_splits)

theorem async_writer_delivers_witness:
  "\<exists>w. writer_run [] writer_new [Submit (1::nat), Submit 2, Run_posted, Run_posted, Write_done, Write_done] = Some w
    \<and> w_sent w = [1, 2]"
proof -
  let ?es = "[Submit (1::nat), Submit 2, Run_posted, Run_posted, Write_done, Write_done]"
  obtain w where w: "writer_run [] writer_new ?es = Some w" "w_posted w = []" "w_sending w = []"
    by (simp add: writer_new_def send_def send_handler_def start_write_def write_handler_def Let_def)
  from async_writer_delivers[OF w(1) _ w(2,3)] have "w_sent w = [1, 2]" by simp
  with w(1) show ?thesis by blast
qed

text \<open>One failed transmission silences the sender for good: its message stays at the front of the
  queue, so every later send finds a write in progress, and whatever happens afterwards nothing is ever
  transmitted again.\<close>

theorem async_writer_stalls:
  assumes "writer_run prefix writer_new es = Some w" "w_sending w \<noteq> []"
    "writer_run prefix w (Write_failed m # es') = Some w'"
  shows "w_sent w' = w_sent w \<and> w_sending w' = [] \<and> w_queue w' \<noteq> []"
proof -
  obtain f where inv: "writer_inv f w" using writer_run_inv[OF writer_new_inv(1), of prefix es] assms(1) by auto
  with assms(2) have q: "\<not> f" "w_queue w \<noteq> []" "w_sending w = [hd (w_queue w)]" by (auto simp: writer_inv_def split: if_splits)
  let ?w1 = "w\<lparr>w_sending := [], w_cerr := w_cerr w @ prefix @ m @ ''\<newline>''\<rparr>"
  have "writer_step prefix w (Write_failed m) = Some ?w1" using q(3) by (simp add: write_handler_def)
  then have run: "writer_run prefix ?w1 es' = Some w'" using assms(3) by simp
  have "writer_inv True ?w1" using q(2) by (simp add: writer_inv_def)
  from writer_run_inv[OF this, of prefix es'] run show ?thesis by (auto simp: writer_inv_def)
qed

theorem async_writer_stalls_witness:
  "\<exists>w w'. writer_run [] writer_new [Submit (1::nat), Run_posted] = Some w
    \<and> writer_run [] w [Write_failed [], Submit 2, Run_posted, Write_done] = Some w' \<and> w_sent w' = [] \<and> w_sending w' = []"
proof -
  obtain w where w: "writer_run [] writer_new [Submit (1::nat), Run_posted] = Some w" "w_sending w \<noteq> []" "w_sent w = []"
    by (simp add: writer_new_def send_def send_handler_def start_write_def Let_def)
  have "writer_run [] writer_new ([Submit (1::nat), Run_posted] @ [Write_failed [], Submit 2, Run_posted, Write_done]) \<noteq> None"
    by (simp add: writer_new_def send_def send_handler_def start_write_def write_handler_def Let_def)
  then obtain w' where w': "writer_run [] w [Write_failed [], Submit 2, Run_posted, Write_done] = Some w'"
    using w(1) by (auto split: Option.bind_splits)
  from async_writer_stalls[OF w(1,2) w'] w w' show ?thesis by auto
qed

text \<open>The echo server never uses an empty queue and owes each client exactly the echoes of the
  datagrams it received, cut to 1024 bytes, in order; it keeps one receive outstanding until a receive ends
  without a datagram, and from then on it is deaf.\<close>

theorem async_server_echoes:
  "\<exists>s. server_run (async_server_new port) es = Some s
    \<and> w_sent (as_writer s) @ w_queue (as_writer s) @ w_posted (as_writer s) = echoes es
    \<and> as_receiving s = (if receiving es then 1 else 0)"
proof -
  have new: "as_writer (async_server_new port) = writer_new" "as_receiving (async_server_new port) = 1"
    by (simp_all add: async_server_new_def server_start_receive_def)
  obtain s where s: "server_run (async_server_new port) es = Some s" "all_items (as_writer s) = echoes es"
    "as_receiving s = (if receiving es then 1 else 0)"
    using server_run_inv[of False "async_server_new port" es] new by (auto simp: writer_new_inv)
  then show ?thesis by (simp add: all_items_def)
qed

end
