(* ===== verification/Async_Programs.thy ===== *)
theory Async_Programs
  imports Async_Udp Asio
begin

text \<open>
  The four programs around the asynchronous spike classes: \<^verbatim>\<open>asio_async_udp/client.cpp\<close> and \<^verbatim>\<open>asio_async_udp/server.cpp\<close> with their
  \<^verbatim>\<open>main\<close>, and the earlier \<^verbatim>\<open>asio_async_udp_client.cpp\<close> (Boost, sending only) and \<^verbatim>\<open>asio_async_udp_server.cpp\<close> with their own
  copies of the classes. The question is the shutdown: \<^verbatim>\<open>join()\<close> returns only when \<^verbatim>\<open>io_context::run()\<close> does, which is
  the parameter \<open>returns\<close> of \<open>Asio\<close>.
\<close>

section \<open>Definitions\<close>

text \<open>
  How far a \<^verbatim>\<open>main\<close> gets. An exception that unwinds past a joinable \<^verbatim>\<open>std::thread\<close> calls \<^verbatim>\<open>std::terminate\<close>.
\<close>

datatype 's started = Terminated | Running 's

definition writer_work :: "'i writer \<Rightarrow> bool" where
  "writer_work w \<longleftrightarrow> w_posted w \<noteq> [] \<or> w_sending w \<noteq> []"

subsection \<open>The client\<close>

definition client_put :: "string \<Rightarrow> async_client \<Rightarrow> async_client" where
  "client_put t c = c\<lparr>ac_cout := ac_cout c @ t\<rparr>"

text \<open>\<^verbatim>\<open>main\<close> up to its sleep; \<open>constructed\<close> is the exception of the client's constructor, if any.\<close>

definition async_client_start :: "exn option \<Rightarrow> async_client started" where
  "async_client_start constructed = (case constructed of
     Some x \<Rightarrow> Terminated
   | None \<Rightarrow>
       let c = client_put ''Client sending messages...\<newline>'' async_client_new;
           c = c\<lparr>ac_writer := send (ac_writer c) ''Hello Standalone Server!''\<rparr>;
           c = c\<lparr>ac_writer := send (ac_writer c) ''Testing the async loop logic.''\<rparr>
       in Running c)"

text \<open>What the network thread does, event by event.\<close>

datatype cevent = C_received received | C_writer "string wevent"

fun async_client_step :: "async_client \<Rightarrow> cevent \<Rightarrow> async_client option" where
  "async_client_step c (C_received r) =
     Some (if ac_receiving c = 0 then c else async_client_receive_handler (c\<lparr>ac_receiving := ac_receiving c - 1\<rparr>) r)"
| "async_client_step c (C_writer (Submit i)) = Some c"
| "async_client_step c (C_writer e) = map_option (\<lambda>w. c\<lparr>ac_writer := w\<rparr>) (writer_step ''Send error: '' (ac_writer c) e)"

fun async_client_run :: "async_client \<Rightarrow> cevent list \<Rightarrow> async_client option" where
  "async_client_run c [] = Some c"
| "async_client_run c (e # es) = do { c \<leftarrow> async_client_step c e; async_client_run c es }"

text \<open>The end of \<^verbatim>\<open>main\<close>: the exit status, or \<open>None\<close> as long as \<^verbatim>\<open>join()\<close> blocks.\<close>

definition async_client_stop :: "(io_state \<Rightarrow> bool \<Rightarrow> bool) \<Rightarrow> async_client \<Rightarrow> (int \<times> async_client) option" where
  "async_client_stop returns c = do {
     let c = client_put ''Shutting down client...\<newline>'' c;
     let io = guard_reset io_started;
     io \<leftarrow> join_thread returns (writer_work (ac_writer c) \<or> 0 < ac_receiving c) io;
     Some (0, c)
   }"

subsection \<open>The server\<close>

definition server_put :: "string \<Rightarrow> async_server \<Rightarrow> async_server" where
  "server_put t s = s\<lparr>as_cout := as_cout s @ t\<rparr>"

definition async_server_start :: "exn option \<Rightarrow> async_server started" where
  "async_server_start constructed = (case constructed of
     Some x \<Rightarrow> Terminated
   | None \<Rightarrow> Running (server_put ''Server running. Press Enter to terminate...\<newline>'' (async_server_new ''8080'')))"

definition async_server_stop :: "(io_state \<Rightarrow> bool \<Rightarrow> bool) \<Rightarrow> async_server \<Rightarrow> (int \<times> async_server) option" where
  "async_server_stop returns s = do {
     let s = server_put ''Shutting down server...\<newline>'' s;
     let io = io_stop io_started;
     let io = guard_reset io;
     let s = server_put ''Joining thread\<newline>'' s;
     io \<leftarrow> join_thread returns (writer_work (as_writer s) \<or> 0 < as_receiving s) io;
     Some (0, s)
   }"

subsection \<open>The Boost client\<close>

text \<open>The class has no receiving side.\<close>

definition boost_send :: "string writer \<Rightarrow> string \<Rightarrow> string writer" where
  "boost_send w message = w\<lparr>w_posted := w_posted w @ [message]\<rparr>"

definition boost_start_write :: "string writer \<Rightarrow> string writer option" where
  "boost_start_write w = (case w_queue w of
     [] \<Rightarrow> None
   | message # _ \<Rightarrow> Some (w\<lparr>w_sending := w_sending w @ [message]\<rparr>))"

definition boost_send_handler :: "string writer \<Rightarrow> string \<Rightarrow> string writer option" where
  "boost_send_handler w message =
     (let write_in_progress = (w_queue w \<noteq> []);
          w = w\<lparr>w_queue := w_queue w @ [message]\<rparr>
      in if \<not> write_in_progress then boost_start_write w else Some w)"

definition boost_write_handler :: "string writer \<Rightarrow> string option \<Rightarrow> string writer option" where
  "boost_write_handler w ec = (case ec of
     None \<Rightarrow>
       (case w_queue w of
         [] \<Rightarrow> None
       | _ # queue \<Rightarrow>
           let w = w\<lparr>w_queue := queue\<rparr>
           in if queue \<noteq> [] then boost_start_write w else Some w)
   | Some m \<Rightarrow> Some (w\<lparr>w_cerr := w_cerr w @ ''Send error: '' @ m @ ''\<newline>''\<rparr>))"

definition boost_client_start :: "exn option \<Rightarrow> (string \<times> string writer) started" where
  "boost_client_start constructed = (case constructed of
     Some x \<Rightarrow> Terminated
   | None \<Rightarrow>
       let cout = ''Sending messages and listening for replies...\<newline>'';
           w = boost_send writer_new ''Hello Server!'';
           w = boost_send w ''Can you hear me?''
       in Running (cout, w))"

text \<open>The network thread of the Boost client.\<close>

fun boost_step :: "string writer \<Rightarrow> string wevent \<Rightarrow> string writer option" where
  "boost_step w (Submit i) = Some (boost_send w i)"
| "boost_step w Run_posted = (case w_posted w of
     [] \<Rightarrow> Some w | i # rest \<Rightarrow> boost_send_handler (w\<lparr>w_posted := rest\<rparr>) i)"
| "boost_step w Write_done = (case w_sending w of
     [] \<Rightarrow> Some w | i # rest \<Rightarrow> boost_write_handler (w\<lparr>w_sending := rest, w_sent := w_sent w @ [i]\<rparr>) None)"
| "boost_step w (Write_failed m) = (case w_sending w of
     [] \<Rightarrow> Some w | i # rest \<Rightarrow> boost_write_handler (w\<lparr>w_sending := rest\<rparr>) (Some m))"

fun boost_run :: "string writer \<Rightarrow> string wevent list \<Rightarrow> string writer option" where
  "boost_run w [] = Some w"
| "boost_run w (e # es) = do { w \<leftarrow> boost_step w e; boost_run w es }"

definition boost_client_stop :: "(io_state \<Rightarrow> bool \<Rightarrow> bool) \<Rightarrow> string \<times> string writer \<Rightarrow> (int \<times> string) option" where
  "boost_client_stop returns = (\<lambda>(cout, w). do {
     let cout = cout @ ''Shutting down...\<newline>'';
     let io = guard_reset io_started;
     io \<leftarrow> join_thread returns (writer_work w) io;
     Some (0, cout)
   })"

subsection \<open>The earlier server\<close>

text \<open>
  Its own copy of the class; the reply queue and its handlers are those of the client with reply items, here \<open>send\<close>,
  \<open>send_handler\<close> and \<open>write_handler\<close> at that type.
\<close>

definition echo_start_receive :: "async_server \<Rightarrow> async_server" where
  "echo_start_receive s = s\<lparr>as_receiving := as_receiving s + 1\<rparr>"

definition echo_server_new :: "string \<Rightarrow> async_server" where
  "echo_server_new port = echo_start_receive
     \<lparr>as_writer = writer_new, as_receiving = 0, as_cout = ''Server listening on port '' @ port @ ''...\<newline>'', as_cerr = []\<rparr>"

definition echo_send_reply :: "async_server \<Rightarrow> string \<Rightarrow> endpoint_text \<Rightarrow> async_server" where
  "echo_send_reply s message target_client = s\<lparr>as_writer := send (as_writer s) (message, target_client)\<rparr>"

definition echo_receive_handler :: "async_server \<Rightarrow> received \<Rightarrow> async_server" where
  "echo_receive_handler s r = (case r of
     Datagram data remote \<Rightarrow>
       let message = take 1024 data;
           s = s\<lparr>as_cout := as_cout s @ ''[Server Received from '' @ remote @ '']: '' @ message @ ''\<newline>''\<rparr>;
           reply = ''Echo: '' @ message;
           s = echo_send_reply s reply remote
       in echo_start_receive s
   | Aborted \<Rightarrow> s
   | Receive_error m \<Rightarrow> s\<lparr>as_cerr := as_cerr s @ ''Server receive error: '' @ m @ ''\<newline>''\<rparr>)"

definition echo_server_start :: "exn option \<Rightarrow> async_server started" where
  "echo_server_start constructed = (case constructed of
     Some x \<Rightarrow> Terminated
   | None \<Rightarrow> Running (server_put ''Server is running. Press Enter to terminate...\<newline>'' (echo_server_new ''8080'')))"

definition echo_server_stop :: "(io_state \<Rightarrow> bool \<Rightarrow> bool) \<Rightarrow> async_server \<Rightarrow> (int \<times> async_server) option" where
  "echo_server_stop returns s = do {
     let s = server_put ''Shutting down server...\<newline>'' s;
     let io = guard_reset io_started;
     io \<leftarrow> join_thread returns (writer_work (as_writer s) \<or> 0 < as_receiving s) io;
     Some (0, s)
   }"

text \<open>The receives of the client that delivered a datagram only.\<close>

fun only_datagrams :: "cevent list \<Rightarrow> bool" where
  "only_datagrams [] = True"
| "only_datagrams (C_received (Datagram d r) # es) = only_datagrams es"
| "only_datagrams (C_received _ # es) = False"
| "only_datagrams (C_writer e # es) = only_datagrams es"

section \<open>Lemmas\<close>

lemma boost_start_write_eq: "boost_start_write = start_write"
  by (rule ext) (simp add: boost_start_write_def start_write_def)

lemma boost_step_eq: "boost_step w e = writer_step ''Send error: '' w e"
  by (cases e) (simp_all add: boost_send_def send_def boost_send_handler_def send_handler_def boost_write_handler_def
      write_handler_def boost_start_write_eq Let_def split: list.split)

lemma boost_run_eq: "boost_run w es = writer_run ''Send error: '' w es"
  by (induction es arbitrary: w) (simp_all add: boost_step_eq)

lemma echo_handler_eq: "echo_receive_handler = async_server_receive_handler"
  by (intro ext) (simp add: echo_receive_handler_def async_server_receive_handler_def echo_send_reply_def send_reply_def
      echo_start_receive_def server_start_receive_def Let_def split: received.split)

lemma echo_new_eq: "echo_server_new = async_server_new"
  by (rule ext) (simp add: echo_server_new_def async_server_new_def echo_start_receive_def server_start_receive_def)

lemma event_cases:
  obtains d r where "e = C_received (Datagram d r)" | "e = C_received Aborted" | m where "e = C_received (Receive_error m)"
  | we where "e = C_writer we"
  by (metis cevent.exhaust received.exhaust)

lemma client_step_receiving:
  assumes "async_client_step c e = Some c'" "only_datagrams [e]" "ac_receiving c = 1"
  shows "ac_receiving c' = 1"
proof (cases e)
  case (C_received r)
  with assms show ?thesis
    by (cases r) (auto simp: async_client_receive_handler_def client_start_receive_def)
next
  case (C_writer we)
  with assms show ?thesis by (cases we) auto
qed

lemma client_run_receiving:
  "async_client_run c es = Some c' \<Longrightarrow> only_datagrams es \<Longrightarrow> ac_receiving c = 1 \<Longrightarrow> ac_receiving c' = 1"
proof (induction es arbitrary: c)
  case (Cons e es)
  have "only_datagrams [e]" "only_datagrams es" using Cons.prems(2) by (cases e rule: event_cases; simp)+
  with Cons client_step_receiving show ?case by (auto split: Option.bind_splits)
qed simp

lemma client_started_receiving: "async_client_start None = Running c \<Longrightarrow> ac_receiving c = 1"
  by (auto simp: async_client_start_def async_client_new_def client_start_receive_def client_put_def Let_def)

section \<open>Properties\<close>

text \<open>C33. The client cannot be shut down: it resets the work guard but never stops the context, and its receive is always
  outstanding, so whatever was transmitted and received in between, \<^verbatim>\<open>join()\<close> blocks until a receive fails.\<close>

theorem async_client_never_joins:
  assumes "async_client_start None = Running c" "async_client_run c es = Some c'" "only_datagrams es" "asio_run_ok returns"
  shows "async_client_stop returns c' = None"
  using client_run_receiving[OF assms(2,3) client_started_receiving[OF assms(1)]] join_unstopped[OF assms(4)]
  by (simp add: async_client_stop_def client_put_def)

theorem async_client_never_joins_witness:
  "\<exists>c c'. async_client_start None = Running c
    \<and> async_client_run c [C_writer Run_posted, C_writer Write_done, C_received (Datagram ''Echo'' ''s'')] = Some c'
    \<and> async_client_stop demo_returns c' = None"
proof -
  let ?es = "[C_writer Run_posted, C_writer Write_done, C_received (Datagram ''Echo'' ''s'')]"
  obtain c where c: "async_client_start None = Running c" by (simp add: async_client_start_def Let_def)
  then obtain c' where c': "async_client_run c ?es = Some c'"
    by (auto simp: async_client_start_def async_client_new_def client_start_receive_def client_put_def Let_def writer_new_def
        send_def send_handler_def start_write_def write_handler_def)
  from async_client_never_joins[OF c c' _ demo_returns_ok] c c' show ?thesis by auto
qed

text \<open>The server stops the context first, so it can be shut down in every state. The earlier server does not, and can be
  shut down only after a receive has ended without a datagram, although both answer the same datagrams.\<close>

theorem async_server_shutdown:
  assumes "asio_run_ok returns"
  shows "\<exists>s. server_run (async_server_new port) es = Some s \<and> async_server_stop returns s \<noteq> None
    \<and> (receiving es \<longrightarrow> echo_server_stop returns s = None) \<and> echo_receive_handler s r = async_server_receive_handler s r"
proof -
  have new: "as_writer (async_server_new port) = writer_new" "as_receiving (async_server_new port) = 1"
    by (simp_all add: async_server_new_def server_start_receive_def)
  obtain s where "server_run (async_server_new port) es = Some s" "as_receiving s = (if receiving es then 1 else 0)"
    using server_run_inv[of False "async_server_new port" es] new by (auto simp: writer_new_inv)
  then show ?thesis
    by (auto simp: async_server_stop_def echo_server_stop_def join_stopped[OF assms] join_unstopped[OF assms] server_put_def
        echo_handler_eq)
qed

theorem async_server_shutdown_witness:
  "\<exists>s. server_run (async_server_new ''8080'') [] = Some s \<and> async_server_stop demo_returns s \<noteq> None"
  using async_server_shutdown[OF demo_returns_ok, of "''8080''" "[]"] by blast

text \<open>The Boost client, which never receives, shuts down as soon as its two messages are out: they are transmitted in
  order, and \<^verbatim>\<open>join()\<close> returns exactly when no posted handler and no transmission is left.\<close>

theorem boost_client_shutdown:
  assumes "boost_client_start None = Running (cout, w0)" "boost_run w0 es = Some w" "submitted es = []" "asio_run_ok returns"
  shows "(boost_client_stop returns (cout, w) = None \<longleftrightarrow> writer_work w)
    \<and> w_sent w @ w_queue w @ w_posted w = [''Hello Server!'', ''Can you hear me?'']
    \<and> ((\<forall>m. Write_failed m \<notin> set es) \<and> \<not> writer_work w \<longrightarrow> w_sent w = [''Hello Server!'', ''Can you hear me?''])"
proof -
  let ?m = "[''Hello Server!'', ''Can you hear me?'']"
  have "writer_inv False w0" "all_items w0 = ?m"
    using assms(1) by (auto simp: boost_client_start_def boost_send_def writer_new_def writer_inv_def all_items_def Let_def)
  from writer_run_inv[OF this(1), of "''Send error: ''" es] this(2) assms(2,3)
  obtain f where f: "writer_inv f w" "all_items w = ?m" "f \<longrightarrow> (\<exists>m. Write_failed m \<in> set es)"
    by (auto simp: boost_run_eq)
  then show ?thesis
    by (auto simp: boost_client_stop_def join_unstopped[OF assms(4)] writer_work_def all_items_def writer_inv_def split: if_splits)
qed

theorem boost_client_shutdown_witness:
  "\<exists>cout w0 w. boost_client_start None = Running (cout, w0)
    \<and> boost_run w0 [Run_posted, Run_posted, Write_done, Write_done] = Some w \<and> boost_client_stop demo_returns (cout, w) \<noteq> None"
proof -
  obtain cout w0 where s: "boost_client_start None = Running (cout, w0)" by (simp add: boost_client_start_def Let_def)
  obtain w where w: "boost_run w0 [Run_posted, Run_posted, Write_done, Write_done] = Some w" "\<not> writer_work w"
    using s by (auto simp: boost_client_start_def boost_send_def writer_new_def Let_def boost_send_handler_def
        boost_start_write_def boost_write_handler_def writer_work_def)
  from boost_client_shutdown[OF s w(1) _ demo_returns_ok] s w show ?thesis by auto
qed

end
