(* ===== verification/Daytime.thy ===== *)
theory Daytime
  imports Prelude
begin

text \<open>
  The synchronous asio spikes \<^verbatim>\<open>spike/asio_udp_server.cpp\<close> (a daytime server) and \<^verbatim>\<open>spike/asio_udp_client.cpp\<close>. asio, the
  clock and the time zone are arguments: the outcomes of the socket calls, the times read, and \<open>ctime\<close>, the text
  \<^verbatim>\<open>std::ctime\<close> gives for a time in the local zone. The server's endless loop is run on the list of
  receives that have ended so far.
\<close>

section \<open>Definitions\<close>

type_synonym endpoint4 = "u32 \<times> u16"

text \<open>What a program has printed and sent.\<close>

record sync_io =
  io_out :: string
  io_err :: string
  io_sent :: "(string \<times> endpoint4) list"

definition io_new :: sync_io where "io_new = \<lparr>io_out = [], io_err = [], io_sent = []\<rparr>"

definition io_put :: "string \<Rightarrow> sync_io \<Rightarrow> sync_io" where
  "io_put t s = s\<lparr>io_out := io_out s @ t\<rparr>"

definition io_cerr :: "string \<Rightarrow> sync_io \<Rightarrow> sync_io" where
  "io_cerr t s = s\<lparr>io_err := io_err s @ t\<rparr>"

subsection \<open>The server\<close>

definition make_daytime_string :: "(int \<Rightarrow> string) \<Rightarrow> int \<Rightarrow> string" where
  "make_daytime_string ctime now = ctime now"

text \<open>How \<^verbatim>\<open>receive_from\<close> ends: a datagram, a datagram that is longer than the buffer, or another error.\<close>

datatype received_from = Datagram endpoint4 | Message_size endpoint4 | Receive_error string

text \<open>One iteration; the left result is the exception it throws.\<close>

definition daytime_iteration ::
  "(int \<Rightarrow> string) \<Rightarrow> (u32 \<Rightarrow> string) \<Rightarrow> received_from \<Rightarrow> int \<Rightarrow> sync_io \<Rightarrow> (exn + unit) \<times> sync_io" where
  "daytime_iteration ctime to_string r now s = (case r of
     Receive_error e \<Rightarrow> (Inl (Runtime_error e), s)
   | Datagram ep \<Rightarrow>
       let message = make_daytime_string ctime now;
           s = s\<lparr>io_sent := io_sent s @ [(message, ep)]\<rparr>
       in (Inr (), io_put (''Sent message to '' @ to_string (fst ep) @ '':'' @ show_base 10 (unat (snd ep)) @ ''\<newline>'') s)
   | Message_size ep \<Rightarrow>
       let message = make_daytime_string ctime now;
           s = s\<lparr>io_sent := io_sent s @ [(message, ep)]\<rparr>
       in (Inr (), io_put (''Sent message to '' @ to_string (fst ep) @ '':'' @ show_base 10 (unat (snd ep)) @ ''\<newline>'') s))"

fun daytime_loop ::
  "(int \<Rightarrow> string) \<Rightarrow> (u32 \<Rightarrow> string) \<Rightarrow> (received_from \<times> int) list \<Rightarrow> sync_io \<Rightarrow> (exn + unit) \<times> sync_io" where
  "daytime_loop ctime to_string [] s = (Inr (), s)"
| "daytime_loop ctime to_string ((r, now) # rs) s =
     (case daytime_iteration ctime to_string r now s of
       (Inl x, s) \<Rightarrow> (Inl x, s) | (Inr _, s) \<Rightarrow> daytime_loop ctime to_string rs s)"

text \<open>
  \<^verbatim>\<open>main\<close>: \<open>opened\<close> is the exception of the socket's constructor, if any. The result is the exit status, or
  \<open>None\<close> while the loop is waiting.
\<close>

definition daytime_main ::
  "(exn \<Rightarrow> string) \<Rightarrow> (int \<Rightarrow> string) \<Rightarrow> (u32 \<Rightarrow> string) \<Rightarrow> exn option \<Rightarrow> (received_from \<times> int) list \<Rightarrow> int option \<times> sync_io" where
  "daytime_main what ctime to_string opened rs = (case opened of
     Some x \<Rightarrow> (Some 0, io_cerr (''Exception: '' @ what x @ ''\<newline>'') io_new)
   | None \<Rightarrow>
       (case daytime_loop ctime to_string rs (io_put ''UDP Server listening on port 13...\<newline>'' io_new) of
         (Inl x, s) \<Rightarrow> (Some 0, io_cerr (''Exception: '' @ what x @ ''\<newline>'') s)
       | (Inr _, s) \<Rightarrow> (None, s)))"

subsection \<open>The client\<close>

text \<open>
  \<^verbatim>\<open>main\<close> with its arguments and the outcomes of \<^verbatim>\<open>resolve\<close>, \<^verbatim>\<open>open\<close>, \<^verbatim>\<open>send_to\<close> and \<^verbatim>\<open>receive_from\<close>; \<open>None\<close> is the
  dereference of an empty list of results.
\<close>

definition asio_client_main ::
  "(exn \<Rightarrow> string) \<Rightarrow> string list \<Rightarrow> (string \<Rightarrow> exn + endpoint4 list) \<Rightarrow> exn option \<Rightarrow> exn option \<Rightarrow> exn + string
     \<Rightarrow> (int \<times> sync_io) option" where
  "asio_client_main what argv resolve opened sent reply =
     (let caught = (\<lambda>x s. Some (0, io_cerr (''Exception: '' @ what x @ ''\<newline>'') s)) in
      if length argv \<noteq> 2 then Some (1, io_cerr ''Usage: client <host>\<newline>'' io_new)
      else case resolve (argv ! 1) of
        Inl x \<Rightarrow> caught x io_new
      | Inr [] \<Rightarrow> None
      | Inr (receiver_endpoint # _) \<Rightarrow>
         (case opened of Some x \<Rightarrow> caught x io_new | None \<Rightarrow>
         (case sent of Some x \<Rightarrow> caught x io_new | None \<Rightarrow>
            let s = io_new\<lparr>io_sent := [(''Hello Server!'', receiver_endpoint)]\<rparr> in
            case reply of
              Inl x \<Rightarrow> caught x s
            | Inr datagram \<Rightarrow>
                let recv_buf = take 512 datagram;
                    s = io_put ''Received from server: '' s;
                    s = io_put recv_buf s
                in Some (0, io_put ''\<newline>'' s))))"

text \<open>The receives that are answered, and by what.\<close>

fun fatal :: "received_from \<Rightarrow> bool" where
  "fatal (Receive_error e) = True"
| "fatal r = False"

fun sender :: "received_from \<Rightarrow> endpoint4" where
  "sender (Datagram ep) = ep"
| "sender (Message_size ep) = ep"
| "sender (Receive_error e) = (0, 0)"

section \<open>Lemmas\<close>

lemma daytime_iteration_ok:
  "\<not> fatal r \<Longrightarrow> \<exists>s'. daytime_iteration ctime to_string r now s = (Inr (), s')
     \<and> io_sent s' = io_sent s @ [(ctime now, sender r)] \<and> io_err s' = io_err s"
  by (cases r) (simp_all add: daytime_iteration_def make_daytime_string_def io_put_def Let_def)

lemma daytime_loop_sent:
  "case daytime_loop ctime to_string rs s of (r, s') \<Rightarrow>
     io_sent s' = io_sent s @ map (\<lambda>(r, now). (ctime now, sender r)) (takeWhile (\<lambda>(r, now). \<not> fatal r) rs)
     \<and> io_err s' = io_err s \<and> (r = Inr () \<longleftrightarrow> list_all (\<lambda>(r, now). \<not> fatal r) rs)"
proof (induction rs arbitrary: s)
  case (Cons x rs)
  obtain r now where x: "x = (r, now)" by (cases x)
  show ?case
  proof (cases "fatal r")
    case True
    then show ?thesis by (cases r) (simp_all add: x daytime_iteration_def)
  next
    case False
    from daytime_iteration_ok[OF this] obtain s' where
      s': "daytime_iteration ctime to_string r now s = (Inr (), s')" "io_sent s' = io_sent s @ [(ctime now, sender r)]"
      "io_err s' = io_err s" by blast
    then show ?thesis using False Cons.IH[of s'] by (auto simp: x)
  qed
qed simp

section \<open>Properties\<close>

text \<open>The daytime server answers every datagram before the first receive error, oversized ones included, with the time
  read for it and to its sender, in order; the first other error ends it, with exit status 0 and the error on
  \<^verbatim>\<open>cerr\<close>, and until then it keeps waiting.\<close>

theorem daytime_answers:
  "case daytime_main what ctime to_string None rs of (code, s) \<Rightarrow>
     io_sent s = map (\<lambda>(r, now). (ctime now, sender r)) (takeWhile (\<lambda>(r, now). \<not> fatal r) rs)
     \<and> code = (if list_all (\<lambda>(r, now). \<not> fatal r) rs then None else Some 0)
     \<and> (io_err s = [] \<longleftrightarrow> list_all (\<lambda>(r, now). \<not> fatal r) rs)"
  using daytime_loop_sent[where ctime = ctime and to_string = to_string and rs = rs
      and s = "io_put ''UDP Server listening on port 13...\<newline>'' io_new"]
  by (auto simp: daytime_main_def io_put_def io_cerr_def io_new_def split: prod.splits sum.splits)

text \<open>The client and the server together: if the client's greeting reaches a fresh server and the answer
  reaches the client, the client prints the time the server read, up to the 512 bytes of its buffer. On every failure after the
  usage check the client still reports success to its caller.\<close>

theorem daytime_exchange:
  assumes "resolve host = Inr (ep # eps)" "daytime_main what ctime to_string None [(Datagram me, now)] = (code, s)"
  shows "io_sent s = [(ctime now, me)]
    \<and> asio_client_main what [prog, host] resolve None None (Inr (fst (hd (io_sent s))))
        = Some (0, \<lparr>io_out = ''Received from server: '' @ take 512 (ctime now) @ ''\<newline>'', io_err = [],
            io_sent = [(''Hello Server!'', ep)]\<rparr>)
    \<and> (\<exists>s'. asio_client_main what [prog, host] resolve opened sent reply = Some (0, s'))"
proof -
  have "io_sent s = [(ctime now, me)]"
    using daytime_loop_sent[where ctime = ctime and to_string = to_string and rs = "[(Datagram me, now)]"
        and s = "io_put ''UDP Server listening on port 13...\<newline>'' io_new"] assms(2)
    by (auto simp: daytime_main_def io_put_def io_new_def io_cerr_def split: prod.splits sum.splits)
  then show ?thesis using assms(1)
    by (auto simp: asio_client_main_def io_new_def io_put_def io_cerr_def Let_def split: option.split sum.split)
qed

theorem daytime_exchange_witness:
  "\<exists>s. asio_client_main (\<lambda>_. []) [''c'', ''h''] (\<lambda>_. Inr [(1, 13)]) None None (Inr ''Mon'') = Some (0, s)"
  using daytime_exchange[where resolve = "\<lambda>_. Inr [(1, 13)]" and host = "''h''" and ep = "(1, 13)" and eps = "[]"
      and what = "\<lambda>_. []" and ctime = "\<lambda>_. ''Mon''" and to_string = "\<lambda>_. []" and me = "(2, 5)" and now = 0
      and opened = None and sent = None and reply = "Inr ''Mon''" and prog = "''c''", OF refl prod.collapse[symmetric]]
  by blast

end
