(* ===== verification/Bsd_Udp.thy ===== *)
theory Bsd_Udp
  imports Prelude
begin

text \<open>
  The BSD-socket spikes \<^verbatim>\<open>spike/udp_server.cpp\<close> and \<^verbatim>\<open>spike/udp_client.cpp\<close>. What the kernel answers to a system call is
  an argument: the descriptor that \<^verbatim>\<open>socket\<close> returns, the result of \<^verbatim>\<open>bind\<close> for an address, and for \<^verbatim>\<open>recvfrom\<close> either an error or a datagram
  with its sender, cut to the length of the buffer. A function returns \<open>None\<close> for undefined behaviour, \<open>Inl c\<close> for
  \<^verbatim>\<open>exit(c)\<close> and \<open>Inr\<close> its result, together with the new state of the process. Of \<^verbatim>\<open>perror\<close> only the
  argument is kept.
\<close>

section \<open>Definitions\<close>

definition MAXLINE :: nat where "MAXLINE = 1024"
definition PORT :: u16 where "PORT = 8080"
definition INADDR_ANY :: u32 where "INADDR_ANY = 0"

text \<open>An IPv4 address in host order and a port.\<close>

type_synonym sockaddr = "u32 \<times> u16"

text \<open>A process: its descriptor, what it printed, and the datagrams it sent.\<close>

record bsd =
  bsd_sockfd :: int
  bsd_out :: string
  bsd_err :: string
  bsd_sent :: "(string \<times> sockaddr) list"

type_synonym 'a proc = "bsd \<Rightarrow> ((int + 'a) \<times> bsd) option"

definition bsd_new :: bsd where
  "bsd_new = \<lparr>bsd_sockfd = 0, bsd_out = [], bsd_err = [], bsd_sent = []\<rparr>"

definition bsd_print :: "string \<Rightarrow> bsd \<Rightarrow> bsd" where
  "bsd_print t s = s\<lparr>bsd_out := bsd_out s @ t\<rparr>"

text \<open>Sequencing: an exit ends the program.\<close>

definition proc_bind :: "'a proc \<Rightarrow> ('a \<Rightarrow> 'b proc) \<Rightarrow> 'b proc" where
  "proc_bind f g s = (case f s of
     None \<Rightarrow> None | Some (Inl c, s) \<Rightarrow> Some (Inl c, s) | Some (Inr x, s) \<Rightarrow> g x s)"

text \<open>
  The outcome of \<^verbatim>\<open>recvfrom(fd, buffer, MAXLINE, ...)\<close>: \<open>None\<close> is an error, for which it returns -1, otherwise the
  datagram and its sender.
\<close>

type_synonym arrival = "(string \<times> sockaddr) option"

definition recvfrom :: "string \<Rightarrow> arrival \<Rightarrow> int \<times> string" where
  "recvfrom buffer d = (case d of
     None \<Rightarrow> (-1, buffer)
   | Some (msg, from) \<Rightarrow> let msg = take MAXLINE msg in (int (length msg), msg @ drop (length msg) buffer))"

text \<open>\<^verbatim>\<open>buffer[n] = 0\<close>, which is undefined outside the array.\<close>

definition terminate_at :: "string \<Rightarrow> int \<Rightarrow> string option" where
  "terminate_at buffer n = (if 0 \<le> n \<and> n < int (length buffer) then Some (buffer[nat n := CHR 0x00]) else None)"

subsection \<open>The server\<close>

definition create_udp_socket :: "int \<Rightarrow> unit proc" where
  "create_udp_socket fd s =
     (let s = s\<lparr>bsd_sockfd := fd\<rparr> in
      if fd < 0 then Some (Inl 1, s\<lparr>bsd_err := bsd_err s @ ''socket creation failed''\<rparr>) else Some (Inr (), s))"

definition bind_socket :: "(sockaddr \<Rightarrow> int) \<Rightarrow> sockaddr \<Rightarrow> unit proc" where
  "bind_socket sys_bind servaddr s =
     (if sys_bind servaddr < 0 then Some (Inl 1, s\<lparr>bsd_err := bsd_err s @ ''bind failed''\<rparr>) else Some (Inr (), s))"

text \<open>The buffer and the sender's address after the call.\<close>

definition recieve :: "string \<Rightarrow> sockaddr \<Rightarrow> arrival \<Rightarrow> (string \<times> sockaddr) proc" where
  "recieve buffer cliaddr d s =
     (let (n, buffer) = recvfrom buffer d; cliaddr = (case d of None \<Rightarrow> cliaddr | Some (_, from) \<Rightarrow> from)
      in case terminate_at buffer n of None \<Rightarrow> None | Some buffer \<Rightarrow> Some (Inr (buffer, cliaddr), s))"

definition bsd_server_send :: "string \<Rightarrow> nat \<Rightarrow> sockaddr \<Rightarrow> unit proc" where
  "bsd_server_send message message_len cliaddr s =
     (let s = bsd_print (''Message: '' @ message @ ''\<newline>'') s;
          s = bsd_print (''Message length: '' @ show_base 10 message_len @ ''\<newline>'') s
      in Some (Inr (), s\<lparr>bsd_sent := bsd_sent s @ [(take message_len message, cliaddr)]\<rparr>))"

text \<open>
  \<^verbatim>\<open>main\<close>, where the object the source declares as \<^verbatim>\<open>udp_server\<close> and then calls \<^verbatim>\<open>udp\<close> is taken to be one; \<open>garbage\<close> is
  the uninitialised buffer.
\<close>

definition bsd_server_main :: "string \<Rightarrow> int \<Rightarrow> (sockaddr \<Rightarrow> int) \<Rightarrow> arrival \<Rightarrow> int proc" where
  "bsd_server_main garbage fd sys_bind d =
     proc_bind (create_udp_socket fd) (\<lambda>_.
     proc_bind (bind_socket sys_bind (INADDR_ANY, PORT)) (\<lambda>_.
     proc_bind (recieve garbage (0, 0) d) (\<lambda>(buffer, cliaddr) s.
       let s = bsd_print (''Client: '' @ c_string buffer @ ''\<newline>'') s;
           hello = ''Hello from server'';
           msg_len = length hello
       in proc_bind (bsd_server_send hello msg_len cliaddr) (\<lambda>_ s.
            let s = bsd_print ''Hello message sent.\<newline>'' s in Some (Inr 0, s)) s)))"

subsection \<open>The client\<close>

text \<open>
  The methods of the class. \<^verbatim>\<open>sizeof(message)\<close> is the size of a pointer, and \<^verbatim>\<open>&cliaddr\<close> the address of the
  parameter, not of the structure it points to: \<^verbatim>\<open>sendto\<close> takes its destination from the stack, \<open>stack_addr\<close>, and
  \<^verbatim>\<open>recvfrom\<close> stores a 16-byte address over an 8-byte parameter.
\<close>

definition client_create_socket :: "int \<Rightarrow> unit proc" where
  "client_create_socket fd s =
     (let s = s\<lparr>bsd_sockfd := fd\<rparr> in
      if fd < 0 then Some (Inl 1, s\<lparr>bsd_err := bsd_err s @ ''socket creation failed''\<rparr>) else Some (Inr (), s))"

definition client_bind_socket :: "(sockaddr \<Rightarrow> int) \<Rightarrow> sockaddr \<Rightarrow> unit proc" where
  "client_bind_socket sys_bind servaddr s =
     (if sys_bind servaddr < 0 then Some (Inl 1, s\<lparr>bsd_err := bsd_err s @ ''bind failed''\<rparr>) else Some (Inr (), s))"

definition client_recieve :: "string \<Rightarrow> nat \<Rightarrow> arrival \<Rightarrow> string proc" where
  "client_recieve buffer len d s =
     (let (n, buffer) = recvfrom buffer d in
      if d \<noteq> None \<and> 8 < len then None
      else case terminate_at buffer n of None \<Rightarrow> None | Some buffer \<Rightarrow> Some (Inr buffer, s))"

definition client_send :: "string \<Rightarrow> sockaddr \<Rightarrow> unit proc" where
  "client_send message stack_addr s =
     (let memory = message @ [CHR 0x00] in
      if length memory < 8 then None
      else Some (Inr (), s\<lparr>bsd_sent := bsd_sent s @ [(take 8 memory, stack_addr)]\<rparr>))"

text \<open>\<^verbatim>\<open>main\<close> uses the system calls directly. Port and address are given in network order by \<^verbatim>\<open>htons\<close> and \<^verbatim>\<open>inet_addr\<close>.\<close>

definition loopback :: u32 where "loopback = 0x7F000001"

definition bsd_client_main :: "string \<Rightarrow> int \<Rightarrow> arrival \<Rightarrow> int proc" where
  "bsd_client_main garbage sockfd d s =
     (let s = s\<lparr>bsd_sockfd := sockfd\<rparr> in
      if sockfd < 0 then Some (Inl 1, s\<lparr>bsd_err := bsd_err s @ ''socket creation failed''\<rparr>)
      else
        let hello = ''Hello from client'';
            servaddr = (loopback, PORT);
            s = s\<lparr>bsd_sent := bsd_sent s @ [(take (length hello) hello, servaddr)]\<rparr>;
            s = bsd_print ''Hello message sent.\<newline>'' s;
            (n, buffer) = recvfrom garbage d
        in case terminate_at buffer n of
             None \<Rightarrow> None
           | Some buffer \<Rightarrow> Some (Inr 0, bsd_print (''Server: '' @ c_string buffer @ ''\<newline>'') s))"

section \<open>Lemmas\<close>

lemma proc_bind_simps [simp]:
  "f s = Some (Inl c, s') \<Longrightarrow> proc_bind f g s = Some (Inl c, s')"
  "f s = Some (Inr x, s') \<Longrightarrow> proc_bind f g s = g x s'"
  "f s = None \<Longrightarrow> proc_bind f g s = None"
  by (simp_all add: proc_bind_def)

lemma terminate_received:
  assumes "length garbage = MAXLINE"
  shows "case recvfrom garbage d of (n, buffer) \<Rightarrow>
    (case d of
      None \<Rightarrow> terminate_at buffer n = None
    | Some (msg, from) \<Rightarrow>
        if length msg < MAXLINE then \<exists>b. terminate_at buffer n = Some b \<and> length b = MAXLINE \<and> c_string b = c_string msg
        else terminate_at buffer n = None)"
proof (cases d)
  case (Some mf)
  obtain msg "from" where mf: "mf = (msg, from)" by (cases mf)
  show ?thesis
  proof (cases "length msg < MAXLINE")
    case True
    then have "(msg @ drop (length msg) garbage)[length msg := CHR 0x00] = msg @ CHR 0x00 # drop (Suc (length msg)) garbage"
      using assms by (simp add: list_update_append Cons_nth_drop_Suc[symmetric])
    then show ?thesis using True assms Some mf
      by (simp add: recvfrom_def terminate_at_def Let_def)
  next
    case False
    then show ?thesis using assms Some mf by (simp add: recvfrom_def terminate_at_def Let_def)
  qed
qed (simp add: recvfrom_def terminate_at_def)

lemma recieve_eq:
  assumes "length buffer = MAXLINE"
  shows "case recieve buffer cliaddr d s of
      None \<Rightarrow> d = None \<or> MAXLINE \<le> length (fst (the d))
    | Some (r, s') \<Rightarrow> s' = s \<and> (\<exists>msg a b. d = Some (msg, a) \<and> length msg < MAXLINE \<and> r = Inr (b, a)
        \<and> length b = MAXLINE \<and> c_string b = c_string msg)"
  using terminate_received[OF assms, of d]
  by (cases d) (auto simp: recieve_def Let_def split: option.splits prod.splits if_splits)

lemma bsd_server_outcomes_eq:
  assumes "length garbage = MAXLINE"
  shows "bsd_server_main garbage fd sys_bind d bsd_new =
    (if fd < 0 then Some (Inl 1, bsd_new\<lparr>bsd_sockfd := fd, bsd_err := ''socket creation failed''\<rparr>)
     else if sys_bind (INADDR_ANY, PORT) < 0 then Some (Inl 1, bsd_new\<lparr>bsd_sockfd := fd, bsd_err := ''bind failed''\<rparr>)
     else case d of None \<Rightarrow> None | Some (msg, a) \<Rightarrow>
       if length msg < MAXLINE
       then Some (Inr 0, bsd_new\<lparr>bsd_sockfd := fd, bsd_sent := [(''Hello from server'', a)], bsd_out := ''Client: '' @ c_string msg
         @ ''\<newline>Message: Hello from server\<newline>Message length: 17\<newline>Hello message sent.\<newline>''\<rparr>)
       else None)"
proof -
  let ?s = "bsd_new\<lparr>bsd_sockfd := fd\<rparr>"
  have 17: "show_base 10 (length ''Hello from server'') = ''17''" by code_simp
  show ?thesis using recieve_eq[OF assms, where cliaddr = "(0, 0)" and d = d and s = ?s]
    by (auto simp: bsd_server_main_def proc_bind_def create_udp_socket_def bind_socket_def bsd_server_send_def bsd_print_def
        bsd_new_def Let_def 17[simplified] split: option.splits prod.splits)
qed

section \<open>Properties\<close>

text \<open>C34. \<^verbatim>\<open>recieve\<close> is defined exactly when a datagram shorter than 1024 bytes arrives, and then the
  buffer holds it as a C string and the address is its sender's. A failed \<^verbatim>\<open>recvfrom\<close> makes it write \<^verbatim>\<open>buffer[-1]\<close>, and a
  datagram of 1024 bytes or more makes it write one past the end.\<close>

theorem bsd_receive_bounds:
  assumes "length buffer = MAXLINE"
  shows "case d of
      None \<Rightarrow> recieve buffer cliaddr d s = None
    | Some (msg, a) \<Rightarrow>
        if length msg < MAXLINE
        then \<exists>b. recieve buffer cliaddr d s = Some (Inr (b, a), s) \<and> length b = MAXLINE \<and> c_string b = c_string msg
        else recieve buffer cliaddr d s = None"
  using recieve_eq[OF assms, where cliaddr = cliaddr and d = d and s = s] by (auto split: option.splits)

theorem bsd_receive_bounds_witness:
  "recieve (replicate 1024 CHR ''x'') (0, 0) (Some (replicate 1024 CHR ''a'', (1, 2))) bsd_new = None
   \<and> (\<exists>b. recieve (replicate 1024 CHR ''x'') (0, 0) (Some (''hi'', (1, 2))) bsd_new = Some (Inr (b, (1, 2)), bsd_new)
        \<and> c_string b = c_string ''hi'')"
  using bsd_receive_bounds[where buffer = "replicate 1024 CHR ''x''" and d = "Some (replicate 1024 CHR ''a'', (1, 2))" and cliaddr = "(0, 0)" and s = bsd_new]
    bsd_receive_bounds[where buffer = "replicate 1024 CHR ''x''" and d = "Some (''hi'', (1, 2))" and cliaddr = "(0, 0)" and s = bsd_new]
  by (auto simp: MAXLINE_def)

text \<open>The server program on every outcome of its calls: a failed \<^verbatim>\<open>socket\<close> or \<^verbatim>\<open>bind\<close> exits with status 1 and a
  message, otherwise it prints the client's text and answers its sender, except that a failed receive or an
  oversized datagram is undefined behaviour.\<close>

theorem bsd_server_outcomes:
  assumes "length garbage = MAXLINE"
  shows "bsd_server_main garbage fd sys_bind d bsd_new =
    (if fd < 0 then Some (Inl 1, bsd_new\<lparr>bsd_sockfd := fd, bsd_err := ''socket creation failed''\<rparr>)
     else if sys_bind (INADDR_ANY, PORT) < 0 then Some (Inl 1, bsd_new\<lparr>bsd_sockfd := fd, bsd_err := ''bind failed''\<rparr>)
     else case d of None \<Rightarrow> None | Some (msg, a) \<Rightarrow>
       if length msg < MAXLINE
       then Some (Inr 0, bsd_new\<lparr>bsd_sockfd := fd, bsd_sent := [(''Hello from server'', a)], bsd_out := ''Client: '' @ c_string msg
         @ ''\<newline>Message: Hello from server\<newline>Message length: 17\<newline>Hello message sent.\<newline>''\<rparr>)
       else None)"
  by (rule bsd_server_outcomes_eq[OF assms])

theorem bsd_server_outcomes_witness:
  "bsd_server_main (replicate 1024 CHR ''x'') 3 (\<lambda>_. 0) None bsd_new = None"
  using bsd_server_outcomes[of "replicate 1024 CHR ''x''" 3 "\<lambda>_. 0" None] by (simp add: MAXLINE_def)

text \<open>The two programs together: whatever the uninitialised buffers hold, if the client's datagram reaches
  the server and the server's answer reaches the client, each prints exactly the other's greeting, the client's
  datagram goes to port 8080 of the loopback address, and both exit with success.\<close>

theorem bsd_exchange:
  assumes "length g1 = MAXLINE" "length g2 = MAXLINE" "0 \<le> cfd" "0 \<le> fd" "0 \<le> sys_bind (INADDR_ANY, PORT)"
  shows "\<exists>c s. bsd_client_main g1 cfd (Some (fst (hd (bsd_sent s)), (loopback, PORT))) bsd_new = Some (Inr 0, c)
    \<and> bsd_server_main g2 fd sys_bind (Some (fst (hd (bsd_sent c)), a)) bsd_new = Some (Inr 0, s)
    \<and> map snd (bsd_sent c) = [(loopback, PORT)] \<and> map snd (bsd_sent s) = [a]
    \<and> bsd_out c = ''Hello message sent.\<newline>Server: Hello from server\<newline>''
    \<and> bsd_out s = ''Client: Hello from client\<newline>Message: Hello from server\<newline>Message length: 17\<newline>Hello message sent.\<newline>''"
proof -
  let ?c = "\<lparr>bsd_sockfd = cfd, bsd_out = ''Hello message sent.\<newline>Server: Hello from server\<newline>'', bsd_err = [],
      bsd_sent = [(''Hello from client'', (loopback, PORT))]\<rparr>"
  let ?s = "bsd_new\<lparr>bsd_sockfd := fd, bsd_sent := [(''Hello from server'', a)], bsd_out := ''Client: Hello from client''
      @ ''\<newline>Message: Hello from server\<newline>Message length: 17\<newline>Hello message sent.\<newline>''\<rparr>"
  have hello: "c_string ''Hello from server'' = ''Hello from server''" "c_string ''Hello from client'' = ''Hello from client''"
    by (simp_all add: c_string_def)
  have "bsd_client_main g1 cfd (Some (''Hello from server'', (loopback, PORT))) bsd_new = Some (Inr 0, ?c)"
    using terminate_received[OF assms(1), of "Some (''Hello from server'', (loopback, PORT))"] assms(3) hello
    by (auto simp: bsd_client_main_def MAXLINE_def bsd_new_def bsd_print_def split: prod.splits)
  moreover have "bsd_server_main g2 fd sys_bind (Some (''Hello from client'', a)) bsd_new = Some (Inr 0, ?s)"
    using bsd_server_outcomes_eq[OF assms(2), of fd sys_bind "Some (''Hello from client'', a)"] assms(4,5) hello by (simp add: MAXLINE_def)
  ultimately show ?thesis by (intro exI[of _ ?c] exI[of _ ?s]) (simp add: bsd_new_def)
qed

theorem bsd_exchange_witness:
  "\<exists>c s. bsd_client_main (replicate 1024 CHR ''x'') 3 (Some (fst (hd (bsd_sent s)), (loopback, PORT))) bsd_new = Some (Inr 0, c)
    \<and> bsd_server_main (replicate 1024 CHR ''y'') 4 (\<lambda>_. 0) (Some (fst (hd (bsd_sent c)), (7, 9))) bsd_new = Some (Inr 0, s)"
  using bsd_exchange[of "replicate 1024 CHR ''x''" "replicate 1024 CHR ''y''" 3 4 "\<lambda>_. 0" "(7, 9)"] by (auto simp: MAXLINE_def)

text \<open>The methods of the client's class do not do what they say: \<^verbatim>\<open>send\<close> transmits eight bytes of any longer message,
  to an address taken from the stack, and is undefined for messages of fewer than seven characters;
  \<^verbatim>\<open>recieve\<close> with the length of an address structure overwrites its parameter as soon as a datagram arrives.\<close>

theorem bsd_client_class_flaws:
  "client_send message stack_addr s =
     (if length message < 7 then None
      else Some (Inr (), s\<lparr>bsd_sent := bsd_sent s @ [(take 8 (message @ [CHR 0x00]), stack_addr)]\<rparr>))
   \<and> client_recieve buffer 16 (Some (msg, a)) s = None"
  by (auto simp: client_send_def client_recieve_def Let_def split: prod.split)

end
