(* ===== verification/Spec2Isabelle.thy ===== *)
theory Spec2Isabelle
  imports Mempool_Correct Pool_Threads Startup Utility Circular_Queue Ring_Threads2 Ipc_Threads Shared_Memory Flatbuffers_Block
    Concat_Arrays Crc32 Event_Emitter Callbacks Async_Programs Daytime Bsd_Udp
begin

text \<open>
  \<^bold>\<open>Verification of the unid repository\<close>

  The repository holds a UDP server and client for distributing unique identifiers (\<^verbatim>\<open>server/\<close>, \<^verbatim>\<open>client/\<close>), the library they
  share (\<^verbatim>\<open>common/\<close>: a pool allocator in C, its C++ wrapper, configuration, utilities) and experiments
  (\<^verbatim>\<open>spike/\<close>: queues for inter-process communication, serializers, checksums, callbacks and socket programs). The
  server and the client receive into and send from chunks of one memory pool: \<^verbatim>\<open>main\<close> reads the configuration, builds the
  pool and an endpoint on it, and the completion handlers of asio allocate, free and re-arm.

  \<^bold>\<open>Conventions.\<close> Code that can reach undefined behaviour returns an option, where \<open>None\<close> is undefined; C++ exceptions
  are the left side of a sum. Machine integers are words where they can wrap, and checked where overflow is
  undefined. Code outside the repository is an argument: the allocator functions of libpool, asio (events and
  outcomes of calls), toml++, FlatBuffers, the kernel and the environment. What is assumed of them is a named
  predicate (\<open>ext_ok\<close>, \<open>event_ok\<close>, \<open>asio_run_ok\<close>, \<open>toml_valid\<close>, \<open>flat_lib_ok\<close>), and a witness shows that it can hold. The host is 64-bit and
  little-endian, and \<^verbatim>\<open>char\<close> is signed. Threads interleave at single accesses under sequential consistency, which
  is stronger than the acquire and release orders the code asks for.

  \<^bold>\<open>Idealisations.\<close> The member \<^verbatim>\<open>chunk_size_\<close> of the client is never initialised: reading it is \<open>None\<close>, or, where a theorem
  says what a lucky run does, some value it names. The calls that the main program of the client makes from its own thread do not
  overlap a handler in the accounting theorems; \<open>Pool_Race\<close> is about such an overlap. The asynchronous spikes post their sends from one
  thread, so that they arrive in order. The body of \<^verbatim>\<open>pool_expand\<close> under the lock is one step of its thread, while
  \<^verbatim>\<open>pool_alloc\<close>, \<^verbatim>\<open>pool_free\<close>, the lock and the writes of clients are interleaved at every access. System calls whose result
  the shared-memory spike does not check are taken to succeed.

  \<^bold>\<open>Theories.\<close>

  \<^item> \<open>Prelude\<close>: word and byte lemmas, exceptions, printing of numbers, C strings. \<open>Interleaving\<close>: reachability and schedules of processes
    that share a state, and the locale \<open>safe_steps\<close> of systems with an invariant. \<open>Fifo\<close>: bounded first-in first-out queues and
    the locale \<open>bounded_fifo\<close>. \<open>Text_Numbers\<close>: \<^verbatim>\<open>std::stoi\<close> and stream extraction. \<open>Calendar\<close>: the part of \<^verbatim>\<open>std::chrono\<close> that is used.
  \<^item> \<open>Memory\<close>: a heap of allocated blocks with checked loads and stores, and the external allocator. \<open>Libpool\<close>: all functions of
    \<^verbatim>\<open>common/src/libpool.c\<close>. \<open>Pool_Rep\<close>, \<open>Pool_Ops\<close>, \<open>Pool_Expand\<close>: the representation of a pool by a free list and a list of arrays, and
    what each function does to it. \<open>Pool_Client\<close>: runs of a disciplined client, with the locale \<open>chunk_pool\<close>.
    \<open>Libpool_Correct\<close>: no such run is undefined, held chunks are disjoint and keep their data, \<^verbatim>\<open>pool_destroy\<close> leaves the heap as it
    was, each function refines its operation on lists, and the misuses (double free, chunk size zero) are characterised.
    \<open>Pool_Race\<close>: \<^verbatim>\<open>pool_alloc\<close> access by access by two threads, which is unsafe as the repository builds it.
    \<open>Libpool_Safe\<close>: the build with \<^verbatim>\<open>LIBPOOL_THREAD_SAFE\<close>, its mutex functions over pthreads, its refinement of the plain functions
    and its leak. \<open>Pool_Threads\<close>: any number of threads on one pool of that build, isolated from each other and never shut out.
  \<^item> \<open>Mempool\<close>, \<open>Mempool_Correct\<close>: the C++ wrapper, as an instance of \<open>chunk_pool\<close>; the failure path of \<^verbatim>\<open>expand\<close>.
  \<^item> \<open>Udp\<close>, \<open>Udp_Server\<close>, \<open>Udp_Client\<close>, \<open>Udp_Correct\<close>: both network classes over one event loop. The locale \<open>udp_endpoint\<close> is the contract of
    completion handlers with the pool; its interpretations give the accounting of chunks, the re-arming of the receive and
    the output. \<open>Config\<close>: \<^verbatim>\<open>Config\<close> and the spikes on paths and time points. \<open>Utility\<close>: environment variables.
    \<open>Asio\<close>: the work guard, \<^verbatim>\<open>stop\<close> and the thread that runs the context.
    \<open>Startup\<close>: the two main programs from configuration to shutdown, over all of the above.
  \<^item> \<open>Circular_Queue\<close>, \<open>Ringbuffer\<close>, \<open>Ipc_Queue\<close>: three queues as instances of \<open>bounded_fifo\<close>; equivalence of the cached ring buffer
    with the plain one; the lost update of the IPC queue. \<open>Ipc_Threads\<close>: the IPC queue between two threads, correct apart from
    its counter. \<open>Ring_Threads\<close>, \<open>Ring_Threads2\<close>: the benchmark's producer and
    consumer on both ring buffers, safe and able to finish from every reachable state; the second by simulation.
    \<open>Shared_Memory\<close>: the processes of the shared-memory spike.
  \<^item> \<open>Unid_Block\<close>, \<open>Flatbuffers_Block\<close>, \<open>Concat_Arrays\<close>, \<open>Crc32\<close>: serializers with round trips and layout, concatenation, and the
    table-driven checksum against the bit-serial CRC-32 of IEEE 802.3.
  \<^item> \<open>Event_Emitter\<close>, \<open>Callbacks\<close>: callback registries, with what happens when a callback changes the registry that calls it. \<open>Async_Udp\<close>, \<open>Async_Programs\<close>: message queues of the asynchronous spikes and the
    shutdown of their programs. \<open>Daytime\<close>, \<open>Bsd_Udp\<close>: the synchronous socket programs, each pair also run against each other.

  \<^bold>\<open>Loops and bounds.\<close> There is no fuel. Counting loops are recursive functions with a termination proof; the loops over linked
  lists in \<^verbatim>\<open>pool_destroy\<close> and \<^verbatim>\<open>pool_available\<close> are partial functions, proved to return on every well-formed pool and
  not to return after a double free. Event loops are runs over arbitrary finite lists of events. The benchmark is proved for its
  own constants, \<^verbatim>\<open>queueSize\<close> 100000 and \<^verbatim>\<open>iters\<close> 100000000, through invariants that hold for any.

  \<^bold>\<open>Not modelled.\<close> Logging (quill, spdlog); the debug branch of \<^verbatim>\<open>Config::get_unid_filepath\<close> and
  \<^verbatim>\<open>common/src/get_xdg_dir.cpp\<close>, which do not compile; thread pinning and time measurement; the verifier and the size-prefixed
  functions that \<^verbatim>\<open>flatc\<close> generated and nothing calls; the printing of \<^verbatim>\<open>std::chrono\<close> values in the main program of
  \<^verbatim>\<open>toml_to_timepoint.cpp\<close>; empty stubs, tests and build files. Weak memory orders are not modelled.
\<close>

end
